(* ===== verification/Prelude.thy ===== *)
theory Prelude
  imports Main "HOL-Library.AList" "HOL-Library.Char_ord" "HOL-Library.List_Lexorder"
    "HOL-Library.Product_Lexorder" "HOL-Library.Multiset"
begin

section \<open>Shared vocabulary of the development\<close>

text \<open>
  This theory holds what every component uses: Python's exceptions as the left
  summand of a result, the loops that stop at the first exception, dictionaries in
  insertion order, the integer-division lemmas behind every pro-rata split, and the
  interfaces (locales) for loops that keep an invariant or bound a quantity.
\<close>

subsection \<open>Exceptions as values\<close>

datatype error =
    ValueError
  | KeyError
  | IndexError
  | AssertionError
  | AttributeError
  | ZeroDivisionError
  | TypeError
  | OverflowError
  | FileNotFoundError
  | FileExistsError
  | ImportError
  | CryptoError
  | SystemExit
  | ConnectionError
  | StructError
  | ValidationError string

type_synonym 'a res = "error + 'a"

named_theorems res_simps

text \<open>Sequencing: the first exception ends the computation.\<close>

definition bindE :: "'a res \<Rightarrow> ('a \<Rightarrow> 'b res) \<Rightarrow> 'b res" where
  "bindE m f = (case m of Inl e \<Rightarrow> Inl e | Inr x \<Rightarrow> f x)"

lemma bindE_Inl [simp]: "bindE (Inl e) f = Inl e"
  by (simp add: bindE_def)

lemma bindE_Inr [simp]: "bindE (Inr x) f = f x"
  by (simp add: bindE_def)

lemma bindE_eq_Inr [res_simps]: "bindE m f = Inr y \<longleftrightarrow> (\<exists>x. m = Inr x \<and> f x = Inr y)"
  by (cases m) auto

lemma bindE_cong [fundef_cong]: "\<lbrakk>m = n; \<And>x. n = Inr x \<Longrightarrow> f x = g x\<rbrakk> \<Longrightarrow> bindE m f = bindE n g"
  by (cases n) auto

lemma bindE_assoc: "bindE (bindE m f) g = bindE m (\<lambda>x. bindE (f x) g)"
  by (cases m) auto

text \<open>\<open>raise_if b e\<close> is the statement \<^verbatim>\<open>if b: raise e\<close>.\<close>

definition raise_if :: "bool \<Rightarrow> error \<Rightarrow> unit res" where
  "raise_if b e = (if b then Inl e else Inr ())"

lemma raise_if_eq_Inr [res_simps]: "raise_if b e = Inr u \<longleftrightarrow> \<not> b"
  by (simp add: raise_if_def)

lemma raise_if_False [simp]: "raise_if False e = Inr ()"
  by (simp add: raise_if_def)

lemma raise_if_True [simp]: "raise_if True e = Inl e"
  by (simp add: raise_if_def)

text \<open>A \<^verbatim>\<open>for\<close> loop over a list that threads a state and may raise.\<close>

fun foldE :: "('a \<Rightarrow> 's \<Rightarrow> 's res) \<Rightarrow> 'a list \<Rightarrow> 's \<Rightarrow> 's res" where
  "foldE f [] s = Inr s"
| "foldE f (x # xs) s = bindE (f x s) (foldE f xs)"

lemma foldE_append: "foldE f (xs @ ys) s = bindE (foldE f xs s) (foldE f ys)"
  by (induction xs arbitrary: s) (auto simp: bindE_assoc cong: bindE_cong)

lemma foldE_cong [fundef_cong]:
  "\<lbrakk>xs = ys; s = t; \<And>x u. x \<in> set ys \<Longrightarrow> f x u = g x u\<rbrakk> \<Longrightarrow> foldE f xs s = foldE g ys t"
  by (induction ys arbitrary: xs s t) (auto simp: bindE_def split: sum.splits)

text \<open>A list comprehension whose element expression may raise.\<close>

fun mapE :: "('a \<Rightarrow> 'b res) \<Rightarrow> 'a list \<Rightarrow> 'b list res" where
  "mapE f [] = Inr []"
| "mapE f (x # xs) = bindE (f x) (\<lambda>y. bindE (mapE f xs) (\<lambda>ys. Inr (y # ys)))"

lemma mapE_all_Inr: "(\<And>x. x \<in> set xs \<Longrightarrow> f x = Inr (g x)) \<Longrightarrow> mapE f xs = Inr (map g xs)"
  by (induction xs) auto

lemma mapE_eq_Inr: "mapE f xs = Inr ys \<longleftrightarrow> list_all2 (\<lambda>x y. f x = Inr y) xs ys"
  by (induction xs arbitrary: ys) (auto simp: res_simps list_all2_Cons1)

subsection \<open>Dictionaries\<close>

text \<open>
  A Python dictionary iterates in insertion order: an assignment to a present key keeps
  its place, a new key goes to the end. Association lists under \<open>AList.update\<close> and
  \<open>AList.delete\<close> do exactly that; a dictionary is well formed when its keys are distinct.
\<close>

type_synonym ('k, 'v) dict = "('k \<times> 'v) list"

definition dict_wf :: "('k, 'v) dict \<Rightarrow> bool" where
  "dict_wf d \<longleftrightarrow> distinct (map fst d)"

definition dict_get :: "('k, 'v) dict \<Rightarrow> 'k \<Rightarrow> 'v \<Rightarrow> 'v" where
  "dict_get d k v = (case map_of d k of None \<Rightarrow> v | Some w \<Rightarrow> w)"

text \<open>\<^verbatim>\<open>{k: v for ...}\<close>: a later pair for the same key overwrites the earlier value.\<close>

definition dict_of :: "('k \<times> 'v) list \<Rightarrow> ('k, 'v) dict" where
  "dict_of ps = foldl (\<lambda>d (k, v). AList.update k v d) [] ps"

text \<open>The sum of a measure over the values of a dictionary.\<close>

definition dict_sum :: "('v \<Rightarrow> int) \<Rightarrow> ('k, 'v) dict \<Rightarrow> int" where
  "dict_sum f d = sum_list (map (\<lambda>(k, v). f v) d)"

lemma dict_wf_Nil [simp]: "dict_wf []"
  by (simp add: dict_wf_def)

lemma dict_wf_update [simp]: "dict_wf d \<Longrightarrow> dict_wf (AList.update k v d)"
  by (simp add: dict_wf_def distinct_update)

lemma dict_wf_delete [simp]: "dict_wf d \<Longrightarrow> dict_wf (AList.delete k d)"
  by (simp add: dict_wf_def distinct_delete)

lemma dict_wf_foldl_update:
  "dict_wf d \<Longrightarrow> dict_wf (foldl (\<lambda>d (k, v). AList.update k v d) d ps)"
  by (induction ps arbitrary: d) (auto simp: case_prod_beta)

lemma dict_wf_of [simp]: "dict_wf (dict_of ps)"
  by (simp add: dict_of_def dict_wf_foldl_update)

lemma map_of_foldl_update:
  "map_of (foldl (\<lambda>d (k, v). AList.update k v d) d ps) = map_of d ++ map_of (rev ps)"
  by (induction ps arbitrary: d)
     (auto simp: case_prod_beta update_conv' map_add_def split: option.splits)

lemma map_of_dict_of: "map_of (dict_of ps) = map_of (rev ps)"
  by (simp add: dict_of_def map_of_foldl_update)

lemma dict_get_update: "dict_get (AList.update k v d) k' w = (if k = k' then v else dict_get d k' w)"
  by (simp add: dict_get_def update_conv')

lemma dict_sum_Nil [simp]: "dict_sum f [] = 0"
  by (simp add: dict_sum_def)

lemma dict_sum_Cons [simp]: "dict_sum f ((k, v) # d) = f v + dict_sum f d"
  by (simp add: dict_sum_def)

lemma dict_sum_update:
  "dict_sum f (AList.update k v d) =
     dict_sum f d - (case map_of d k of None \<Rightarrow> 0 | Some w \<Rightarrow> f w) + f v"
  by (induction d) (auto split: option.splits)

lemma set_update_subset: "set (AList.update k v d) \<subseteq> insert (k, v) (set d)"
  by (induction d) auto

lemma AList_delete_notin: "map_of d k = None \<Longrightarrow> AList.delete k d = d"
  by (simp add: delete_id map_of_eq_None_iff)

lemma dict_sum_delete:
  "dict_wf d \<Longrightarrow>
     dict_sum f (AList.delete k d) = dict_sum f d - (case map_of d k of None \<Rightarrow> 0 | Some w \<Rightarrow> f w)"
proof (induction d)
  case (Cons p d)
  obtain a b where p: "p = (a, b)" by (cases p)
  from Cons.prems have wf: "dict_wf d" and na: "map_of d a = None"
    by (auto simp: dict_wf_def p map_of_eq_None_iff)
  show ?case
  proof (cases "a = k")
    case True
    with na show ?thesis by (auto simp: p AList_delete_notin)
  next
    case False
    with Cons.IH [OF wf] show ?thesis by (simp add: p)
  qed
qed simp

lemma dict_sum_nonneg: "(\<And>k v. map_of d k = Some v \<Longrightarrow> 0 \<le> f v) \<Longrightarrow> dict_wf d \<Longrightarrow> 0 \<le> dict_sum f d"
proof (induction d)
  case (Cons p d)
  obtain a b where p: "p = (a, b)" by (cases p)
  from Cons.prems(2) have wf: "dict_wf d" and na: "map_of d a = None"
    by (auto simp: dict_wf_def p map_of_eq_None_iff)
  have "0 \<le> dict_sum f d"
  proof (rule Cons.IH [OF _ wf])
    fix k v assume kv: "map_of d k = Some v"
    with na have "k \<noteq> a" by auto
    with kv show "0 \<le> f v" using Cons.prems(1) [of k v] by (simp add: p)
  qed
  moreover have "0 \<le> f b" using Cons.prems(1) [of a b] by (simp add: p)
  ultimately show ?case by (simp add: p)
qed simp

subsection \<open>Pro-rata splits by floor division\<close>

text \<open>
  Every payout of the ledger is of the form \<^verbatim>\<open>pool * w // wsum\<close>. Floors of parts never
  add up to more than the whole, so a split never pays more than its pool.
\<close>

lemma sum_div_le_div_sum: "(W::int) > 0 \<Longrightarrow> (\<Sum>x\<leftarrow>xs. f x div W) \<le> (\<Sum>x\<leftarrow>xs. f x) div W"
proof (induction xs)
  case (Cons x xs)
  then have "f x div W + (\<Sum>x\<leftarrow>xs. f x div W) \<le> f x div W + (\<Sum>x\<leftarrow>xs. f x) div W"
    by simp
  also have "\<dots> \<le> (f x + (\<Sum>x\<leftarrow>xs. f x)) div W"
    using Cons.prems
    by (simp add: div_add1_eq [of "f x"] pos_imp_zdiv_nonneg_iff add_nonneg_nonneg)
  finally show ?case by simp
qed simp

lemma pro_rata_le:
  assumes "(\<Sum>x\<leftarrow>xs. w x) = (W::int)" and "W > 0"
  shows "(\<Sum>x\<leftarrow>xs. p * w x div W) \<le> p"
proof -
  have "(\<Sum>x\<leftarrow>xs. p * w x div W) \<le> (\<Sum>x\<leftarrow>xs. p * w x) div W"
    using assms(2) by (rule sum_div_le_div_sum)
  also have "(\<Sum>x\<leftarrow>xs. p * w x) = p * W"
    using assms(1) by (simp add: sum_list_const_mult)
  finally show ?thesis using assms(2) by simp
qed

lemma equal_split_le: "n > 0 \<Longrightarrow> 0 \<le> p \<Longrightarrow> int n * (p div int n) \<le> p"
  by (metis minus_mod_eq_mult_div le_add_same_cancel1 diff_add_cancel of_nat_0_less_iff pos_mod_sign)

lemma sum_list_sort_key: "(\<Sum>x\<leftarrow>sort_key k xs. (f x::int)) = (\<Sum>x\<leftarrow>xs. f x)"
proof -
  have "sum_mset (image_mset f (mset (sort_key k xs))) = sum_mset (image_mset f (mset xs))"
    by simp
  then show ?thesis by (simp only: sum_mset_sum_list mset_map [symmetric])
qed

lemma sum_list_distinct_eq:
  "distinct xs \<Longrightarrow> distinct ys \<Longrightarrow> set xs = set ys \<Longrightarrow> (\<Sum>x\<leftarrow>xs. (f x::int)) = (\<Sum>x\<leftarrow>ys. f x)"
  by (simp add: sum_list_distinct_conv_sum_set)

subsection \<open>Interfaces of loops\<close>

text \<open>
  Consensus code is a sequence of loops over a block's contents, each iteration a
  partial state transition. The three contracts below are what the callers rely on:
  an iteration keeps the invariant; it raises a measured quantity by at most a stated
  gain; it leaves the quantity unchanged.
\<close>

locale inv_step =
  fixes step :: "'a \<Rightarrow> 's \<Rightarrow> 's res" and ok :: "'a \<Rightarrow> bool" and inv :: "'s \<Rightarrow> bool"
  assumes step_inv: "ok a \<Longrightarrow> inv s \<Longrightarrow> step a s = Inr t \<Longrightarrow> inv t"
begin

lemma foldE_inv:
  "(\<forall>a\<in>set as. ok a) \<Longrightarrow> inv s \<Longrightarrow> foldE step as s = Inr t \<Longrightarrow> inv t"
proof (induction as arbitrary: s)
  case (Cons a as)
  then obtain u where "step a s = Inr u" and u: "foldE step as u = Inr t"
    by (auto simp: res_simps)
  with Cons.prems have "inv u" using step_inv by auto
  with Cons.IH Cons.prems(1) u show ?case by simp
qed simp

end

locale valued_step = inv_step step ok inv
  for step :: "'a \<Rightarrow> 's \<Rightarrow> 's res" and ok :: "'a \<Rightarrow> bool" and inv :: "'s \<Rightarrow> bool" +
  fixes val :: "'s \<Rightarrow> int" and gain :: "'a \<Rightarrow> int"
  assumes step_val: "ok a \<Longrightarrow> inv s \<Longrightarrow> step a s = Inr t \<Longrightarrow> val t \<le> val s + gain a"
begin

lemma foldE_val:
  "(\<forall>a\<in>set as. ok a) \<Longrightarrow> inv s \<Longrightarrow> foldE step as s = Inr t \<Longrightarrow>
     val t \<le> val s + (\<Sum>a\<leftarrow>as. gain a)"
proof (induction as arbitrary: s)
  case (Cons a as)
  then obtain u where su: "step a s = Inr u" and u: "foldE step as u = Inr t"
    by (auto simp: res_simps)
  with Cons.prems have "inv u" using step_inv by auto
  with Cons.IH Cons.prems(1) u have "val t \<le> val u + (\<Sum>a\<leftarrow>as. gain a)" by simp
  moreover have "val u \<le> val s + gain a" using step_val Cons.prems su by auto
  ultimately show ?case by simp
qed simp

end

locale conserving_step = inv_step step ok inv
  for step :: "'a \<Rightarrow> 's \<Rightarrow> 's res" and ok :: "'a \<Rightarrow> bool" and inv :: "'s \<Rightarrow> bool" +
  fixes val :: "'s \<Rightarrow> int"
  assumes step_eq: "ok a \<Longrightarrow> inv s \<Longrightarrow> step a s = Inr t \<Longrightarrow> val t = val s"

sublocale conserving_step \<subseteq> valued_step step ok inv val "\<lambda>_. 0"
  by unfold_locales (simp add: step_eq)

context conserving_step begin

lemma foldE_eq:
  "(\<forall>a\<in>set as. ok a) \<Longrightarrow> inv s \<Longrightarrow> foldE step as s = Inr t \<Longrightarrow> val t = val s"
proof (induction as arbitrary: s)
  case (Cons a as)
  then obtain u where su: "step a s = Inr u" and u: "foldE step as u = Inr t"
    by (auto simp: res_simps)
  with Cons.prems have "inv u" using step_inv by auto
  with Cons.IH Cons.prems(1) u have "val t = val u" by simp
  with step_eq Cons.prems su show ?case by auto
qed simp

end

end
