(* ===== verification/Encoding.thy ===== *)
theory Encoding
  imports Prelude "HOL-Library.Word"
begin

section \<open>Bytes, text and the signing preimage\<close>

text \<open>
  Python's \<^verbatim>\<open>bytes\<close> are lists of 8-bit words. Python's \<^verbatim>\<open>str\<close> is a list of code
  points; the model covers the code points below 256 (\<^typ>\<open>char\<close>), ordered as Python
  orders them, and \<^verbatim>\<open>str.encode()\<close> is their UTF-8 encoding. The theory models the
  conversions of the standard library the sources call (\<^verbatim>\<open>str(int)\<close>, \<^verbatim>\<open>hex\<close>,
  \<^verbatim>\<open>bytes.fromhex\<close>, \<^verbatim>\<open>int.from_bytes\<close>, \<^verbatim>\<open>ndarray.tobytes\<close>) and
  \<^verbatim>\<open>frame\<close> of \<^verbatim>\<open>rig/crypto.py\<close>, the length-prefixed preimage of every signature.
\<close>

type_synonym byte = "8 word"
type_synonym bytes = "byte list"

subsection \<open>Integers as bytes\<close>

primrec le_bytes :: "nat \<Rightarrow> nat \<Rightarrow> bytes" where
  "le_bytes 0 n = []"
| "le_bytes (Suc k) n = of_nat n # le_bytes k (n div 256)"

primrec le_val :: "bytes \<Rightarrow> nat" where
  "le_val [] = 0"
| "le_val (b # bs) = unat b + 256 * le_val bs"

definition be_bytes :: "nat \<Rightarrow> nat \<Rightarrow> bytes" where
  "be_bytes k n = rev (le_bytes k n)"

definition be_val :: "bytes \<Rightarrow> nat" where
  "be_val bs = le_val (rev bs)"

text \<open>One coordinate of a numpy int64 array, and \<^verbatim>\<open>ndarray.tobytes()\<close> (little endian).\<close>

definition int64_bytes :: "int \<Rightarrow> bytes" where
  "int64_bytes x = le_bytes 8 (nat (x mod 2 ^ 64))"

definition tobytes :: "int list \<Rightarrow> bytes" where
  "tobytes w = concat (map int64_bytes w)"

subsection \<open>Text\<close>

definition utf8_char :: "char \<Rightarrow> bytes" where
  "utf8_char c = (let n = of_char c :: nat in
     if n < 128 then [of_nat n] else [of_nat (192 + n div 64), of_nat (128 + n mod 64)])"

definition encode :: "string \<Rightarrow> bytes" where
  "encode s = concat (map utf8_char s)"

definition digit_char :: "nat \<Rightarrow> char" where
  "digit_char d = char_of (48 + d)"

fun nat_str :: "nat \<Rightarrow> string" where
  "nat_str n = (if n < 10 then [digit_char n] else nat_str (n div 10) @ [digit_char (n mod 10)])"

declare nat_str.simps [simp del]

definition int_str :: "int \<Rightarrow> string" where
  "int_str i = (if i < 0 then CHR ''-'' # nat_str (nat (- i)) else nat_str (nat i))"

subsection \<open>Hexadecimal\<close>

definition hex_digits :: string where
  "hex_digits = ''0123456789abcdef''"

definition hex_byte :: "byte \<Rightarrow> string" where
  "hex_byte b = [hex_digits ! (unat b div 16), hex_digits ! (unat b mod 16)]"

definition hex :: "bytes \<Rightarrow> string" where
  "hex bs = concat (map hex_byte bs)"

definition hex_val :: "char \<Rightarrow> nat option" where
  "hex_val c = (let n = of_char c :: nat in
     if 48 \<le> n \<and> n \<le> 57 then Some (n - 48)
     else if 97 \<le> n \<and> n \<le> 102 then Some (n - 87)
     else if 65 \<le> n \<and> n \<le> 70 then Some (n - 55)
     else None)"

definition is_space :: "char \<Rightarrow> bool" where
  "is_space c = (let n = of_char c :: nat in n = 32 \<or> (9 \<le> n \<and> n \<le> 13))"

text \<open>
  \<^verbatim>\<open>bytes.fromhex\<close>: both cases of the digits are accepted and ASCII white space between
  bytes is skipped; anything else raises (\<open>None\<close>).
\<close>

fun fromhex :: "string \<Rightarrow> bytes option" where
  "fromhex [] = Some []"
| "fromhex [c] = (if is_space c then Some [] else None)"
| "fromhex (c # d # cs) =
     (if is_space c then fromhex (d # cs)
      else case (hex_val c, hex_val d) of
        (Some a, Some b) \<Rightarrow> map_option (Cons (of_nat (16 * a + b))) (fromhex cs)
      | _ \<Rightarrow> None)"

text \<open>\<^verbatim>\<open>bytes.fromhex(s)\<close>\<close>

definition unhex :: "string \<Rightarrow> bytes res" where
  "unhex s = (case fromhex s of None \<Rightarrow> Inl ValueError | Some b \<Rightarrow> Inr b)"

subsection \<open>The signing preimage\<close>

text \<open>
  \<^verbatim>\<open>frame(*parts)\<close>: each part is preceded by its length as a 4-byte big-endian number.
  \<^verbatim>\<open>struct.pack\<close> raises for a part of \<open>2^32\<close> bytes or more; the lemmas on
  \<open>frame\<close> ask for shorter parts.
\<close>

definition frame :: "bytes list \<Rightarrow> bytes" where
  "frame parts = concat (map (\<lambda>p. be_bytes 4 (length p) @ p) parts)"

subsection \<open>Round trips\<close>

lemma length_le_bytes [simp]: "length (le_bytes k n) = k"
  by (induction k arbitrary: n) auto

lemma length_be_bytes [simp]: "length (be_bytes k n) = k"
  by (simp add: be_bytes_def)

lemma le_val_le_bytes: "le_val (le_bytes k n) = n mod 256 ^ k"
proof (induction k arbitrary: n)
  case (Suc k)
  have "n mod 256 + 256 * (n div 256 mod 256 ^ k) = n mod (256 * 256 ^ k)"
    by (simp add: mod_mult2_eq)
  with Suc show ?case by (simp add: unat_of_nat take_bit_eq_mod)
qed simp

lemma byte_lt: "unat (b::byte) < 256"
  using unsigned_less [where ?'a = nat, of b] by simp

lemma le_bytes_le_val: "le_bytes (length bs) (le_val bs) = bs"
proof (induction bs)
  case (Cons b bs)
  note b = byte_lt [of b]
  have "unat (of_nat (unat b + 256 * le_val bs) :: byte) = unat b"
    using b by (simp only: unat_of_nat) simp
  then have "(of_nat (unat b + 256 * le_val bs) :: byte) = b"
    by (simp only: word_unat_eq_iff)
  moreover have "(unat b + 256 * le_val bs) div 256 = le_val bs"
    using b by simp
  ultimately show ?case using Cons by simp
qed simp

lemma be_val_be_bytes: "be_val (be_bytes k n) = n mod 256 ^ k"
  by (simp add: be_val_def be_bytes_def le_val_le_bytes)

lemma le_val_bound: "le_val bs < 256 ^ length bs"
proof (induction bs)
  case (Cons b bs)
  from byte_lt [of b] Cons show ?case by simp
qed simp

lemma be_bytes_inject:
  assumes "m < 256 ^ k" "n < 256 ^ k" "be_bytes k m = be_bytes k n"
  shows "m = n"
proof -
  have "be_val (be_bytes k m) = be_val (be_bytes k n)" using assms(3) by simp
  with assms(1,2) show ?thesis by (simp add: be_val_be_bytes)
qed

lemma int64_bytes_inject:
  assumes "- (2 ^ 63) \<le> x" "x < 2 ^ 63" "- (2 ^ 63) \<le> y" "y < 2 ^ 63"
    and "int64_bytes x = int64_bytes y"
  shows "x = y"
proof -
  have "le_val (int64_bytes x) = le_val (int64_bytes y)" using assms(5) by simp
  then have "nat (x mod 2 ^ 64) mod 2 ^ 64 = nat (y mod 2 ^ 64) mod 2 ^ 64"
    by (simp add: int64_bytes_def le_val_le_bytes)
  then have "x mod 2 ^ 64 = y mod 2 ^ 64"
    by (simp add: nat_mod_distrib [symmetric] eq_nat_nat_iff)
  then have "(x + 2 ^ 63) mod 2 ^ 64 = (y + 2 ^ 63) mod 2 ^ 64"
    by (rule mod_add_cong) simp
  moreover have "(x + 2 ^ 63) mod 2 ^ 64 = x + 2 ^ 63" "(y + 2 ^ 63) mod 2 ^ 64 = y + 2 ^ 63"
    using assms(1-4) by (simp_all add: mod_pos_pos_trivial)
  ultimately show ?thesis by simp
qed

lemma length_int64_bytes [simp]: "length (int64_bytes x) = 8"
  by (simp add: int64_bytes_def)

lemma tobytes_Nil [simp]: "tobytes [] = []"
  and tobytes_Cons [simp]: "tobytes (x # xs) = int64_bytes x @ tobytes xs"
  by (simp_all add: tobytes_def)

lemma length_tobytes [simp]: "length (tobytes w) = 8 * length w"
  by (induction w) auto

lemma char_nat_lt: "(of_char c :: nat) < 256"
  using of_char_mod_256 [where ?'a = nat, of c] by (metis mod_less_divisor zero_less_numeral)

lemma byte_of_nat_inject: "m < 256 \<Longrightarrow> n < 256 \<Longrightarrow> (of_nat m :: byte) = of_nat n \<longleftrightarrow> m = n"
  by (simp add: word_unat_eq_iff unat_of_nat)

lemma utf8_char_prefix_free:
  assumes "utf8_char c @ r = utf8_char d @ s"
  shows "c = d \<and> r = s"
proof -
  let ?m = "of_char c :: nat" and ?n = "of_char d :: nat"
  note lt = char_nat_lt [of c] char_nat_lt [of d]
  have split64: "k = 64 * (k div 64) + k mod 64" for k :: nat by simp
  from assms lt have "?m = ?n \<and> r = s"
    using split64 [of ?m] split64 [of ?n]
    by (cases "?m < 128"; cases "?n < 128")
       (simp_all add: utf8_char_def Let_def byte_of_nat_inject del: of_nat_add)
  then show ?thesis by simp
qed

lemma encode_inject: "encode s = encode t \<longleftrightarrow> s = t"
proof
  assume "encode s = encode t"
  then show "s = t"
  proof (induction s arbitrary: t)
    case Nil
    then show ?case by (cases t) (auto simp: encode_def utf8_char_def Let_def split: if_splits)
  next
    case (Cons c s)
    then obtain d u where t: "t = d # u"
      by (cases t) (auto simp: encode_def utf8_char_def Let_def split: if_splits)
    with Cons.prems have "utf8_char c @ encode s = utf8_char d @ encode u"
      by (simp add: encode_def)
    from utf8_char_prefix_free [OF this] Cons.IH show ?case by (simp add: t)
  qed
qed simp

lemma of_char_digit: "d < 10 \<Longrightarrow> (of_char (digit_char d) :: nat) = 48 + d"
  by (simp add: digit_char_def)

text \<open>The reader of decimal digits that inverts \<open>nat_str\<close>.\<close>

definition dec_val :: "string \<Rightarrow> nat" where
  "dec_val s = foldl (\<lambda>a c. 10 * a + (of_char c - 48)) 0 s"

lemma dec_val_nat_str: "dec_val (nat_str n) = n"
proof (induction n rule: nat_str.induct)
  case (1 n)
  show ?case
  proof (cases "n < 10")
    case True
    then show ?thesis by (simp add: nat_str.simps [of n] dec_val_def of_char_digit)
  next
    case False
    with 1 have "dec_val (nat_str (n div 10)) = n div 10" by simp
    with False show ?thesis by (simp add: nat_str.simps [of n] dec_val_def of_char_digit)
  qed
qed

lemma nat_str_digits: "c \<in> set (nat_str n) \<Longrightarrow> 48 \<le> (of_char c :: nat) \<and> (of_char c :: nat) \<le> 57"
proof (induction n rule: nat_str.induct)
  case (1 n)
  then show ?case
    by (cases "n < 10") (auto simp: nat_str.simps [of n] of_char_digit)
qed

lemma nat_str_neq_Nil [simp]: "nat_str n \<noteq> []"
  by (simp add: nat_str.simps [of n])

lemma nat_str_inject [simp]: "nat_str m = nat_str n \<longleftrightarrow> m = n"
  by (metis dec_val_nat_str)

lemma nat_str_neq_minus: "nat_str n \<noteq> CHR ''-'' # s"
proof
  assume "nat_str n = CHR ''-'' # s"
  then have "CHR ''-'' \<in> set (nat_str n)" by simp
  from nat_str_digits [OF this] show False by simp
qed

lemma int_str_inject [simp]: "int_str i = int_str j \<longleftrightarrow> i = j"
proof -
  note ne = nat_str_neq_minus nat_str_neq_minus [symmetric]
  show ?thesis by (auto simp: int_str_def ne)
qed

lemma hex_byte_fromhex: "fromhex (hex_byte b @ cs) = map_option (Cons b) (fromhex cs)"
proof -
  have split: "m < 16 \<Longrightarrow> m \<in> {0,1,2,3,4,5,6,7,8,9,10,11,12,13,14,15}" for m :: nat
    unfolding insert_iff empty_iff by arith
  have digit: "hex_val (hex_digits ! m) = Some m \<and> \<not> is_space (hex_digits ! m)" if "m < 16" for m
    using split [OF that] by (auto simp: hex_digits_def hex_val_def is_space_def)
  have "unat b div 16 < 16" "unat b mod 16 < 16" using byte_lt [of b] by auto
  moreover have "(of_nat (16 * (unat b div 16) + unat b mod 16) :: byte) = b"
    by (simp add: word_unat_eq_iff unat_of_nat)
  ultimately show ?thesis
    using digit [of "unat b div 16"] digit [of "unat b mod 16"]
    by (simp add: hex_byte_def del: of_nat_add of_nat_mult)
qed

lemma fromhex_hex: "fromhex (hex bs) = Some bs"
  by (induction bs) (auto simp: hex_def hex_byte_fromhex)

lemma hex_inject [simp]: "hex a = hex b \<longleftrightarrow> a = b"
  by (metis fromhex_hex option.inject)

lemma frame_Nil [simp]: "frame [] = []"
  and frame_Cons [simp]: "frame (p # ps) = be_bytes 4 (length p) @ p @ frame ps"
  by (simp_all add: frame_def)

lemma be_bytes_4_neq_Nil [simp]: "be_bytes 4 n \<noteq> []"
  using length_be_bytes [of 4 n] by fastforce

lemma frame_inject:
  assumes "\<forall>p\<in>set ps. length p < 2 ^ 32" and "\<forall>q\<in>set qs. length q < 2 ^ 32"
    and "frame ps = frame qs"
  shows "ps = qs"
  using assms
proof (induction ps arbitrary: qs)
  case Nil
  then show ?case by (cases qs) auto
next
  case (Cons p ps)
  then obtain q qs' where qs: "qs = q # qs'" by (cases qs) auto
  from Cons.prems(3) have len: "be_bytes 4 (length p) = be_bytes 4 (length q)"
    and rest: "p @ frame ps = q @ frame qs'"
    by (auto simp: qs append_eq_append_conv)
  have "length p = length q"
    by (rule be_bytes_inject [OF _ _ len]) (use Cons.prems(1,2) qs in auto)
  with rest have "p = q" "frame ps = frame qs'" by (auto simp: append_eq_append_conv)
  with Cons.IH [of qs'] Cons.prems(1,2) show ?case by (simp add: qs)
qed

end
