(* ===== verification/Json.thy ===== *)
theory Json
  imports Encoding
begin

section \<open>Canonical JSON\<close>

text \<open>
  Ledger roots, model roots, score roots and block hashes are SHA-256 digests of
  \<^verbatim>\<open>json.dumps(..., sort_keys=True)\<close>. The theory models that printer for the values the
  sources print (integers, strings, lists, dictionaries with string keys), with the two
  separators as arguments, and shows that it loses nothing: two values with the same text
  are equal up to the order of their keys.
\<close>

datatype json =
    JInt int
  | JStr string
  | JList "json list"
  | JObj "(string \<times> json) list"

text \<open>\<^verbatim>\<open>sep.join(xs)\<close>\<close>

fun join :: "string \<Rightarrow> string list \<Rightarrow> string" where
  "join sep [] = []"
| "join sep [x] = x"
| "join sep (x # y # zs) = x @ sep @ join sep (y # zs)"

text \<open>The string escapes of \<^verbatim>\<open>json.dumps\<close> with its default \<^verbatim>\<open>ensure_ascii=True\<close>.\<close>

definition esc :: "char \<Rightarrow> string" where
  "esc c = (let n = of_char c :: nat in
     if c = CHR 0x22 then [CHR 0x5C, CHR 0x22]
     else if c = CHR 0x5C then [CHR 0x5C, CHR 0x5C]
     else if n = 10 then [CHR 0x5C, CHR ''n'']
     else if n = 13 then [CHR 0x5C, CHR ''r'']
     else if n = 9 then [CHR 0x5C, CHR ''t'']
     else if n = 8 then [CHR 0x5C, CHR ''b'']
     else if n = 12 then [CHR 0x5C, CHR ''f'']
     else if n < 32 \<or> 126 < n then [CHR 0x5C, CHR ''u'', CHR ''0'', CHR ''0''] @ hex_byte (of_nat n)
     else [c])"

definition json_string :: "string \<Rightarrow> string" where
  "json_string s = CHR 0x22 # concat (map esc s) @ [CHR 0x22]"

text \<open>Printing with the keys in the order given; \<open>canon\<close> is what \<^verbatim>\<open>sort_keys\<close> does.\<close>

fun print_json :: "string \<Rightarrow> string \<Rightarrow> json \<Rightarrow> string" where
  "print_json isep ksep (JInt i) = int_str i"
| "print_json isep ksep (JStr s) = json_string s"
| "print_json isep ksep (JList xs) = ''['' @ join isep (map (print_json isep ksep) xs) @ '']''"
| "print_json isep ksep (JObj kvs) =
     ''{'' @ join isep (map (\<lambda>(k, v). json_string k @ ksep @ print_json isep ksep v) kvs) @ ''}''"

fun canon :: "json \<Rightarrow> json" where
  "canon (JInt i) = JInt i"
| "canon (JStr s) = JStr s"
| "canon (JList xs) = JList (map canon xs)"
| "canon (JObj kvs) = JObj (sort_key fst (map (\<lambda>(k, v). (k, canon v)) kvs))"

text \<open>
  \<^verbatim>\<open>dumps_compact\<close> uses \<^verbatim>\<open>separators=(",", ":")\<close>, \<^verbatim>\<open>dumps_default\<close> the defaults
  \<^verbatim>\<open>(", ", ": ")\<close>.
\<close>

definition dumps_compact :: "json \<Rightarrow> string" where
  "dumps_compact v = print_json '','' '':'' (canon v)"

definition dumps_default :: "json \<Rightarrow> string" where
  "dumps_default v = print_json '', '' '': '' (canon v)"

subsection \<open>Strings are self-delimiting\<close>

lemma hex_byte_inject: "hex_byte a = hex_byte b \<longleftrightarrow> a = b"
  using hex_byte_fromhex [of a "[]"] hex_byte_fromhex [of b "[]"]
  by (metis append_Nil2 fromhex.simps(1) list.inject option.inject option.simps(9))

lemma length_hex_byte [simp]: "length (hex_byte b) = 2"
  by (simp add: hex_byte_def)

lemma length_hex: "length (hex b) = 2 * length b"
  by (induction b) (simp_all add: hex_def)

lemma esc_prefix_free:
  assumes "esc c @ r = esc d @ s"
  shows "c = d \<and> r = s"
proof -
  have bytes: "hex_byte (of_nat (of_char c)) @ r = hex_byte (of_nat (of_char d)) @ s \<Longrightarrow> c = d \<and> r = s"
    using char_nat_lt [of c] char_nat_lt [of d]
    by (auto simp: append_eq_append_conv hex_byte_inject byte_of_nat_inject)
  show ?thesis
    using assms bytes of_char_eq_iff [where ?'a = nat, of c d]
    by (auto simp: esc_def Let_def split: if_splits)
qed

lemma esc_no_quote: "esc c @ r \<noteq> CHR 0x22 # s"
  by (auto simp: esc_def Let_def)

lemma json_string_prefix_free:
  assumes "json_string a @ r = json_string b @ s"
  shows "a = b \<and> r = s"
proof -
  have "concat (map esc a) @ CHR 0x22 # r = concat (map esc b) @ CHR 0x22 # s"
    using assms by (simp add: json_string_def)
  then show ?thesis
  proof (induction a arbitrary: b)
    case Nil
    then show ?case by (cases b) (auto simp: esc_no_quote [symmetric])
  next
    case (Cons c a)
    then obtain d b' where b: "b = d # b'"
      by (cases b) (auto simp: esc_no_quote)
    with Cons.prems have "esc c @ concat (map esc a) @ CHR 0x22 # r = esc d @ concat (map esc b') @ CHR 0x22 # s"
      by simp
    from esc_prefix_free [OF this] Cons.IH [of b'] show ?case by (simp add: b)
  qed
qed

subsection \<open>Numbers end where the digits end\<close>

definition is_digit :: "char \<Rightarrow> bool" where
  "is_digit c \<longleftrightarrow> 48 \<le> (of_char c :: nat) \<and> (of_char c :: nat) \<le> 57"

definition stops :: "string \<Rightarrow> bool" where
  "stops r \<longleftrightarrow> (case r of [] \<Rightarrow> True | c # _ \<Rightarrow> \<not> is_digit c)"

lemma stops_Cons [simp]: "stops (c # r) \<longleftrightarrow> \<not> is_digit c"
  and stops_Nil [simp]: "stops []"
  by (simp_all add: stops_def)

lemma takeWhile_nat_str: "stops r \<Longrightarrow> takeWhile is_digit (nat_str n @ r) = nat_str n"
  using nat_str_digits [of _ n] by (cases r) (auto simp: takeWhile_append is_digit_def)

lemma nat_str_prefix_free:
  assumes "nat_str m @ r = nat_str n @ s" "stops r" "stops s"
  shows "m = n \<and> r = s"
proof -
  have "nat_str m = nat_str n"
    using takeWhile_nat_str [OF assms(2), of m] takeWhile_nat_str [OF assms(3), of n] assms(1) by simp
  with assms(1) show ?thesis by simp
qed

lemma nat_str_Cons_digit: "\<exists>c cs. nat_str n = c # cs \<and> is_digit c"
proof -
  obtain c cs where "nat_str n = c # cs" using nat_str_neq_Nil by (cases "nat_str n") auto
  with nat_str_digits [of c n] show ?thesis by (simp add: is_digit_def)
qed

lemma minus_not_digit [simp]: "\<not> is_digit CHR ''-''"
  by (simp add: is_digit_def)

lemma int_str_prefix_free:
  assumes "int_str i @ r = int_str j @ s" "stops r" "stops s"
  shows "i = j \<and> r = s"
proof -
  have no_minus: "nat_str n @ t \<noteq> CHR ''-'' # u" for n t u
    using nat_str_Cons_digit [of n] by auto
  show ?thesis
  proof (cases "i < 0"; cases "j < 0")
    assume "i < 0" "j < 0"
    with assms show ?thesis
      using nat_str_prefix_free [of "nat (- i)" r "nat (- j)" s] by (auto simp: int_str_def)
  next
    assume "\<not> i < 0" "\<not> j < 0"
    with assms show ?thesis
      using nat_str_prefix_free [of "nat i" r "nat j" s] by (auto simp: int_str_def)
  next
    assume "i < 0" "\<not> j < 0"
    with assms(1) no_minus [of "nat j" s, symmetric] show ?thesis by (simp add: int_str_def)
  next
    assume "\<not> i < 0" "j < 0"
    with assms(1) no_minus [of "nat i" r] show ?thesis by (simp add: int_str_def)
  qed
qed

subsection \<open>Separated sequences\<close>

lemma join_Cons: "join sep (x # xs) = x @ concat (map ((@) sep) xs)"
  by (induction xs arbitrary: x) auto

lemma join_inject:
  assumes sep: "sep = CHR '','' # sep'" and cl: "\<not> is_digit cl" "cl \<noteq> CHR '',''"
    and P: "\<And>x y r s. x \<in> set xs \<Longrightarrow> P x @ r = P y @ s \<Longrightarrow> stops r \<Longrightarrow> stops s \<Longrightarrow> x = y \<and> r = s"
    and ne: "\<And>x r s. P x @ r \<noteq> cl # s"
    and eq: "join sep (map P xs) @ cl # r = join sep (map P ys) @ cl # s"
  shows "xs = ys \<and> r = s"
proof -
  let ?tail = "\<lambda>xs r. concat (map ((@) sep) (map P xs)) @ cl # r"
  have st: "stops (?tail zs t)" for zs t
    using cl by (cases zs) (auto simp: sep is_digit_def)
  have tails: "set zs \<subseteq> set xs \<Longrightarrow> ?tail zs r = ?tail ws s \<Longrightarrow> zs = ws \<and> r = s" for zs ws
  proof (induction zs arbitrary: ws)
    case Nil
    with cl show ?case by (cases ws) (auto simp: sep)
  next
    case (Cons z zs)
    then obtain w ws' where ws: "ws = w # ws'" using cl by (cases ws) (auto simp: sep)
    with Cons.prems(2) have "P z @ ?tail zs r = P w @ ?tail ws' s" by simp
    from P [OF _ this st st] Cons.prems(1) have "z = w" "?tail zs r = ?tail ws' s" by auto
    with Cons.IH [of ws'] Cons.prems(1) show ?case by (simp add: ws)
  qed
  show ?thesis
  proof (cases xs)
    case Nil
    with eq ne show ?thesis by (cases ys) (auto simp: join_Cons dest!: sym [of "_ # _"])
  next
    case (Cons x xs')
    with eq ne obtain y ys' where ys: "ys = y # ys'" by (cases ys) (auto simp: join_Cons)
    from eq have "P x @ ?tail xs' r = P y @ ?tail ys' s" by (simp add: Cons ys join_Cons)
    from P [OF _ this st st] have "x = y" "?tail xs' r = ?tail ys' s" by (auto simp: Cons)
    with tails [of xs' ys'] show ?thesis by (auto simp: Cons ys)
  qed
qed

subsection \<open>The printer is injective\<close>

text \<open>The first character tells the four kinds of values apart.\<close>

lemma print_json_heads:
  "int_str i @ r \<noteq> CHR 0x22 # s" "int_str i @ r \<noteq> CHR ''['' # s" "int_str i @ r \<noteq> CHR ''{'' # s"
  "int_str i @ r \<noteq> CHR '']'' # s"
proof -
  obtain c cs where c: "int_str i = c # cs" "is_digit c \<or> c = CHR ''-''"
    using nat_str_Cons_digit [of "nat i"] by (cases "i < 0") (auto simp: int_str_def)
  then show "int_str i @ r \<noteq> CHR 0x22 # s" "int_str i @ r \<noteq> CHR ''['' # s" "int_str i @ r \<noteq> CHR ''{'' # s"
    "int_str i @ r \<noteq> CHR '']'' # s"
    by (auto simp: is_digit_def)
qed

lemma print_json_not_bracket: "print_json isep ksep v @ r \<noteq> CHR '']'' # s"
  by (cases v) (auto simp: json_string_def print_json_heads)

lemma print_json_prefix_free:
  assumes i: "isep = CHR '','' # isep'" and k: "ksep = CHR '':'' # ksep'"
  shows "print_json isep ksep v @ r = print_json isep ksep w @ s \<Longrightarrow> stops r \<Longrightarrow> stops s \<Longrightarrow>
    v = w \<and> r = s"
proof (induction v arbitrary: w r s)
  case (JInt a)
  then show ?case
    by (cases w) (auto simp: json_string_def print_json_heads dest: int_str_prefix_free)
next
  case (JStr a)
  then show ?case
    by (cases w)
       (auto simp: print_json_heads [symmetric] json_string_def
          dest: json_string_prefix_free [unfolded json_string_def, simplified])
next
  case (JList xs)
  then obtain ys where w: "w = JList ys"
    by (cases w) (auto simp: json_string_def print_json_heads [symmetric])
  have eq: "join isep (map (print_json isep ksep) xs) @ CHR '']'' # r =
        join isep (map (print_json isep ksep) ys) @ CHR '']'' # s"
    using JList.prems(1) by (simp add: w)
  have "xs = ys \<and> r = s"
    by (rule join_inject [OF i _ _ JList.IH print_json_not_bracket eq]) (simp_all add: is_digit_def)
  then show ?case by (simp add: w)
next
  case (JObj kvs)
  then obtain kws where w: "w = JObj kws"
    by (cases w) (auto simp: json_string_def print_json_heads [symmetric])
  let ?P = "\<lambda>(a, v). json_string a @ ksep @ print_json isep ksep v"
  have eq: "join isep (map ?P kvs) @ CHR ''}'' # r = join isep (map ?P kws) @ CHR ''}'' # s"
    using JObj.prems(1) by (simp add: w)
  have elem: "x = y \<and> t = u" if "x \<in> set kvs" "?P x @ t = ?P y @ u" "stops t" "stops u" for x y t u
  proof -
    obtain a v b z where xy: "x = (a, v)" "y = (b, z)" by (cases x, cases y)
    with that(2) have "json_string a @ ksep @ print_json isep ksep v @ t =
      json_string b @ ksep @ print_json isep ksep z @ u" by simp
    from json_string_prefix_free [OF this]
    have "a = b" "print_json isep ksep v @ t = print_json isep ksep z @ u" by auto
    moreover have "v \<in> Basic_BNFs.snds x" by (simp add: xy snds.simps)
    ultimately have "v = z \<and> t = u" using JObj.IH that(1,3,4) by blast
    with \<open>a = b\<close> show ?thesis by (simp add: xy)
  qed
  have "kvs = kws \<and> r = s"
    by (rule join_inject [OF i _ _ elem _ eq]) (auto simp: is_digit_def json_string_def)
  then show ?case by (simp add: w)
qed

lemma dumps_compact_inject: "dumps_compact v = dumps_compact w \<longleftrightarrow> canon v = canon w"
  using print_json_prefix_free [of "'',''" "[]" "'':''" "[]" "canon v" "[]" "canon w" "[]"]
  by (auto simp: dumps_compact_def)

lemma dumps_default_inject: "dumps_default v = dumps_default w \<longleftrightarrow> canon v = canon w"
  using print_json_prefix_free [of "'', ''" "'' ''" "'': ''" "'' ''" "canon v" "[]" "canon w" "[]"]
  by (auto simp: dumps_default_def)

end
