(* ===== verification/Crypto.thy ===== *)
theory Crypto
  imports Json
begin

section \<open>Keys, signatures and the signed delta (rig/crypto.py)\<close>

text \<open>
  The primitives the sources import are fields of the record \<open>prims\<close>, an argument of
  every definition that uses one: \<open>sha256\<close> is \<^verbatim>\<open>hashlib.sha256(b).digest()\<close>, and
  \<open>ed_pub\<close>, \<open>ed_sign\<close>, \<open>ed_ok\<close> are Ed25519 key derivation, signing and
  verification (pynacl, or the fallback in \<^verbatim>\<open>rig/ed25519.py\<close>). Nothing is assumed of them
  globally: a lemma that needs a law of signatures or of the digest names it as a hypothesis,
  and statements about commitments exhibit a collision among the inputs they hash instead of
  assuming there is none.
\<close>

record prims =
  sha256 :: "bytes \<Rightarrow> bytes"
  ed_pub :: "bytes \<Rightarrow> bytes"
  ed_sign :: "bytes \<Rightarrow> bytes \<Rightarrow> bytes"
  ed_ok :: "bytes \<Rightarrow> bytes \<Rightarrow> bytes \<Rightarrow> bool"

definition sha_hex :: "prims \<Rightarrow> bytes \<Rightarrow> string" where
  "sha_hex P b = hex (sha256 P b)"

text \<open>
  Two different inputs with one digest, among the named inputs. Every digest of fixed length
  collides somewhere, so a statement about a commitment names the inputs it hashes.
\<close>

definition collides_on :: "prims \<Rightarrow> bytes set \<Rightarrow> bool" where
  "collides_on P S \<longleftrightarrow> (\<exists>a\<in>S. \<exists>b\<in>S. a \<noteq> b \<and> sha256 P a = sha256 P b)"

text \<open>The documented law of Ed25519: a signature made with a key verifies under it.\<close>

definition sig_correct :: "prims \<Rightarrow> bool" where
  "sig_correct P \<longleftrightarrow> (\<forall>s m. ed_ok P (ed_pub P s) m (ed_sign P s m))"

subsection \<open>Keys\<close>

record key =
  key_sk :: bytes
  key_pk :: bytes

definition pub :: "key \<Rightarrow> string" where
  "pub k = hex (key_pk k)"

text \<open>\<^verbatim>\<open>Key.generate\<close>; without a seed the source draws 32 bytes from \<^verbatim>\<open>os.urandom\<close>,
  which the caller of the model supplies.\<close>

definition generate :: "prims \<Rightarrow> bytes \<Rightarrow> key" where
  "generate P seed = (let s = (if length seed \<noteq> 32 then sha256 P seed else seed)
     in \<lparr>key_sk = s, key_pk = ed_pub P s\<rparr>)"

definition sign :: "prims \<Rightarrow> key \<Rightarrow> bytes \<Rightarrow> bytes" where
  "sign P k msg = ed_sign P (key_sk k) msg"

text \<open>\<^verbatim>\<open>verify\<close> catches every exception, the one of \<^verbatim>\<open>bytes.fromhex\<close> included.\<close>

definition verify :: "prims \<Rightarrow> string \<Rightarrow> bytes \<Rightarrow> bytes \<Rightarrow> bool" where
  "verify P pub_hex msg sg =
     (case fromhex pub_hex of None \<Rightarrow> False | Some raw \<Rightarrow> ed_ok P raw msg sg)"

subsection \<open>The signed delta commitment\<close>

record backprop_tx =
  bp_miner :: string
  bp_base_height :: int
  bp_delta_hash :: string
  bp_da_pointer :: string
  bp_bond :: int
  bp_pages :: "int list"
  bp_data_refs :: "string list"
  bp_sig :: bytes

definition canonical_refs :: "backprop_tx \<Rightarrow> string list" where
  "canonical_refs t = sort (remdups (bp_data_refs t))"

definition canonical_pages :: "backprop_tx \<Rightarrow> int list" where
  "canonical_pages t = sort (remdups (bp_pages t))"

definition bp_fields :: "backprop_tx \<Rightarrow> bytes list" where
  "bp_fields t =
     (let refs = canonical_refs t; pages = canonical_pages t in
      [encode ''backprop'', encode (bp_miner t), encode (int_str (bp_base_height t)),
       encode (bp_delta_hash t), encode (bp_da_pointer t), encode (int_str (bp_bond t)),
       encode (nat_str (length pages))] @ map (\<lambda>p. encode (int_str p)) pages @
      [encode (nat_str (length refs))] @ map encode refs)"

definition bp_signing_bytes :: "backprop_tx \<Rightarrow> bytes" where
  "bp_signing_bytes t = frame (bp_fields t)"

definition bp_txid :: "prims \<Rightarrow> backprop_tx \<Rightarrow> string" where
  "bp_txid P t = sha_hex P (bp_signing_bytes t)"

definition bp_signed :: "prims \<Rightarrow> backprop_tx \<Rightarrow> key \<Rightarrow> backprop_tx res" where
  "bp_signed P t k =
     (if pub k \<noteq> bp_miner t then Inl AssertionError
      else Inr (t\<lparr>bp_sig := sign P k (bp_signing_bytes t)\<rparr>))"

definition bp_verify :: "prims \<Rightarrow> backprop_tx \<Rightarrow> bool" where
  "bp_verify P t = verify P (bp_miner t) (bp_signing_bytes t) (bp_sig t)"

definition delta_hash :: "prims \<Rightarrow> bytes \<Rightarrow> string" where
  "delta_hash P body = sha_hex P body"

subsection \<open>Lemmas\<close>

lemma sha_hex_collision: "sha_hex P a = sha_hex P b \<Longrightarrow> a = b \<or> collides_on P {a, b}"
  by (auto simp: sha_hex_def collides_on_def)

lemma pk_generate: "key_pk (generate P seed) = ed_pub P (key_sk (generate P seed))"
  by (simp add: generate_def Let_def)

lemma verify_sign:
  assumes "sig_correct P" and "key_pk k = ed_pub P (key_sk k)"
  shows "verify P (pub k) m (sign P k m)"
  using assms by (simp add: verify_def pub_def fromhex_hex sign_def sig_correct_def)

lemma verify_fromhex: "verify P h m s \<Longrightarrow> \<exists>raw. fromhex h = Some raw"
  by (auto simp: verify_def split: option.splits)

text \<open>The signature is not part of what it signs.\<close>

lemma bp_signing_bytes_sig [simp]: "bp_signing_bytes (t\<lparr>bp_sig := s\<rparr>) = bp_signing_bytes t"
  by (simp add: bp_signing_bytes_def bp_fields_def canonical_refs_def canonical_pages_def)

lemma bp_signed_verify:
  assumes "sig_correct P" and "key_pk k = ed_pub P (key_sk k)" and "bp_signed P t k = Inr u"
  shows "bp_verify P u \<and> bp_txid P u = bp_txid P t"
  using assms verify_sign [OF assms(1,2)]
  by (auto simp: bp_signed_def bp_verify_def bp_txid_def split: if_splits)

text \<open>What a delta transaction says, without its signature and the order of its lists.\<close>

definition bp_content :: "backprop_tx \<Rightarrow> string \<times> int \<times> string \<times> string \<times> int \<times> int list \<times> string list" where
  "bp_content t = (bp_miner t, bp_base_height t, bp_delta_hash t, bp_da_pointer t, bp_bond t,
     canonical_pages t, canonical_refs t)"

lemma counted_lists_inject:
  assumes "nat_str (length ps) = nat_str (length qs)"
    and "map f ps @ z # map g rs = map f qs @ w # map g ss"
    and "inj f" "inj g"
  shows "ps = qs \<and> rs = ss"
proof -
  from assms(1) have "length ps = length qs" by simp
  with assms(2) have "map f ps = map f qs" "map g rs = map g ss"
    by (auto simp: append_eq_append_conv)
  with assms(3,4) show ?thesis by (simp add: inj_map_eq_map)
qed

lemma bp_fields_inject:
  assumes "bp_fields t = bp_fields u"
  shows "bp_content t = bp_content u"
proof -
  have "canonical_pages t = canonical_pages u \<and> canonical_refs t = canonical_refs u"
    by (rule counted_lists_inject [where f = "\<lambda>p. encode (int_str p)" and g = encode])
       (use assms in \<open>auto simp: bp_fields_def Let_def encode_inject inj_def\<close>)
  with assms show ?thesis by (simp add: bp_fields_def Let_def bp_content_def encode_inject)
qed

end
