(* ===== verification/Token.thy ===== *)
theory Token
  imports Crypto
begin

section \<open>The native token: transactions and the ledger (rig/token.py)\<close>

text \<open>
  The token ledger is chain state: balances, nonces, the staked data registry, the open
  challenges, the locked delta bonds and the two fee pools. The theory translates the
  constants, the five signed account transactions, every method of \<^verbatim>\<open>TokenLedger\<close> and
  the canonical orderings and set roots. A method that returns a truth value and mutates
  the ledger returns both; an exception is \<open>Inl\<close>. \<^verbatim>\<open>TokenLedger.copy\<close> has no
  counterpart: values are immutable here, so a caller that works on a copy simply keeps
  the old value. The theorems are in \<^verbatim>\<open>Token_Props\<close>.
\<close>

subsection \<open>Constants\<close>

definition GRAIN :: int where "GRAIN = 10 ^ 9"
definition BASE_REWARD :: int where "BASE_REWARD = 50 * GRAIN"
definition HALVING_BLOCKS :: int where "HALVING_BLOCKS = 1000000"
definition TAIL_EPOCH :: nat where "TAIL_EPOCH = 9"
definition TAIL_REWARD :: int where "TAIL_REWARD = BASE_REWARD div 2 ^ TAIL_EPOCH"
definition SHARE_MINERS :: int where "SHARE_MINERS = 7000"
definition SHARE_PROPOSER :: int where "SHARE_PROPOSER = 1000"
definition SHARE_DATA :: int where "SHARE_DATA = 2000"
definition FEE_SHARE_SERVER :: int where "FEE_SHARE_SERVER = 6000"
definition FEE_SHARE_DATA :: int where "FEE_SHARE_DATA = 2000"
definition FEE_SHARE_TRAIN :: int where "FEE_SHARE_TRAIN = 2000"
definition CHALLENGE_WINDOW :: int where "CHALLENGE_WINDOW = 20"
definition PROPOSER_LOOKBACK :: nat where "PROPOSER_LOOKBACK = 32"
definition GENESIS_DATA_WEIGHT :: int where "GENESIS_DATA_WEIGHT = 1000000"
definition CHALLENGE_QUORUM :: nat where "CHALLENGE_QUORUM = 3"
definition BOND_WINDOW :: int where "BOND_WINDOW = 20"

text \<open>\<^verbatim>\<open>address\<close> raises on a public key that is not hexadecimal.\<close>

definition address :: "prims \<Rightarrow> string \<Rightarrow> string res" where
  "address P pub_hex = (case fromhex pub_hex of None \<Rightarrow> Inl ValueError
     | Some raw \<Rightarrow> Inr (take 40 (sha_hex P raw)))"

definition emission :: "int \<Rightarrow> int" where
  "emission height =
     (if height < 1 then 0
      else max (BASE_REWARD div 2 ^ nat (min ((height - 1) div HALVING_BLOCKS) 62)) TAIL_REWARD)"

subsection \<open>\<^verbatim>\<open>TransferTx\<close>\<close>

text \<open>A signed balance transfer.\<close>

record transfer_tx =
  tr_from_pub :: string
  tr_to_addr :: string
  tr_amount :: int
  tr_nonce :: int
  tr_sig :: bytes

definition tr_fields :: "transfer_tx \<Rightarrow> bytes list" where
  "tr_fields t =
     [encode ''transfer'',
      encode (tr_from_pub t),
      encode (tr_to_addr t),
      encode (int_str (tr_amount t)),
      encode (int_str (tr_nonce t))]"

definition tr_signing_bytes :: "transfer_tx \<Rightarrow> bytes" where
  "tr_signing_bytes t = frame (tr_fields t)"

definition tr_txid :: "prims \<Rightarrow> transfer_tx \<Rightarrow> string" where
  "tr_txid P t = sha_hex P (tr_signing_bytes t)"

definition tr_signed :: "prims \<Rightarrow> transfer_tx \<Rightarrow> key \<Rightarrow> transfer_tx res" where
  "tr_signed P t k =
     (if pub k \<noteq> tr_from_pub t then Inl AssertionError
      else Inr (t\<lparr>tr_sig := sign P k (tr_signing_bytes t)\<rparr>))"

definition tr_verify :: "prims \<Rightarrow> transfer_tx \<Rightarrow> bool" where
  "tr_verify P t = verify P (tr_from_pub t) (tr_signing_bytes t) (tr_sig t)"

subsection \<open>\<^verbatim>\<open>DataSubmitTx\<close>\<close>

text \<open>Staked data registration.\<close>

record data_submit_tx =
  ds_owner_pub :: string
  ds_data_hash :: string
  ds_size_bytes :: int
  ds_media_type :: string
  ds_stake :: int
  ds_nonce :: int
  ds_da_root :: string
  ds_sig :: bytes

definition ds_fields :: "data_submit_tx \<Rightarrow> bytes list" where
  "ds_fields t =
     [encode ''data_submit'',
      encode (ds_owner_pub t),
      encode (ds_data_hash t),
      encode (int_str (ds_size_bytes t)),
      encode (ds_media_type t),
      encode (int_str (ds_stake t)),
      encode (int_str (ds_nonce t)),
      encode (ds_da_root t)]"

definition ds_signing_bytes :: "data_submit_tx \<Rightarrow> bytes" where
  "ds_signing_bytes t = frame (ds_fields t)"

definition ds_txid :: "prims \<Rightarrow> data_submit_tx \<Rightarrow> string" where
  "ds_txid P t = sha_hex P (ds_signing_bytes t)"

definition ds_signed :: "prims \<Rightarrow> data_submit_tx \<Rightarrow> key \<Rightarrow> data_submit_tx res" where
  "ds_signed P t k =
     (if pub k \<noteq> ds_owner_pub t then Inl AssertionError
      else Inr (t\<lparr>ds_sig := sign P k (ds_signing_bytes t)\<rparr>))"

definition ds_verify :: "prims \<Rightarrow> data_submit_tx \<Rightarrow> bool" where
  "ds_verify P t = verify P (ds_owner_pub t) (ds_signing_bytes t) (ds_sig t)"

subsection \<open>\<^verbatim>\<open>DataChallengeTx\<close>\<close>

text \<open>A stake-against-stake challenge of a registry entry.\<close>

record data_challenge_tx =
  dc_challenger_pub :: string
  dc_data_id :: string
  dc_stake :: int
  dc_reason :: string
  dc_nonce :: int
  dc_sig :: bytes

definition dc_fields :: "data_challenge_tx \<Rightarrow> bytes list" where
  "dc_fields t =
     [encode ''data_challenge'',
      encode (dc_challenger_pub t),
      encode (dc_data_id t),
      encode (int_str (dc_stake t)),
      encode (dc_reason t),
      encode (int_str (dc_nonce t))]"

definition dc_signing_bytes :: "data_challenge_tx \<Rightarrow> bytes" where
  "dc_signing_bytes t = frame (dc_fields t)"

definition dc_txid :: "prims \<Rightarrow> data_challenge_tx \<Rightarrow> string" where
  "dc_txid P t = sha_hex P (dc_signing_bytes t)"

definition dc_signed :: "prims \<Rightarrow> data_challenge_tx \<Rightarrow> key \<Rightarrow> data_challenge_tx res" where
  "dc_signed P t k =
     (if pub k \<noteq> dc_challenger_pub t then Inl AssertionError
      else Inr (t\<lparr>dc_sig := sign P k (dc_signing_bytes t)\<rparr>))"

definition dc_verify :: "prims \<Rightarrow> data_challenge_tx \<Rightarrow> bool" where
  "dc_verify P t = verify P (dc_challenger_pub t) (dc_signing_bytes t) (dc_sig t)"

subsection \<open>\<^verbatim>\<open>DataVoteTx\<close>\<close>

text \<open>A juror vote on an open challenge.\<close>

record data_vote_tx =
  dv_voter_pub :: string
  dv_challenge_id :: string
  dv_support :: bool
  dv_nonce :: int
  dv_sig :: bytes

definition dv_fields :: "data_vote_tx \<Rightarrow> bytes list" where
  "dv_fields t =
     [encode ''data_vote'',
      encode (dv_voter_pub t),
      encode (dv_challenge_id t),
      encode (int_str (if dv_support t then 1 else 0)),
      encode (int_str (dv_nonce t))]"

definition dv_signing_bytes :: "data_vote_tx \<Rightarrow> bytes" where
  "dv_signing_bytes t = frame (dv_fields t)"

definition dv_txid :: "prims \<Rightarrow> data_vote_tx \<Rightarrow> string" where
  "dv_txid P t = sha_hex P (dv_signing_bytes t)"

definition dv_signed :: "prims \<Rightarrow> data_vote_tx \<Rightarrow> key \<Rightarrow> data_vote_tx res" where
  "dv_signed P t k =
     (if pub k \<noteq> dv_voter_pub t then Inl AssertionError
      else Inr (t\<lparr>dv_sig := sign P k (dv_signing_bytes t)\<rparr>))"

definition dv_verify :: "prims \<Rightarrow> data_vote_tx \<Rightarrow> bool" where
  "dv_verify P t = verify P (dv_voter_pub t) (dv_signing_bytes t) (dv_sig t)"

subsection \<open>\<^verbatim>\<open>InferenceReceiptTx\<close>\<close>

text \<open>A fee-bearing inference receipt. A missing answer sketch (\<^verbatim>\<open>None\<close>) is the empty list.\<close>

record inference_tx =
  ir_payer_pub :: string
  ir_server_addr :: string
  ir_fee :: int
  ir_output_hash :: string
  ir_head_root :: string
  ir_nonce :: int
  ir_answer_sketch :: "int list"
  ir_sig :: bytes

definition ir_fields :: "inference_tx \<Rightarrow> bytes list" where
  "ir_fields t =
     [encode ''inference'',
      encode (ir_payer_pub t),
      encode (ir_server_addr t),
      encode (int_str (ir_fee t)),
      encode (ir_output_hash t),
      encode (ir_head_root t),
      encode (int_str (ir_nonce t)),
      encode (dumps_compact (JList (map JInt (ir_answer_sketch t))))]"

definition ir_signing_bytes :: "inference_tx \<Rightarrow> bytes" where
  "ir_signing_bytes t = frame (ir_fields t)"

definition ir_txid :: "prims \<Rightarrow> inference_tx \<Rightarrow> string" where
  "ir_txid P t = sha_hex P (ir_signing_bytes t)"

definition ir_signed :: "prims \<Rightarrow> inference_tx \<Rightarrow> key \<Rightarrow> inference_tx res" where
  "ir_signed P t k =
     (if pub k \<noteq> ir_payer_pub t then Inl AssertionError
      else Inr (t\<lparr>ir_sig := sign P k (ir_signing_bytes t)\<rparr>))"

definition ir_verify :: "prims \<Rightarrow> inference_tx \<Rightarrow> bool" where
  "ir_verify P t = verify P (ir_payer_pub t) (ir_signing_bytes t) (ir_sig t)"

subsection \<open>All account transactions\<close>

text \<open>The data lane (the classes \<^verbatim>\<open>apply_data_tx\<close> tells apart) and the transfer lane.\<close>

datatype data_tx =
    DataSubmit data_submit_tx
  | DataChallenge data_challenge_tx
  | DataVote data_vote_tx
  | InferenceReceipt inference_tx

datatype account_tx = DataTx data_tx | Transfer transfer_tx

fun data_pub :: "data_tx \<Rightarrow> string" where
  "data_pub (DataSubmit t) = ds_owner_pub t"
| "data_pub (DataChallenge t) = dc_challenger_pub t"
| "data_pub (DataVote t) = dv_voter_pub t"
| "data_pub (InferenceReceipt t) = ir_payer_pub t"

fun data_nonce :: "data_tx \<Rightarrow> int" where
  "data_nonce (DataSubmit t) = ds_nonce t"
| "data_nonce (DataChallenge t) = dc_nonce t"
| "data_nonce (DataVote t) = dv_nonce t"
| "data_nonce (InferenceReceipt t) = ir_nonce t"

fun data_fields :: "data_tx \<Rightarrow> bytes list" where
  "data_fields (DataSubmit t) = ds_fields t"
| "data_fields (DataChallenge t) = dc_fields t"
| "data_fields (DataVote t) = dv_fields t"
| "data_fields (InferenceReceipt t) = ir_fields t"

fun data_txid :: "prims \<Rightarrow> data_tx \<Rightarrow> string" where
  "data_txid P (DataSubmit t) = ds_txid P t"
| "data_txid P (DataChallenge t) = dc_txid P t"
| "data_txid P (DataVote t) = dv_txid P t"
| "data_txid P (InferenceReceipt t) = ir_txid P t"

fun data_verify :: "prims \<Rightarrow> data_tx \<Rightarrow> bool" where
  "data_verify P (DataSubmit t) = ds_verify P t"
| "data_verify P (DataChallenge t) = dc_verify P t"
| "data_verify P (DataVote t) = dv_verify P t"
| "data_verify P (InferenceReceipt t) = ir_verify P t"

fun tx_pub :: "account_tx \<Rightarrow> string" where
  "tx_pub (DataTx t) = data_pub t"
| "tx_pub (Transfer t) = tr_from_pub t"

fun tx_nonce :: "account_tx \<Rightarrow> int" where
  "tx_nonce (DataTx t) = data_nonce t"
| "tx_nonce (Transfer t) = tr_nonce t"

fun tx_fields :: "account_tx \<Rightarrow> bytes list" where
  "tx_fields (DataTx t) = data_fields t"
| "tx_fields (Transfer t) = tr_fields t"

fun txid :: "prims \<Rightarrow> account_tx \<Rightarrow> string" where
  "txid P (DataTx t) = data_txid P t"
| "txid P (Transfer t) = tr_txid P t"

fun tx_verify :: "prims \<Rightarrow> account_tx \<Rightarrow> bool" where
  "tx_verify P (DataTx t) = data_verify P t"
| "tx_verify P (Transfer t) = tr_verify P t"

subsection \<open>The ledger\<close>

text \<open>
  A registry entry is a Python dictionary; \<^verbatim>\<open>da_root\<close> is absent from the genesis entry
  and \<^verbatim>\<open>sketch\<close> from an entry no sketched delta has named.
\<close>

record entry =
  ent_owner :: string
  ent_data_hash :: string
  ent_size :: int
  ent_media_type :: string
  ent_stake :: int
  ent_da_root :: "string option"
  ent_weight :: int
  ent_status :: string
  ent_sketch :: "int list option"

record challenge =
  ch_data_id :: string
  ch_challenger :: string
  ch_stake :: int
  ch_reason :: string
  ch_expiry :: int
  ch_votes_for :: "string list"
  ch_votes_against :: "string list"

record bond =
  bd_miner :: string
  bd_amount :: int
  bd_expiry :: int

record ledger =
  balances :: "(string, int) dict"
  nonces :: "(string, int) dict"
  registry :: "(string, entry) dict"
  challenges :: "(string, challenge) dict"
  bonds :: "(string, bond) dict"
  fee_data_pool :: int
  fee_train_pool :: int

definition empty_ledger :: ledger where
  "empty_ledger = \<lparr>balances = [], nonces = [], registry = [], challenges = [], bonds = [],
     fee_data_pool = 0, fee_train_pool = 0\<rparr>"

definition seed_genesis_data :: "string \<Rightarrow> string \<Rightarrow> ledger \<Rightarrow> ledger" where
  "seed_genesis_data owner_addr data_hash led =
     led\<lparr>registry := AList.update ''genesis''
       \<lparr>ent_owner = owner_addr, ent_data_hash = data_hash, ent_size = 0,
        ent_media_type = ''text'', ent_stake = 0, ent_da_root = None,
        ent_weight = GENESIS_DATA_WEIGHT, ent_status = ''active'', ent_sketch = None\<rparr>
       (registry led)\<rparr>"

definition balance :: "ledger \<Rightarrow> string \<Rightarrow> int" where
  "balance led addr = dict_get (balances led) addr 0"

definition credit :: "string \<Rightarrow> int \<Rightarrow> ledger \<Rightarrow> ledger" where
  "credit addr amount led =
     (if amount > 0
      then led\<lparr>balances := AList.update addr (dict_get (balances led) addr 0 + amount) (balances led)\<rparr>
      else led)"

text \<open>\<^verbatim>\<open>self.balances[addr] -= amount\<close>, which raises when the key is missing.\<close>

definition debit :: "string \<Rightarrow> int \<Rightarrow> ledger \<Rightarrow> ledger res" where
  "debit addr amount led =
     (case map_of (balances led) addr of
        None \<Rightarrow> Inl KeyError
      | Some b \<Rightarrow> Inr (led\<lparr>balances := AList.update addr (b - amount) (balances led)\<rparr>))"

definition active :: "entry \<Rightarrow> bool" where
  "active e \<longleftrightarrow> ent_status e = ''active''"

subsection \<open>The block reward\<close>

definition credit_pub :: "prims \<Rightarrow> string \<Rightarrow> int \<Rightarrow> ledger \<Rightarrow> ledger res" where
  "credit_pub P p amount led = bindE (address P p) (\<lambda>a. Inr (credit a amount led))"

text \<open>The miners' share: by committed score when some weight is positive, equally otherwise.\<close>

definition reward_miners ::
  "prims \<Rightarrow> int \<Rightarrow> string list \<Rightarrow> (string, int) dict \<Rightarrow> ledger \<Rightarrow> ledger res" where
  "reward_miners P miners_pool miner_pubs miner_weights led =
     (let weights = dict_of (map (\<lambda>p. (p, dict_get miner_weights p 0)) miner_pubs);
          wsum = dict_sum id weights
      in if wsum > 0
         then foldE (\<lambda>p. credit_pub P p (miners_pool * dict_get weights p 0 div wsum))
                (sort (remdups miner_pubs)) led
         else let each = miners_pool div int (length miner_pubs)
              in foldE (\<lambda>p. credit_pub P p each) (sort miner_pubs) led)"

text \<open>The active entries by content address: where two entries carry the same hash, the one
  inserted later in the registry wins.\<close>

definition hash_to_owner :: "ledger \<Rightarrow> (string, string) dict" where
  "hash_to_owner led =
     dict_of (map (\<lambda>e. (ent_data_hash e, ent_owner e)) (filter active (map snd (registry led))))"

definition paid_hashes :: "ledger \<Rightarrow> (string, int) dict \<Rightarrow> (string, int) dict" where
  "paid_hashes led data_credits =
     filter (\<lambda>(h, w). w > 0 \<and> map_of (hash_to_owner led) h \<noteq> None) data_credits"

text \<open>The data share: to the owners of the named corpora by weight, or the legacy addresses.\<close>

definition reward_data ::
  "int \<Rightarrow> (string, int) dict \<Rightarrow> string list \<Rightarrow> ledger \<Rightarrow> ledger" where
  "reward_data pool data_credits data_addrs led =
     (let owners = hash_to_owner led;
          paid = paid_hashes led data_credits;
          drain = paid \<noteq> [] \<and> fee_data_pool led \<noteq> 0;
          data_pool = (if drain then pool + fee_data_pool led else pool);
          led = (if drain then led\<lparr>fee_data_pool := 0\<rparr> else led)
      in if paid \<noteq> []
         then let wsum = dict_sum id paid
              in fold (\<lambda>h. credit (dict_get owners h []) (data_pool * dict_get paid h 0 div wsum))
                   (sort (map fst paid)) led
         else if data_addrs \<noteq> []
         then let each = data_pool div int (length data_addrs)
              in fold (\<lambda>a. credit a each) (sort data_addrs) led
         else led)"

definition apply_reward ::
  "prims \<Rightarrow> int \<Rightarrow> string list \<Rightarrow> string \<Rightarrow> string list \<Rightarrow> (string, int) dict \<Rightarrow> (string, int) dict \<Rightarrow>
   ledger \<Rightarrow> ledger res" where
  "apply_reward P height miner_pubs proposer_pub data_addrs data_credits miner_weights led =
     (let total = emission height
      in if total = 0 \<and> fee_train_pool led = 0 \<and> fee_data_pool led = 0 then Inr led
         else
           let pool = total * SHARE_MINERS div 10000;
               proposer_cut = total * SHARE_PROPOSER div 10000;
               data_pool = total * SHARE_DATA div 10000;
               drain = miner_pubs \<noteq> [] \<and> fee_train_pool led \<noteq> 0;
               miners_pool = (if drain then pool + fee_train_pool led else pool);
               led = (if drain then led\<lparr>fee_train_pool := 0\<rparr> else led)
           in bindE (if miner_pubs \<noteq> [] then reward_miners P miners_pool miner_pubs miner_weights led
                     else Inr led) (\<lambda>led.
              bindE (if proposer_pub \<noteq> [] \<and> proposer_pub \<noteq> ''genesis''
                     then credit_pub P proposer_pub proposer_cut led else Inr led) (\<lambda>led.
              Inr (reward_data data_pool data_credits data_addrs led))))"

subsection \<open>Delta admission bonds\<close>

definition settle_bond :: "int \<Rightarrow> string \<Rightarrow> ledger \<Rightarrow> ledger res" where
  "settle_bond height tid led =
     (case map_of (bonds led) tid of
        None \<Rightarrow> Inl KeyError
      | Some b \<Rightarrow>
          if bd_expiry b \<le> height
          then let led = credit (bd_miner b) (bd_amount b) led
               in Inr (led\<lparr>bonds := AList.delete tid (bonds led)\<rparr>)
          else Inr led)"

definition resolve_expired_bonds :: "int \<Rightarrow> ledger \<Rightarrow> ledger res" where
  "resolve_expired_bonds height led = foldE (settle_bond height) (sort (map fst (bonds led))) led"

definition lock_bond :: "string \<Rightarrow> string \<Rightarrow> int \<Rightarrow> int \<Rightarrow> ledger \<Rightarrow> (bool \<times> ledger) res" where
  "lock_bond delta_txid miner_addr amount height led =
     (if amount \<le> 0 then Inr (True, led)
      else if dict_get (balances led) miner_addr 0 < amount then Inr (False, led)
      else bindE (debit miner_addr amount led) (\<lambda>led.
        Inr (True, led\<lparr>bonds := AList.update delta_txid
          \<lparr>bd_miner = miner_addr, bd_amount = amount, bd_expiry = height + BOND_WINDOW\<rparr> (bonds led)\<rparr>)))"

subsection \<open>The challenge market\<close>

definition upheld :: "challenge \<Rightarrow> bool" where
  "upheld c \<longleftrightarrow> CHALLENGE_QUORUM \<le> length (ch_votes_for c)
     \<and> length (ch_votes_against c) < length (ch_votes_for c)"

definition settle_challenge :: "int \<Rightarrow> string \<Rightarrow> ledger \<Rightarrow> ledger res" where
  "settle_challenge height cid led =
     (case map_of (challenges led) cid of
        None \<Rightarrow> Inl KeyError
      | Some c \<Rightarrow>
          if height < ch_expiry c then Inr led
          else
            let led =
              (case map_of (registry led) (ch_data_id c) of
                 None \<Rightarrow> led
               | Some e \<Rightarrow>
                   if upheld c
                   then let led = credit (ch_challenger c) (ent_stake e + ch_stake c) led
                        in led\<lparr>registry := AList.update (ch_data_id c)
                             (e\<lparr>ent_status := ''revoked'', ent_stake := 0\<rparr>) (registry led)\<rparr>
                   else credit (ent_owner e) (ch_stake c) led)
            in Inr (led\<lparr>challenges := AList.delete cid (challenges led)\<rparr>))"

definition resolve_expired_challenges :: "int \<Rightarrow> ledger \<Rightarrow> ledger res" where
  "resolve_expired_challenges height led =
     foldE (settle_challenge height) (sort (map fst (challenges led))) led"

subsection \<open>The data lane\<close>

text \<open>
  The branches of \<^verbatim>\<open>apply_data_tx\<close>, one per transaction class, each after the signature
  and nonce checks: \<open>Inr None\<close> is \<^verbatim>\<open>return False\<close>, \<open>Inr (Some led)\<close> falls through
  to the nonce update.
\<close>

definition wf_da_root :: "string \<Rightarrow> bool" where
  "wf_da_root r \<longleftrightarrow> length r = 64 \<and> (\<forall>c\<in>set r. c \<in> set hex_digits)"

definition apply_submit :: "prims \<Rightarrow> data_submit_tx \<Rightarrow> string \<Rightarrow> ledger \<Rightarrow> ledger option res" where
  "apply_submit P tx src led =
     (if ds_stake tx \<le> 0 \<or> dict_get (balances led) src 0 < ds_stake tx then Inr None
      else if map_of (registry led) (ds_txid P tx) \<noteq> None then Inr None
      else if \<not> wf_da_root (ds_da_root tx) then Inr None
      else if ds_size_bytes tx \<le> 0 then Inr None
      else bindE (debit src (ds_stake tx) led) (\<lambda>led.
        Inr (Some (led\<lparr>registry := AList.update (ds_txid P tx)
          \<lparr>ent_owner = src, ent_data_hash = ds_data_hash tx, ent_size = ds_size_bytes tx,
           ent_media_type = ds_media_type tx, ent_stake = ds_stake tx,
           ent_da_root = Some (ds_da_root tx), ent_weight = ds_stake tx,
           ent_status = ''active'', ent_sketch = None\<rparr> (registry led)\<rparr>))))"

definition apply_challenge ::
  "prims \<Rightarrow> data_challenge_tx \<Rightarrow> int \<Rightarrow> string \<Rightarrow> ledger \<Rightarrow> ledger option res" where
  "apply_challenge P tx height src led =
     (case map_of (registry led) (dc_data_id tx) of
        None \<Rightarrow> Inr None
      | Some e \<Rightarrow>
          if \<not> active e \<or> dc_stake tx \<le> 0 \<or> dict_get (balances led) src 0 < dc_stake tx
             \<or> (\<exists>c\<in>set (map snd (challenges led)). ch_data_id c = dc_data_id tx)
          then Inr None
          else bindE (debit src (dc_stake tx) led) (\<lambda>led.
            Inr (Some (led\<lparr>challenges := AList.update (dc_txid P tx)
              \<lparr>ch_data_id = dc_data_id tx, ch_challenger = src, ch_stake = dc_stake tx,
               ch_reason = dc_reason tx, ch_expiry = height + CHALLENGE_WINDOW,
               ch_votes_for = [], ch_votes_against = []\<rparr> (challenges led)\<rparr>))))"

definition apply_vote :: "data_vote_tx \<Rightarrow> string set \<Rightarrow> string \<Rightarrow> ledger \<Rightarrow> ledger option res" where
  "apply_vote tx recent_proposers src led =
     (case map_of (challenges led) (dv_challenge_id tx) of
        None \<Rightarrow> Inr None
      | Some c \<Rightarrow>
          if dv_voter_pub tx \<notin> recent_proposers
             \<or> src \<in> set (ch_votes_for c) \<or> src \<in> set (ch_votes_against c)
          then Inr None
          else if src = ch_challenger c then Inr None
          else if (case map_of (registry led) (ch_data_id c) of
                     None \<Rightarrow> False | Some e \<Rightarrow> src = ent_owner e)
          then Inr None
          else let c = (if dv_support tx then c\<lparr>ch_votes_for := ch_votes_for c @ [src]\<rparr>
                        else c\<lparr>ch_votes_against := ch_votes_against c @ [src]\<rparr>);
                   c = c\<lparr>ch_votes_for := sort (ch_votes_for c),
                         ch_votes_against := sort (ch_votes_against c)\<rparr>
               in Inr (Some (led\<lparr>challenges :=
                    AList.update (dv_challenge_id tx) c (challenges led)\<rparr>)))"

text \<open>Usage attribution: the summed positive alignment of each owner's active sketches.\<close>

definition dot :: "int list \<Rightarrow> int list \<Rightarrow> int" where
  "dot a b = (\<Sum>(x, y)\<leftarrow>zip a b. x * y)"

definition align_step :: "int list \<Rightarrow> entry \<Rightarrow> (string, int) dict \<Rightarrow> (string, int) dict" where
  "align_step ans e aligns =
     (if \<not> active e then aligns
      else case ent_sketch e of
        None \<Rightarrow> aligns
      | Some sk \<Rightarrow>
          if sk = [] then aligns
          else let d = dot sk ans
               in if d > 0
                  then AList.update (ent_owner e) (dict_get aligns (ent_owner e) 0 + d) aligns
                  else aligns)"

definition alignments :: "int list \<Rightarrow> ledger \<Rightarrow> (string, int) dict" where
  "alignments ans led = fold (align_step ans) (map snd (registry led)) []"

definition apply_receipt :: "inference_tx \<Rightarrow> string \<Rightarrow> ledger \<Rightarrow> ledger option res" where
  "apply_receipt tx src led =
     (if ir_fee tx \<le> 0 \<or> dict_get (balances led) src 0 < ir_fee tx then Inr None
      else bindE (debit src (ir_fee tx) led) (\<lambda>led.
        let data_cut = ir_fee tx * FEE_SHARE_DATA div 10000;
            train_cut = ir_fee tx * FEE_SHARE_TRAIN div 10000;
            led = credit (ir_server_addr tx) (ir_fee tx - data_cut - train_cut) led;
            led = led\<lparr>fee_train_pool := fee_train_pool led + train_cut\<rparr>;
            ans = ir_answer_sketch tx;
            aligns = (if \<exists>x\<in>set ans. x \<noteq> 0 then alignments ans led else []);
            total = dict_sum id aligns
        in if total > 0
           then Inr (Some (fold (\<lambda>o1. credit o1 (data_cut * dict_get aligns o1 0 div total))
                             (sort (map fst aligns)) led))
           else Inr (Some (led\<lparr>fee_data_pool := fee_data_pool led + data_cut\<rparr>))))"

definition apply_data_branch ::
  "prims \<Rightarrow> data_tx \<Rightarrow> int \<Rightarrow> string set \<Rightarrow> string \<Rightarrow> ledger \<Rightarrow> ledger option res" where
  "apply_data_branch P tx height recent_proposers src led =
     (case tx of
        DataSubmit t \<Rightarrow> apply_submit P t src led
      | DataChallenge t \<Rightarrow> apply_challenge P t height src led
      | DataVote t \<Rightarrow> apply_vote t recent_proposers src led
      | InferenceReceipt t \<Rightarrow> apply_receipt t src led)"

definition apply_data_tx ::
  "prims \<Rightarrow> data_tx \<Rightarrow> int \<Rightarrow> string set \<Rightarrow> ledger \<Rightarrow> (bool \<times> ledger) res" where
  "apply_data_tx P tx height recent_proposers led =
     (if \<not> data_verify P tx then Inr (False, led)
      else bindE (address P (data_pub tx)) (\<lambda>src.
        if data_nonce tx \<noteq> dict_get (nonces led) src 0 then Inr (False, led)
        else bindE (apply_data_branch P tx height recent_proposers src led) (\<lambda>r.
          case r of
            None \<Rightarrow> Inr (False, led)
          | Some led' \<Rightarrow>
              Inr (True, led'\<lparr>nonces := AList.update src (data_nonce tx + 1) (nonces led')\<rparr>))))"

subsection \<open>Transfers\<close>

definition apply_transfer :: "prims \<Rightarrow> transfer_tx \<Rightarrow> ledger \<Rightarrow> (bool \<times> ledger) res" where
  "apply_transfer P tx led =
     (if \<not> tr_verify P tx \<or> tr_amount tx \<le> 0 then Inr (False, led)
      else bindE (address P (tr_from_pub tx)) (\<lambda>src.
        if tr_nonce tx \<noteq> dict_get (nonces led) src 0 then Inr (False, led)
        else if dict_get (balances led) src 0 < tr_amount tx then Inr (False, led)
        else bindE (debit src (tr_amount tx) led) (\<lambda>led.
          let led = credit (tr_to_addr tx) (tr_amount tx) led
          in Inr (True, led\<lparr>nonces := AList.update src (tr_nonce tx + 1) (nonces led)\<rparr>))))"

subsection \<open>Canonical orders\<close>

definition tx_sender :: "prims \<Rightarrow> account_tx \<Rightarrow> string res" where
  "tx_sender P t = address P (tx_pub t)"

definition tx_key :: "prims \<Rightarrow> account_tx \<Rightarrow> (string \<times> int \<times> string) res" where
  "tx_key P t = bindE (tx_sender P t) (\<lambda>a. Inr (a, tx_nonce t, txid P t))"

text \<open>\<^verbatim>\<open>sorted(xs, key=f)\<close>: the keys are computed first, and the sort is stable.\<close>

definition sorted_by :: "('a \<Rightarrow> ('k::linorder) res) \<Rightarrow> 'a list \<Rightarrow> 'a list res" where
  "sorted_by f xs = bindE (mapE f xs) (\<lambda>ks. Inr (map snd (sort_key fst (zip ks xs))))"

definition canonical_transfers :: "prims \<Rightarrow> transfer_tx list \<Rightarrow> transfer_tx list res" where
  "canonical_transfers P transfers = sorted_by (\<lambda>t. tx_key P (Transfer t)) transfers"

definition canonical_account_txs :: "prims \<Rightarrow> data_tx list \<Rightarrow> transfer_tx list \<Rightarrow> account_tx list res" where
  "canonical_account_txs P data_txs transfers =
     sorted_by (tx_key P) (map DataTx data_txs @ map Transfer transfers)"

fun transfer_loop :: "prims \<Rightarrow> transfer_tx list \<Rightarrow> ledger \<Rightarrow> (bool \<times> ledger) res" where
  "transfer_loop P [] led = Inr (True, led)"
| "transfer_loop P (tx # txs) led =
     bindE (apply_transfer P tx led) (\<lambda>(ok, led).
       if ok then transfer_loop P txs led else Inr (False, led))"

definition apply_transfers :: "prims \<Rightarrow> transfer_tx list \<Rightarrow> ledger \<Rightarrow> (bool \<times> ledger) res" where
  "apply_transfers P transfers led =
     bindE (canonical_transfers P transfers) (\<lambda>txs. transfer_loop P txs led)"

subsection \<open>Commitments\<close>

definition entry_json :: "entry \<Rightarrow> json" where
  "entry_json e = JObj (
     [(''owner'', JStr (ent_owner e)), (''data_hash'', JStr (ent_data_hash e)),
      (''size'', JInt (ent_size e)), (''media_type'', JStr (ent_media_type e)),
      (''stake'', JInt (ent_stake e))] @
     (case ent_da_root e of None \<Rightarrow> [] | Some r \<Rightarrow> [(''da_root'', JStr r)]) @
     [(''weight'', JInt (ent_weight e)), (''status'', JStr (ent_status e))] @
     (case ent_sketch e of None \<Rightarrow> [] | Some sk \<Rightarrow> [(''sketch'', JList (map JInt sk))]))"

definition challenge_json :: "challenge \<Rightarrow> json" where
  "challenge_json c = JObj
     [(''data_id'', JStr (ch_data_id c)), (''challenger'', JStr (ch_challenger c)),
      (''stake'', JInt (ch_stake c)), (''reason'', JStr (ch_reason c)),
      (''expiry'', JInt (ch_expiry c)), (''votes_for'', JList (map JStr (ch_votes_for c))),
      (''votes_against'', JList (map JStr (ch_votes_against c)))]"

definition bond_json :: "bond \<Rightarrow> json" where
  "bond_json b = JObj [(''miner'', JStr (bd_miner b)), (''amount'', JInt (bd_amount b)),
     (''expiry'', JInt (bd_expiry b))]"

definition dict_json :: "('v \<Rightarrow> json) \<Rightarrow> (string, 'v) dict \<Rightarrow> json" where
  "dict_json f d = JObj (map (\<lambda>(k, v). (k, f v)) d)"

definition ledger_json :: "ledger \<Rightarrow> json" where
  "ledger_json led = JObj
     [(''balances'', dict_json JInt (balances led)), (''bonds'', dict_json bond_json (bonds led)),
      (''challenges'', dict_json challenge_json (challenges led)),
      (''fee_data_pool'', JInt (fee_data_pool led)), (''fee_train_pool'', JInt (fee_train_pool led)),
      (''nonces'', dict_json JInt (nonces led)), (''registry'', dict_json entry_json (registry led))]"

definition ledger_root :: "prims \<Rightarrow> ledger \<Rightarrow> string" where
  "ledger_root P led = sha_hex P (encode (dumps_compact (ledger_json led)))"

definition ledger_supply :: "ledger \<Rightarrow> int" where
  "ledger_supply led = dict_sum id (balances led) + fee_data_pool led + fee_train_pool led"

definition data_root :: "prims \<Rightarrow> data_tx list \<Rightarrow> string" where
  "data_root P data_txs = sha_hex P (encode (join ''|'' (sort (map (data_txid P) data_txs))))"

definition transfer_root :: "prims \<Rightarrow> transfer_tx list \<Rightarrow> string" where
  "transfer_root P transfers = sha_hex P (encode (join ''|'' (sort (map (tr_txid P) transfers))))"

end
