(* ===== verification/Lottery.thy ===== *)
theory Lottery
  imports Crypto
begin

section \<open>Proposer sortition (rig/lottery.py)\<close>

text \<open>
  The VRF seed of a height and attempt, the proof (a deterministic signature of the seed),
  its output and work, the stake-weighted threshold that doubles with every attempt, and the
  eligibility decision. The lemmas bound the committed work, show that the threshold
  only widens, that eligibility is settled by the signature alone at the last attempt (the
  liveness floor), and that different heights and attempts sign different seeds.
\<close>

definition TARGET_PROPOSERS :: int where "TARGET_PROPOSERS = 2"
definition ATTEMPT_MAX :: int where "ATTEMPT_MAX = 16"
definition TWO256 :: int where "TWO256 = 2 ^ 256"

definition seed_text :: "string \<Rightarrow> int \<Rightarrow> int \<Rightarrow> string" where
  "seed_text prev_hash height attempt =
     ''sestrian-lottery|'' @ prev_hash @ ''|'' @ int_str height @ ''|'' @ int_str attempt"

definition seed :: "prims \<Rightarrow> string \<Rightarrow> int \<Rightarrow> int \<Rightarrow> bytes" where
  "seed P prev_hash height attempt = sha256 P (encode (seed_text prev_hash height attempt))"

definition vrf_prove :: "prims \<Rightarrow> key \<Rightarrow> string \<Rightarrow> int \<Rightarrow> int \<Rightarrow> bytes" where
  "vrf_prove P k prev_hash height attempt = sign P k (seed P prev_hash height attempt)"

definition vrf_output :: "prims \<Rightarrow> bytes \<Rightarrow> int" where
  "vrf_output P pf = int (be_val (sha256 P pf))"

text \<open>\<^verbatim>\<open>int.bit_length()\<close> of a non-negative integer.\<close>

fun bit_length :: "nat \<Rightarrow> nat" where
  "bit_length n = (if n = 0 then 0 else Suc (bit_length (n div 2)))"

declare bit_length.simps [simp del]

definition vrf_work :: "prims \<Rightarrow> bytes \<Rightarrow> int" where
  "vrf_work P pf =
     (let out = vrf_output P pf; lz = (if out > 0 then 256 - int (bit_length (nat out)) else 256)
      in lz + 1)"

text \<open>\<^verbatim>\<open>x >> n\<close> raises for a negative shift.\<close>

definition py_shr :: "int \<Rightarrow> int \<Rightarrow> int res" where
  "py_shr x n = (if n < 0 then Inl ValueError else Inr (x div 2 ^ nat n))"

definition attempt_work :: "prims \<Rightarrow> bytes \<Rightarrow> int \<Rightarrow> int res" where
  "attempt_work P pf attempt = bindE (py_shr (vrf_work P pf) attempt) (\<lambda>x. Inr (max 1 x))"

text \<open>The callers pass an attempt in \<open>[0, ATTEMPT_MAX]\<close>, checked by \<open>eligible\<close> first.\<close>

definition threshold :: "int \<Rightarrow> int \<Rightarrow> int \<Rightarrow> int" where
  "threshold stake total_stake attempt =
     (if total_stake \<le> 0 then TWO256
      else if stake \<le> 0 then 0
      else min TWO256 ((TWO256 * TARGET_PROPOSERS * stake * 2 ^ nat attempt) div total_stake))"

definition eligible :: "prims \<Rightarrow> string \<Rightarrow> bytes \<Rightarrow> string \<Rightarrow> int \<Rightarrow> int \<Rightarrow> int \<Rightarrow> int \<Rightarrow> bool" where
  "eligible P pk pf prev_hash height attempt stake total_stake =
     (if \<not> (0 \<le> attempt \<and> attempt \<le> ATTEMPT_MAX) then False
      else if \<not> verify P pk (seed P prev_hash height attempt) pf then False
      else if attempt = ATTEMPT_MAX then True
      else if total_stake \<le> 0 then attempt = 0
      else vrf_output P pf < threshold stake total_stake attempt)"

subsection \<open>Work\<close>

lemma bit_length_bound: "n < 2 ^ bit_length n"
proof (induction n rule: bit_length.induct)
  case (1 n)
  then show ?case by (cases "n = 0") (auto simp: bit_length.simps [of n])
qed

lemma bit_length_le: "n < 2 ^ k \<Longrightarrow> bit_length n \<le> k"
proof (induction n arbitrary: k rule: bit_length.induct)
  case (1 n)
  show ?case
  proof (cases "n = 0")
    case False
    then obtain j where "k = Suc j" using "1.prems" by (cases k) auto
    then show ?thesis using False 1 by (auto simp: bit_length.simps [of n])
  qed (simp add: bit_length.simps)
qed

lemma vrf_output_bound: "length (sha256 P pf) = 32 \<Longrightarrow> 0 \<le> vrf_output P pf \<and> vrf_output P pf < TWO256"
proof -
  assume "length (sha256 P pf) = 32"
  then have "be_val (sha256 P pf) < 256 ^ 32"
    using le_val_bound [of "rev (sha256 P pf)"] by (simp add: be_val_def)
  then have "int (be_val (sha256 P pf)) < int (256 ^ 32)" by (simp only: of_nat_less_iff)
  then show ?thesis by (simp add: vrf_output_def TWO256_def)
qed

lemma vrf_work_bounds:
  assumes "length (sha256 P pf) = 32"
  shows "1 \<le> vrf_work P pf \<and> vrf_work P pf \<le> 257"
proof -
  have "nat (vrf_output P pf) < 2 ^ 256"
    using vrf_output_bound [OF assms] by (simp add: TWO256_def nat_less_iff)
  then have "bit_length (nat (vrf_output P pf)) \<le> 256" by (rule bit_length_le)
  then show ?thesis by (simp add: vrf_work_def Let_def)
qed

lemma attempt_work_bounds:
  assumes "length (sha256 P pf) = 32" and "0 \<le> a"
  shows "\<exists>w. attempt_work P pf a = Inr w \<and> 1 \<le> w \<and> w \<le> vrf_work P pf"
proof -
  have "vrf_work P pf div 2 ^ nat a \<le> vrf_work P pf"
    using vrf_work_bounds [OF assms(1)] zdiv_mono2 [of "vrf_work P pf" 1 "2 ^ nat a"] by simp
  then show ?thesis using assms(2) vrf_work_bounds [OF assms(1)]
    by (auto simp: attempt_work_def py_shr_def)
qed

text \<open>Work falls, or stays at the floor, as the attempt rises.\<close>

lemma attempt_work_antimono:
  assumes "0 \<le> a" "a \<le> b" "0 \<le> vrf_work P pf" "attempt_work P pf a = Inr x" "attempt_work P pf b = Inr y"
  shows "y \<le> x"
proof -
  have "vrf_work P pf div 2 ^ nat b \<le> vrf_work P pf div 2 ^ nat a"
    using assms by (intro zdiv_mono2) (auto intro: power_increasing nat_mono)
  then show ?thesis using assms by (auto simp: attempt_work_def py_shr_def)
qed

subsection \<open>The threshold and eligibility\<close>

lemma threshold_mono:
  assumes "0 \<le> a" "a \<le> b"
  shows "threshold stake tot a \<le> threshold stake tot b"
proof (cases "0 < tot \<and> 0 < stake")
  case True
  have "(2::int) ^ nat a \<le> 2 ^ nat b" using assms by (intro power_increasing nat_mono) auto
  then have "TWO256 * TARGET_PROPOSERS * stake * 2 ^ nat a \<le> TWO256 * TARGET_PROPOSERS * stake * 2 ^ nat b"
    using True by (intro mult_left_mono) (auto simp: TWO256_def TARGET_PROPOSERS_def)
  then have "TWO256 * TARGET_PROPOSERS * stake * 2 ^ nat a div tot \<le> TWO256 * TARGET_PROPOSERS * stake * 2 ^ nat b div tot"
    using True by (intro zdiv_mono1) auto
  then show ?thesis using True by (simp add: threshold_def)
qed (auto simp: threshold_def)

lemma threshold_range: "0 \<le> threshold stake tot a \<and> threshold stake tot a \<le> TWO256"
proof -
  have "0 < tot \<Longrightarrow> 0 < stake \<Longrightarrow> 0 \<le> TWO256 * TARGET_PROPOSERS * stake * 2 ^ nat a div tot"
    by (intro div_int_pos_iff [THEN iffD2]) (auto simp: TWO256_def TARGET_PROPOSERS_def)
  then show ?thesis by (auto simp: threshold_def TWO256_def)
qed

text \<open>Someone who holds at least half of the stake is eligible at the first attempt.\<close>

lemma threshold_half:
  assumes "0 < tot" "tot \<le> 2 * stake" "0 \<le> a"
  shows "threshold stake tot a = TWO256"
proof -
  have "TWO256 * tot \<le> TWO256 * TARGET_PROPOSERS * stake"
    using assms by (simp add: TWO256_def TARGET_PROPOSERS_def)
  also have "\<dots> \<le> TWO256 * TARGET_PROPOSERS * stake * 2 ^ nat a"
    using assms by (intro mult_le_cancel_left1 [THEN iffD2]) (auto simp: TWO256_def TARGET_PROPOSERS_def)
  finally have "TWO256 * tot div tot \<le> TWO256 * TARGET_PROPOSERS * stake * 2 ^ nat a div tot"
    using assms(1) by (intro zdiv_mono1) auto
  then show ?thesis using assms by (simp add: threshold_def)
qed

lemma verify_vrf_prove:
  assumes "sig_correct P" "key_pk k = ed_pub P (key_sk k)"
  shows "verify P (pub k) (seed P ph h a) (vrf_prove P k ph h a)"
  using assms by (simp add: verify_def pub_def vrf_prove_def sign_def sig_correct_def fromhex_hex)

lemma eligible_verifies: "eligible P pk pf ph h a st tot \<Longrightarrow> verify P pk (seed P ph h a) pf \<and> 0 \<le> a \<and> a \<le> ATTEMPT_MAX"
  by (auto simp: eligible_def split: if_splits)

lemma eligible_at_max:
  "eligible P pk pf ph h ATTEMPT_MAX st tot \<longleftrightarrow> verify P pk (seed P ph h ATTEMPT_MAX) pf"
  by (simp add: eligible_def ATTEMPT_MAX_def)

text \<open>The seed names the height and the attempt: two seeds agree only for one height and
  attempt under one parent, or a digest collides.\<close>

lemma int_str_no_bar: "CHR ''|'' \<notin> set (int_str i)"
proof -
  have "CHR ''|'' \<notin> set (nat_str n)" for n using nat_str_digits [of "CHR ''|''" n] by auto
  then show ?thesis by (auto simp: int_str_def)
qed

lemma split_at_bar:
  "xs @ CHR ''|'' # ys = xs' @ CHR ''|'' # ys' \<Longrightarrow> CHR ''|'' \<notin> set xs \<Longrightarrow> CHR ''|'' \<notin> set xs' \<Longrightarrow> xs = xs' \<and> ys = ys'"
proof (induction xs arbitrary: xs')
  case Nil
  then show ?case by (cases xs') auto
next
  case (Cons x xs)
  then show ?case by (cases xs') auto
qed

lemma seed_inject:
  assumes "seed P ph h a = seed P ph h' a'"
  shows "(h = h' \<and> a = a') \<or> collides_on P {encode (seed_text ph h a), encode (seed_text ph h' a')}"
proof (rule disjCI)
  assume "\<not> collides_on P {encode (seed_text ph h a), encode (seed_text ph h' a')}"
  then have "encode (seed_text ph h a) = encode (seed_text ph h' a')"
    using assms unfolding seed_def collides_on_def by blast
  then have "int_str h @ CHR ''|'' # int_str a = int_str h' @ CHR ''|'' # int_str a'"
    by (simp add: encode_inject seed_text_def)
  from split_at_bar [OF this int_str_no_bar int_str_no_bar] show "h = h' \<and> a = a'" by simp
qed

end
