(* ===== verification/Chain.thy ===== *)
theory Chain
  imports Crypto
begin

section \<open>Weights as chain state (rig/chain.py)\<close>

text \<open>
  The state is a vector of int64 fixed-point weights, a list of integers in
  \<open>[-2^63, 2^63)\<close>; numpy's int64 sums wrap around, written out as \<open>wrap64\<close>. The theory
  models the Byzantine-robust aggregation, the per-page transition and the linear
  \<^verbatim>\<open>Chain\<close> with its replay. Float quantisation (\<^verbatim>\<open>quantize\<close>, \<^verbatim>\<open>dequantize\<close>) is the miner's
  side of the determinism boundary and is not modelled.
\<close>

type_synonym weights = "int list"

subsection \<open>int64 vectors\<close>

definition wrap64 :: "int \<Rightarrow> int" where
  "wrap64 x = (x + 2 ^ 63) mod 2 ^ 64 - 2 ^ 63"

definition is_i64 :: "int \<Rightarrow> bool" where
  "is_i64 x \<longleftrightarrow> - (2 ^ 63) \<le> x \<and> x < 2 ^ 63"

text \<open>\<^verbatim>\<open>a + b\<close> on one-dimensional arrays: equal lengths, or one side broadcast from length 1.\<close>

definition vec_add :: "weights \<Rightarrow> weights \<Rightarrow> weights res" where
  "vec_add a b =
     (if length a = length b then Inr (map2 (\<lambda>x y. wrap64 (x + y)) a b)
      else if length b = 1 then Inr (map (\<lambda>x. wrap64 (x + hd b)) a)
      else if length a = 1 then Inr (map (\<lambda>y. wrap64 (hd a + y)) b)
      else Inl ValueError)"

text \<open>Python slice bounds: negative indices count from the end, and both are clipped.\<close>

definition slice_index :: "nat \<Rightarrow> int \<Rightarrow> nat" where
  "slice_index n i = nat (if i < 0 then max 0 (int n + i) else min (int n) i)"

definition py_slice :: "'a list \<Rightarrow> int \<Rightarrow> int \<Rightarrow> 'a list" where
  "py_slice xs s e = (let n = length xs; i = slice_index n s; j = slice_index n e
     in take (j - i) (drop i xs))"

definition set_slice :: "'a list \<Rightarrow> int \<Rightarrow> int \<Rightarrow> 'a list \<Rightarrow> 'a list res" where
  "set_slice xs s e v = (let n = length xs; i = slice_index n s; j = max i (slice_index n e)
     in if length v = j - i then Inr (take i xs @ v @ drop j xs)
        else if length v = 1 then Inr (take i xs @ replicate (j - i) (hd v) @ drop j xs)
        else Inl ValueError)"

subsection \<open>Commitment\<close>

definition state_root :: "prims \<Rightarrow> weights \<Rightarrow> string" where
  "state_root P w = sha_hex P (tobytes w)"

subsection \<open>Byzantine-robust aggregation\<close>

text \<open>
  How many values are cut from each end of a sorted column of \<open>k\<close>. The source computes
  \<^verbatim>\<open>int(np.floor(k * 0.2))\<close>; the double nearest to 0.2 exceeds it by less than
  \<open>2^-56\<close>, so for every \<open>k < 2^50\<close> the rounded product has the floor \<open>k div 5\<close>.
\<close>

definition trim_count :: "nat \<Rightarrow> nat" where
  "trim_count k = (let lo = k div 5 in if 3 \<le> k then max 1 lo else lo)"

definition trimmed_core :: "int list \<Rightarrow> int list" where
  "trimmed_core col =
     (let s = sort col; k = length s; lo = trim_count k; hi = k - lo
      in if lo < hi then take (hi - lo) (drop lo s) else s)"

definition trimmed_mean_col :: "int list \<Rightarrow> int" where
  "trimmed_mean_col col =
     (let core = trimmed_core col in wrap64 (sum_list core) div int (length core))"

definition column :: "weights list \<Rightarrow> nat \<Rightarrow> int list" where
  "column ds j = map (\<lambda>d. d ! j) ds"

text \<open>\<^verbatim>\<open>np.stack\<close> raises when there is nothing to stack or the shapes differ.\<close>

definition trimmed_mean_int :: "weights list \<Rightarrow> weights res" where
  "trimmed_mean_int ds =
     (case ds of
        [] \<Rightarrow> Inl ValueError
      | d # _ \<Rightarrow>
          if \<exists>e\<in>set ds. length e \<noteq> length d then Inl ValueError
          else Inr (map (\<lambda>j. trimmed_mean_col (column ds j)) [0..<length d]))"

subsection \<open>The per-page transition\<close>

type_synonym span = "int \<times> int"

definition contributors :: "weights list \<Rightarrow> int list list \<Rightarrow> int \<Rightarrow> span \<Rightarrow> weights list" where
  "contributors bodies claims page_id sp =
     map (\<lambda>(b, c). py_slice b (fst sp) (snd sp))
       (filter (\<lambda>(b, c). page_id \<in> set c) (zip bodies claims))"

definition page_step ::
  "weights list \<Rightarrow> int list list \<Rightarrow> nat \<times> span \<Rightarrow> weights \<Rightarrow> weights res" where
  "page_step bodies claims p w =
     (let (page_id, sp) = p; cs = contributors bodies claims (int page_id) sp
      in if cs = [] then Inr w
         else bindE (trimmed_mean_int cs) (\<lambda>m.
              bindE (vec_add (py_slice w (fst sp) (snd sp)) m) (\<lambda>v.
              set_slice w (fst sp) (snd sp) v)))"

definition paged_transition ::
  "weights \<Rightarrow> weights list \<Rightarrow> int list list \<Rightarrow> span list \<Rightarrow> weights res" where
  "paged_transition parent_w bodies claims spans =
     foldE (page_step bodies claims) (List.enumerate 0 spans) parent_w"

subsection \<open>The linear chain\<close>

record chain_block =
  cb_height :: nat
  cb_deltas :: "weights list"
  cb_miner_ids :: "int list"
  cb_root :: string

record chain =
  genesis_int :: weights
  w_int :: weights
  chain_blocks :: "chain_block list"

definition new_chain :: "weights \<Rightarrow> chain" where
  "new_chain w0 = \<lparr>genesis_int = w0, w_int = w0, chain_blocks = []\<rparr>"

definition chain_height :: "chain \<Rightarrow> nat" where
  "chain_height c = length (chain_blocks c)"

definition outer_step :: "weights \<Rightarrow> weights list \<Rightarrow> weights res" where
  "outer_step w ds = (if ds = [] then Inr w else bindE (trimmed_mean_int ds) (vec_add w))"

definition chain_apply_block ::
  "prims \<Rightarrow> weights list \<Rightarrow> int list \<Rightarrow> chain \<Rightarrow> (chain_block \<times> chain) res" where
  "chain_apply_block P ds miner_ids c =
     bindE (outer_step (w_int c) ds) (\<lambda>w.
       let b = \<lparr>cb_height = chain_height c + 1, cb_deltas = ds, cb_miner_ids = miner_ids,
                cb_root = state_root P w\<rparr>
       in Inr (b, c\<lparr>w_int := w, chain_blocks := chain_blocks c @ [b]\<rparr>))"

definition kept_deltas :: "int set \<Rightarrow> chain_block \<Rightarrow> weights list" where
  "kept_deltas exclude b =
     map fst (filter (\<lambda>(d, m). m \<notin> exclude) (zip (cb_deltas b) (cb_miner_ids b)))"

definition chain_replay :: "int set \<Rightarrow> chain \<Rightarrow> weights res" where
  "chain_replay exclude c =
     foldE (\<lambda>b w. outer_step w (kept_deltas exclude b)) (chain_blocks c) (genesis_int c)"

subsection \<open>Wrap-around\<close>

lemma wrap64_i64: "is_i64 (wrap64 x)"
proof -
  have "0 \<le> (x + 2 ^ 63) mod 2 ^ 64" "(x + 2 ^ 63) mod 2 ^ 64 < (2 ^ 64 :: int)" by simp_all
  then show ?thesis by (simp add: is_i64_def wrap64_def)
qed

lemma wrap64_id [simp]: "is_i64 x \<Longrightarrow> wrap64 x = x"
  by (simp add: is_i64_def wrap64_def mod_pos_pos_trivial)

lemma wrap64_add_left: "wrap64 (wrap64 x + y) = wrap64 (x + y)"
proof -
  have "((x + 2 ^ 63) mod 2 ^ 64 + y) mod 2 ^ 64 = (x + 2 ^ 63 + y) mod (2 ^ 64 :: int)"
    by (rule mod_add_left_eq)
  then show ?thesis by (simp add: wrap64_def algebra_simps)
qed

subsection \<open>The trimmed core lies between honest values\<close>

lemma trimmed_core_subset: "set (trimmed_core col) \<subseteq> set col"
proof
  fix v assume "v \<in> set (trimmed_core col)"
  then have "v \<in> set (sort col)"
    unfolding trimmed_core_def Let_def
    by (cases "trim_count (length (sort col)) < length (sort col) - trim_count (length (sort col))")
       (auto simp del: set_sort dest!: in_set_takeD in_set_dropD)
  then show "v \<in> set col" by simp
qed

lemma trimmed_core_neq_Nil: "col \<noteq> [] \<Longrightarrow> trimmed_core col \<noteq> []"
proof -
  assume "col \<noteq> []"
  then have "0 < length (sort col)" by simp
  then have "0 < length (trimmed_core col)"
    unfolding trimmed_core_def Let_def by (auto simp del: length_sort length_greater_0_conv)
  then show ?thesis by blast
qed

lemma length_filter_take_drop:
  "length (filter Q s) = length (filter Q (take n s)) + length (filter Q (drop n s))"
proof -
  have "filter Q (take n s) @ filter Q (drop n s) = filter Q s"
    by (simp only: filter_append [symmetric] append_take_drop_id)
  then show ?thesis by (metis length_append)
qed

lemma trim_count_lt: "3 \<le> k \<Longrightarrow> trim_count k < k - trim_count k"
  by (auto simp: trim_count_def Let_def)

lemma trimmed_core_index:
  assumes "v \<in> set (trimmed_core col)" and "3 \<le> length col"
  obtains i where "sort col ! i = v" "trim_count (length col) \<le> i" "i < length col - trim_count (length col)"
proof -
  let ?lo = "trim_count (length col)"
  have lt: "?lo < length col - ?lo" using trim_count_lt [OF assms(2)] .
  then have "trimmed_core col = take (length col - ?lo - ?lo) (drop ?lo (sort col))"
    by (simp add: trimmed_core_def Let_def)
  with assms(1) obtain j where j: "j < length col - ?lo - ?lo" "sort col ! (?lo + j) = v"
    by (auto simp: in_set_conv_nth)
  with that [of "?lo + j"] show thesis by auto
qed

text \<open>A value at position \<open>i\<close> of the sorted column has more than \<open>i\<close> values at or below it.\<close>

lemma count_below:
  assumes "sorted s" "i < length s"
  shows "i < length (filter (\<lambda>x. x \<le> s ! i) (s::int list))"
proof -
  have "filter (\<lambda>x. x \<le> s ! i) (take (Suc i) s) = take (Suc i) s"
    using assms by (auto simp: filter_id_conv in_set_conv_nth sorted_iff_nth_mono)
  then have "Suc i = length (filter (\<lambda>x. x \<le> s ! i) (take (Suc i) s))" using assms(2) by simp
  then show ?thesis using length_filter_take_drop [of "\<lambda>x. x \<le> s ! i" s "Suc i"] by linarith
qed

lemma count_above:
  assumes "sorted s" "i < length s"
  shows "length s - i \<le> length (filter (\<lambda>x. s ! i \<le> x) (s::int list))"
proof -
  have "filter (\<lambda>x. s ! i \<le> x) (drop i s) = drop i s"
    using assms by (auto simp: filter_id_conv in_set_conv_nth sorted_iff_nth_mono)
  then have "length s - i = length (filter (\<lambda>x. s ! i \<le> x) (drop i s))" by simp
  then show ?thesis using length_filter_take_drop [of "\<lambda>x. s ! i \<le> x" s i] by linarith
qed

lemma filter_sort_split:
  assumes "mset col = mset honest + mset adv"
  shows "length (filter Q (sort col)) = length (filter Q honest) + length (filter Q adv)"
proof -
  have "size (mset (filter Q (sort col))) = size (mset (filter Q honest)) + size (mset (filter Q adv))"
    unfolding mset_filter mset_sort assms filter_union_mset size_union ..
  then show ?thesis by (simp only: size_mset)
qed

lemma core_between_honest:
  assumes "3 \<le> length col" and m: "mset col = mset honest + mset adv"
    and adv: "length adv \<le> trim_count (length col)" and v: "v \<in> set (trimmed_core col)"
  shows "(\<exists>h\<in>set honest. h \<le> v) \<and> (\<exists>h\<in>set honest. v \<le> h)"
proof -
  let ?s = "sort col" and ?lo = "trim_count (length col)"
  obtain i where i: "?s ! i = v" "?lo \<le> i" "i < length col - ?lo"
    using trimmed_core_index [OF v assms(1)] .
  then have il: "i < length ?s" by simp
  have below: "?lo < length (filter (\<lambda>x. x \<le> v) ?s)"
    using count_below [OF sorted_sort il] i by simp
  have "\<exists>h\<in>set honest. h \<le> v"
  proof (rule ccontr)
    assume "\<not> ?thesis"
    then have "length (filter (\<lambda>x. x \<le> v) ?s) = length (filter (\<lambda>x. x \<le> v) adv)"
      unfolding filter_sort_split [OF m] by (simp add: filter_empty_conv)
    with below adv length_filter_le [of "\<lambda>x. x \<le> v" adv] show False by linarith
  qed
  moreover have above: "?lo < length (filter (\<lambda>x. v \<le> x) ?s)"
    using count_above [OF sorted_sort il] i by simp
  have "\<exists>h\<in>set honest. v \<le> h"
  proof (rule ccontr)
    assume "\<not> ?thesis"
    then have "length (filter (\<lambda>x. v \<le> x) ?s) = length (filter (\<lambda>x. v \<le> x) adv)"
      unfolding filter_sort_split [OF m] by (simp add: filter_empty_conv)
    with above adv length_filter_le [of "\<lambda>x. v \<le> x" adv] show False by linarith
  qed
  ultimately show ?thesis ..
qed

text \<open>The floor of a mean stays between the bounds of the values.\<close>

lemma sum_list_bounds:
  "(\<And>x. x \<in> set xs \<Longrightarrow> a \<le> x \<and> x \<le> b) \<Longrightarrow>
     int (length xs) * a \<le> sum_list xs \<and> sum_list xs \<le> int (length xs) * b"
proof (induction xs)
  case (Cons x xs)
  then have "int (length xs) * a \<le> sum_list xs" "sum_list xs \<le> int (length xs) * b" "a \<le> x" "x \<le> b"
    by auto
  then show ?case by (simp add: algebra_simps)
qed simp

lemma mean_bounds:
  assumes "xs \<noteq> []" and "\<And>x. x \<in> set xs \<Longrightarrow> a \<le> x \<and> x \<le> (b::int)"
  shows "a \<le> sum_list xs div int (length xs) \<and> sum_list xs div int (length xs) \<le> b"
proof -
  have n: "0 < int (length xs)" using assms(1) by simp
  from sum_list_bounds [of xs a b] assms(2)
  have l: "int (length xs) * a \<le> sum_list xs" and u: "sum_list xs \<le> int (length xs) * b" by auto
  from zdiv_mono1 [OF l n] zdiv_mono1 [OF u n] n show ?thesis by simp
qed

lemma no_overflow:
  assumes "\<And>x. x \<in> set xs \<Longrightarrow> \<bar>x\<bar> \<le> B" and "int (length xs) * B < 2 ^ 63"
  shows "is_i64 (sum_list xs)"
proof -
  have "\<And>x. x \<in> set xs \<Longrightarrow> - B \<le> x \<and> x \<le> B" using assms(1) by force
  from sum_list_bounds [OF this]
  have "- (int (length xs) * B) \<le> sum_list xs" "sum_list xs \<le> int (length xs) * B" by auto
  with assms(2) show ?thesis by (simp add: is_i64_def)
qed

lemma length_trimmed_core: "length (trimmed_core col) \<le> length col"
  by (simp add: trimmed_core_def Let_def)

lemma trimmed_mean_col_robust:
  assumes "3 \<le> length col" and "mset col = mset honest + mset adv"
    and "length adv \<le> trim_count (length col)"
    and "\<And>x. x \<in> set col \<Longrightarrow> \<bar>x\<bar> \<le> B" and "int (length col) * B < 2 ^ 63"
    and "\<And>h. h \<in> set honest \<Longrightarrow> a \<le> h \<and> h \<le> b"
  shows "a \<le> trimmed_mean_col col \<and> trimmed_mean_col col \<le> b"
proof -
  let ?core = "trimmed_core col"
  have "0 \<le> B" using assms(1,4) by (cases col) fastforce+
  then have "int (length ?core) * B \<le> int (length col) * B"
    using length_trimmed_core [of col] by (intro mult_right_mono) auto
  then have "is_i64 (sum_list ?core)"
    using assms(4,5) trimmed_core_subset [of col] by (intro no_overflow [of _ B]) auto
  then have eq: "trimmed_mean_col col = sum_list ?core div int (length ?core)"
    by (simp add: trimmed_mean_col_def Let_def)
  have ne: "?core \<noteq> []" using assms(1) by (intro trimmed_core_neq_Nil) auto
  show ?thesis unfolding eq
  proof (rule mean_bounds [OF ne])
    fix x assume "x \<in> set ?core"
    from core_between_honest [OF assms(1-3) this] assms(6) show "a \<le> x \<and> x \<le> b" by force
  qed
qed

subsection \<open>The aggregate does not depend on the order of the deltas\<close>

lemma sort_eq_if_mset_eq: "mset xs = mset ys \<Longrightarrow> sort xs = sort (ys :: int list)"
  by (rule properties_for_sort) simp_all

lemma trimmed_mean_col_perm: "mset c = mset d \<Longrightarrow> trimmed_mean_col c = trimmed_mean_col d"
proof -
  assume "mset c = mset d"
  then have "sort c = sort d" by (rule sort_eq_if_mset_eq)
  then have "trimmed_core c = trimmed_core d" unfolding trimmed_core_def by (rule arg_cong)
  then show ?thesis by (simp only: trimmed_mean_col_def)
qed

lemma column_perm: "mset ds = mset es \<Longrightarrow> mset (column ds j) = mset (column es j)"
  by (simp add: column_def)

lemma trimmed_mean_int_perm:
  assumes "mset ds = mset es"
  shows "trimmed_mean_int ds = trimmed_mean_int es"
proof (cases ds)
  case Nil
  with assms show ?thesis by simp
next
  case (Cons d ds')
  have s: "set ds = set es" using assms by (rule mset_eq_setD)
  with Cons obtain e es' where es: "es = e # es'" by (cases es) auto
  have col: "trimmed_mean_col (column ds j) = trimmed_mean_col (column es j)" for j
    by (rule trimmed_mean_col_perm [OF column_perm [OF assms]])
  have guard: "(\<exists>x\<in>set ds. length x \<noteq> length d) \<longleftrightarrow> (\<exists>x\<in>set es. length x \<noteq> length e)"
    using s Cons es by (metis list.set_intros(1))
  show ?thesis
  proof (cases "\<exists>x\<in>set ds. length x \<noteq> length d")
    case True
    then show ?thesis using guard by (simp add: trimmed_mean_int_def Cons es)
  next
    case False
    then have "length e = length d" using s es by auto
    with False guard col show ?thesis by (simp add: trimmed_mean_int_def Cons es)
  qed
qed

subsection \<open>The paged transition, coordinate by coordinate\<close>

text \<open>The bodies that claim a page, and what they do to one coordinate of it.\<close>

definition claimers :: "weights list \<Rightarrow> int list list \<Rightarrow> int \<Rightarrow> weights list" where
  "claimers bodies claims page_id =
     map fst (filter (\<lambda>(b, c). page_id \<in> set c) (zip bodies claims))"

definition coord_update :: "weights list \<Rightarrow> int list list \<Rightarrow> int \<Rightarrow> nat \<Rightarrow> int \<Rightarrow> int" where
  "coord_update bodies claims page_id j x =
     (let bs = claimers bodies claims page_id
      in if bs = [] then x else wrap64 (x + trimmed_mean_col (column bs j)))"

definition span_ok :: "nat \<Rightarrow> span \<Rightarrow> bool" where
  "span_ok n sp \<longleftrightarrow> 0 \<le> fst sp \<and> fst sp \<le> snd sp \<and> snd sp \<le> int n"

definition in_span :: "nat \<Rightarrow> span \<Rightarrow> bool" where
  "in_span j sp \<longleftrightarrow> fst sp \<le> int j \<and> int j < snd sp"

lemma slice_index_int [simp]: "a \<le> n \<Longrightarrow> slice_index n (int a) = a"
  by (simp add: slice_index_def)

lemma contributors_eq:
  "contributors bodies claims p sp = map (\<lambda>b. py_slice b (fst sp) (snd sp)) (claimers bodies claims p)"
  by (simp add: contributors_def claimers_def comp_def case_prod_beta)

lemma set_claimers: "set (claimers bodies claims p) \<subseteq> set bodies"
  by (auto simp: claimers_def dest: set_zip_leftD)

lemma trimmed_mean_slices:
  assumes "bs \<noteq> []" and "\<And>b. b \<in> set bs \<Longrightarrow> length b = n" and "a \<le> e" and "e \<le> n"
  shows "trimmed_mean_int (map (\<lambda>b. take (e - a) (drop a b)) bs) =
     Inr (map (\<lambda>k. trimmed_mean_col (column bs (a + k))) [0..<e - a])"
proof -
  obtain c cs where bs: "bs = c # cs" using assms(1) by (cases bs) auto
  have col: "column (map (\<lambda>b. take (e - a) (drop a b)) bs) k = column bs (a + k)" if "k < e - a" for k
    using that assms(2,4) by (auto simp: column_def)
  have "trimmed_mean_int (map (\<lambda>b. take (e - a) (drop a b)) bs) =
     Inr (map (\<lambda>k. trimmed_mean_col (column (map (\<lambda>b. take (e - a) (drop a b)) bs) k)) [0..<e - a])"
    using assms by (auto simp: trimmed_mean_int_def bs)
  then show ?thesis using col by simp
qed

lemma page_step_coord:
  assumes "length w = n" and "\<forall>b\<in>set bodies. length b = n" and "span_ok n sp"
  shows "\<exists>w'. page_step bodies claims (i, sp) w = Inr w' \<and> length w' = n \<and>
     (\<forall>j<n. w' ! j = (if in_span j sp then coord_update bodies claims (int i) j (w ! j) else w ! j))"
proof -
  define a e where "a = nat (fst sp)" and "e = nat (snd sp)"
  have ae: "fst sp = int a" "snd sp = int e" "a \<le> e" "e \<le> n"
    using assms(3) by (auto simp: span_ok_def a_def e_def)
  let ?bs = "claimers bodies claims (int i)"
  have sl: "py_slice b (int a) (int e) = take (e - a) (drop a b)" if "length b = n" for b :: weights
    using that ae by (simp add: py_slice_def)
  have lens: "\<And>b. b \<in> set ?bs \<Longrightarrow> length b = n"
    using assms(2) set_claimers [of bodies claims "int i"] by blast
  have cs: "contributors bodies claims (int i) sp = map (\<lambda>b. take (e - a) (drop a b)) ?bs"
    using lens by (simp add: contributors_eq ae sl)
  show ?thesis
  proof (cases "?bs = []")
    case True
    then show ?thesis using assms(1) by (simp add: page_step_def cs coord_update_def)
  next
    case False
    let ?m = "map (\<lambda>k. trimmed_mean_col (column ?bs (a + k))) [0..<e - a]"
    let ?v = "map2 (\<lambda>x y. wrap64 (x + y)) (take (e - a) (drop a w)) ?m"
    have m: "trimmed_mean_int (map (\<lambda>b. take (e - a) (drop a b)) ?bs) = Inr ?m"
      by (rule trimmed_mean_slices [OF False lens]) (use ae in auto)
    have v: "vec_add (take (e - a) (drop a w)) ?m = Inr ?v"
      using assms(1) ae by (simp add: vec_add_def)
    have s: "set_slice w (int a) (int e) ?v = Inr (take a w @ ?v @ drop e w)"
      using assms(1) ae by (simp add: set_slice_def max_def)
    have "page_step bodies claims (i, sp) w = Inr (take a w @ ?v @ drop e w)"
      using False by (simp add: page_step_def cs m ae sl [OF assms(1)] v s)
    moreover have "(take a w @ ?v @ drop e w) ! j =
        (if in_span j sp then coord_update bodies claims (int i) j (w ! j) else w ! j)" if "j < n" for j
      using that assms(1) ae False by (auto simp: nth_append in_span_def coord_update_def)
    ultimately show ?thesis using assms(1) ae by simp
  qed
qed

lemma page_loop_coord:
  assumes "length w = n" and "\<forall>b\<in>set bodies. length b = n" and "\<forall>sp\<in>set spans. span_ok n sp"
  shows "\<exists>w'. foldE (page_step bodies claims) (List.enumerate k spans) w = Inr w' \<and> length w' = n \<and>
     (\<forall>j<n. w' ! j = fold (\<lambda>(i, sp) x. if in_span j sp then coord_update bodies claims (int i) j x else x)
        (List.enumerate k spans) (w ! j))"
  using assms
proof (induction spans arbitrary: w k)
  case (Cons sp spans)
  from page_step_coord [OF Cons.prems(1,2), of sp claims k] Cons.prems(3)
  obtain u where u: "page_step bodies claims (k, sp) w = Inr u" "length u = n"
    "\<forall>j<n. u ! j = (if in_span j sp then coord_update bodies claims (int k) j (w ! j) else w ! j)"
    by auto
  from Cons.IH [OF u(2) Cons.prems(2), of "Suc k"] Cons.prems(3)
  show ?case using u by (auto split: if_splits)
qed simp

lemma fold_enumerate_outside:
  "(\<forall>sp\<in>set spans. \<not> in_span j sp) \<Longrightarrow>
     fold (\<lambda>(i, sp) x. if in_span j sp then f i x else x) (List.enumerate k spans) x = x"
  by (induction spans arbitrary: k) auto

text \<open>Pages that do not overlap: a coordinate lies in at most one of them.\<close>

definition disjoint_spans :: "span list \<Rightarrow> bool" where
  "disjoint_spans spans \<longleftrightarrow> sorted_wrt (\<lambda>s t. snd s \<le> fst t) spans"

lemma fold_enumerate_inside:
  assumes "disjoint_spans spans" and "i < length spans" and "in_span j (spans ! i)"
  shows "fold (\<lambda>(i, sp) x. if in_span j sp then f i x else x) (List.enumerate k spans) x = f (k + i) x"
  using assms
proof (induction spans arbitrary: k i x)
  case (Cons sp spans)
  have d: "disjoint_spans spans" "\<forall>t\<in>set spans. snd sp \<le> fst t"
    using Cons.prems(1) by (auto simp: disjoint_spans_def)
  show ?case
  proof (cases i)
    case 0
    then have "\<forall>t\<in>set spans. \<not> in_span j t" using Cons.prems(3) d(2) by (force simp: in_span_def)
    then show ?thesis using 0 Cons.prems(3) by (simp add: fold_enumerate_outside)
  next
    case (Suc i')
    then have "spans ! i' \<in> set spans" "in_span j (spans ! i')" using Cons.prems(2,3) by auto
    then have "\<not> in_span j sp" using d(2) by (force simp: in_span_def)
    then show ?thesis using Cons.IH [OF d(1), of i' "Suc k"] Cons.prems Suc by simp
  qed
qed simp

lemma paged_transition_spec:
  assumes "length w = n" and "\<forall>b\<in>set bodies. length b = n" and "\<forall>sp\<in>set spans. span_ok n sp"
    and "disjoint_spans spans"
  shows "\<exists>w'. paged_transition w bodies claims spans = Inr w' \<and> length w' = n \<and>
     (\<forall>i<length spans. \<forall>j<n. in_span j (spans ! i) \<longrightarrow>
        w' ! j = coord_update bodies claims (int i) j (w ! j)) \<and>
     (\<forall>j<n. (\<forall>sp\<in>set spans. \<not> in_span j sp) \<longrightarrow> w' ! j = w ! j)"
proof -
  from page_loop_coord [OF assms(1-3), of claims 0]
  obtain w' where w': "foldE (page_step bodies claims) (List.enumerate 0 spans) w = Inr w'" "length w' = n"
    "\<forall>j<n. w' ! j = fold (\<lambda>(i, sp) x. if in_span j sp then coord_update bodies claims (int i) j x else x)
        (List.enumerate 0 spans) (w ! j)" by blast
  have "w' ! j = coord_update bodies claims (int i) j (w ! j)"
    if "i < length spans" "j < n" "in_span j (spans ! i)" for i j
    using w'(3) that fold_enumerate_inside [OF assms(4) that(1,3),
        where f = "\<lambda>i. coord_update bodies claims (int i) j" and k = 0] by simp
  moreover have "w' ! j = w ! j" if "j < n" "\<forall>sp\<in>set spans. \<not> in_span j sp" for j
    using w'(3) that fold_enumerate_outside [OF that(2),
        where f = "\<lambda>i. coord_update bodies claims (int i) j" and k = 0] by simp
  ultimately show ?thesis using w'(1,2) by (auto simp: paged_transition_def)
qed

subsection \<open>The linear chain: heights, roots and replay\<close>

inductive chain_reach :: "prims \<Rightarrow> weights \<Rightarrow> chain \<Rightarrow> bool" for P w0 where
  chain_start: "chain_reach P w0 (new_chain w0)"
| chain_block: "chain_reach P w0 c \<Longrightarrow> chain_apply_block P ds ids c = Inr (b, c') \<Longrightarrow>
    chain_reach P w0 c'"

lemma chain_apply_block_eq_Inr:
  "chain_apply_block P ds ids c = Inr (b, c') \<longleftrightarrow>
     (\<exists>w. outer_step (w_int c) ds = Inr w \<and>
        b = \<lparr>cb_height = chain_height c + 1, cb_deltas = ds, cb_miner_ids = ids, cb_root = state_root P w\<rparr> \<and>
        c' = c\<lparr>w_int := w, chain_blocks := chain_blocks c @ [b]\<rparr>)"
  by (auto simp: chain_apply_block_def res_simps Let_def)

lemma kept_deltas_all:
  assumes "length (cb_deltas b) \<le> length (cb_miner_ids b)"
  shows "kept_deltas {} b = cb_deltas b"
proof -
  have "kept_deltas {} b = map fst (zip (cb_deltas b) (cb_miner_ids b))"
    unfolding kept_deltas_def by (rule arg_cong [of _ _ "map fst"]) (simp add: case_prod_beta)
  then show ?thesis using assms by (simp add: map_fst_zip_take)
qed

lemma chain_reach_heights:
  "chain_reach P w0 c \<Longrightarrow> map cb_height (chain_blocks c) = [1..<Suc (chain_height c)]"
proof (induction rule: chain_reach.induct)
  case (chain_block c ds ids b c')
  then show ?case by (auto simp: chain_apply_block_eq_Inr chain_height_def)
qed (simp add: new_chain_def chain_height_def)

lemma chain_reach_replay:
  "chain_reach P w0 c \<Longrightarrow>
     (\<forall>b\<in>set (chain_blocks c). length (cb_deltas b) \<le> length (cb_miner_ids b)) \<Longrightarrow>
     genesis_int c = w0 \<and> chain_replay {} c = Inr (w_int c)"
proof (induction rule: chain_reach.induct)
  case (chain_block c ds ids b c')
  then obtain w where w: "outer_step (w_int c) ds = Inr w"
    and b: "cb_deltas b = ds" "cb_miner_ids b = ids"
    and c': "c' = c\<lparr>w_int := w, chain_blocks := chain_blocks c @ [b]\<rparr>"
    by (auto simp: chain_apply_block_eq_Inr)
  with chain_block have "genesis_int c = w0" "chain_replay {} c = Inr (w_int c)" by auto
  moreover have "kept_deltas {} b = ds" using chain_block.prems b c' by (simp add: kept_deltas_all)
  ultimately show ?case using w by (simp add: chain_replay_def c' foldE_append)
qed (simp add: new_chain_def chain_replay_def)

end
