(* ===== verification/Merkle.thy ===== *)
theory Merkle
  imports Crypto
begin

section \<open>Merkle trees with inclusion proofs (rig/merkle.py)\<close>

text \<open>
  The tree over the weight pages: domain-separated leaf and node hashes, construction
  level by level with an odd node hashed with itself, inclusion proofs and their
  verification. The theory proves that every leaf's proof verifies, that a verified page is
  a committed page unless the digest collides on the inputs of the tree and the path, and that the root fixes the
  leaves once their number is fixed, which it is not by the root alone.
\<close>

subsection \<open>The tree\<close>

definition leaf_hash :: "prims \<Rightarrow> bytes \<Rightarrow> bytes" where
  "leaf_hash P page_bytes = sha256 P (0 # page_bytes)"

definition node_hash :: "prims \<Rightarrow> bytes \<Rightarrow> bytes \<Rightarrow> bytes" where
  "node_hash P a b = sha256 P (1 # a @ b)"

fun next_level :: "prims \<Rightarrow> bytes list \<Rightarrow> bytes list" where
  "next_level P [] = []"
| "next_level P [a] = [node_hash P a a]"
| "next_level P (a # b # r) = node_hash P a b # next_level P r"

lemma length_next_level: "length (next_level P l) = (length l + 1) div 2"
  by (induction P l rule: next_level.induct) auto

text \<open>The loop \<^verbatim>\<open>while len(level) > 1\<close>; each pass halves the level.\<close>

function levels_from :: "prims \<Rightarrow> bytes list \<Rightarrow> bytes list list" where
  "levels_from P level = (if 1 < length level then level # levels_from P (next_level P level) else [level])"
  by pat_completeness auto
termination
  by (relation "measure (\<lambda>(P, level). length level)") (auto simp: length_next_level)

declare levels_from.simps [simp del]

definition build :: "prims \<Rightarrow> bytes list \<Rightarrow> bytes list list res" where
  "build P leaves =
     (if leaves = [] then Inl AssertionError else Inr (levels_from P (map (leaf_hash P) leaves)))"

definition root :: "prims \<Rightarrow> bytes list \<Rightarrow> bytes res" where
  "root P leaves = bindE (build P leaves) (\<lambda>levels. Inr (hd (last levels)))"

subsection \<open>Inclusion proofs\<close>

text \<open>List indexing as Python has it: negative indices count from the end.\<close>

definition py_nth :: "'a list \<Rightarrow> int \<Rightarrow> 'a res" where
  "py_nth xs i =
     (if 0 \<le> i \<and> i < int (length xs) then Inr (xs ! nat i)
      else if i < 0 \<and> - int (length xs) \<le> i then Inr (xs ! nat (int (length xs) + i))
      else Inl IndexError)"

type_synonym path = "(string \<times> bytes) list"

definition proof_step :: "bytes list \<Rightarrow> int \<Rightarrow> (string \<times> bytes) res" where
  "proof_step level idx =
     (if idx mod 2 = 0
      then bindE (if idx + 1 < int (length level) then py_nth level (idx + 1) else py_nth level idx)
             (\<lambda>sib. Inr (''R'', sib))
      else bindE (py_nth level (idx - 1)) (\<lambda>sib. Inr (''L'', sib)))"

fun proof_loop :: "bytes list list \<Rightarrow> int \<Rightarrow> path res" where
  "proof_loop [] idx = Inr []"
| "proof_loop (level # levels) idx =
     bindE (proof_step level idx) (\<lambda>s. bindE (proof_loop levels (idx div 2)) (\<lambda>p. Inr (s # p)))"

definition merkle_proof :: "bytes list list \<Rightarrow> int \<Rightarrow> path res" where
  "merkle_proof levels index = proof_loop (butlast levels) index"

fun climb :: "prims \<Rightarrow> path \<Rightarrow> bytes \<Rightarrow> bytes" where
  "climb P [] h = h"
| "climb P ((side, sib) # path) h =
     climb P path (if side = ''L'' then node_hash P sib h else node_hash P h sib)"

definition merkle_verify :: "prims \<Rightarrow> bytes \<Rightarrow> int \<Rightarrow> path \<Rightarrow> bytes \<Rightarrow> bool" where
  "merkle_verify P page_bytes index path expected_root \<longleftrightarrow>
     climb P path (leaf_hash P page_bytes) = expected_root"

subsection \<open>Every leaf has a proof that verifies\<close>

lemma next_level_nth:
  "j < length (next_level P l) \<Longrightarrow>
     next_level P l ! j =
       node_hash P (l ! (2 * j)) (if 2 * j + 1 < length l then l ! (2 * j + 1) else l ! (2 * j))"
proof (induction P l arbitrary: j rule: next_level.induct)
  case (3 P a b r)
  then show ?case by (cases j) auto
qed auto

lemma py_nth_nat [simp]: "i < length xs \<Longrightarrow> py_nth xs (int i) = Inr (xs ! i)"
  by (simp add: py_nth_def)

lemma proof_step_climbs:
  assumes "i < length l"
  shows "\<exists>side sib. proof_step l (int i) = Inr (side, sib) \<and>
     (if side = ''L'' then node_hash P sib (l ! i) else node_hash P (l ! i) sib) =
       next_level P l ! (i div 2)"
proof -
  have j: "i div 2 < length (next_level P l)" using assms by (auto simp: length_next_level)
  show ?thesis
  proof (cases "even i")
    case True
    then obtain k where k: "i = 2 * k" by (rule evenE)
    then have m: "int i mod 2 = 0" by simp
    have p: "py_nth l (int i + 1) = Inr (l ! (2 * k + 1))" if "2 * k + 1 < length l"
      using py_nth_nat [OF that] k by (simp add: add.commute)
    have g: "int i + 1 < int (length l) \<longleftrightarrow> 2 * k + 1 < length l" using k by linarith
    let ?sib = "if 2 * k + 1 < length l then l ! (2 * k + 1) else l ! i"
    have "proof_step l (int i) = Inr (''R'', ?sib)"
      unfolding proof_step_def g using m p assms by simp
    moreover have "next_level P l ! (i div 2) = node_hash P (l ! i) ?sib"
      using next_level_nth [OF j] k by simp
    ultimately show ?thesis by auto
  next
    case False
    then obtain k where k: "i = 2 * k + 1" by (rule oddE)
    have m: "int i mod 2 = 1" using k by simp
    have p: "py_nth l (int i - 1) = Inr (l ! (2 * k))"
      using py_nth_nat [of "2 * k" l] assms k by simp
    have "proof_step l (int i) = Inr (''L'', l ! (2 * k))"
      unfolding proof_step_def m p by simp
    moreover have "next_level P l ! (i div 2) = node_hash P (l ! (2 * k)) (l ! i)"
      using next_level_nth [OF j] k assms by simp
    ultimately show ?thesis by auto
  qed
qed

lemma levels_from_neq_Nil [simp]: "levels_from P l \<noteq> []"
  by (subst levels_from.simps) simp

lemma proof_climbs:
  "i < length l \<Longrightarrow>
     \<exists>p. merkle_proof (levels_from P l) (int i) = Inr p \<and> climb P p (l ! i) = hd (last (levels_from P l))"
proof (induction P l arbitrary: i rule: levels_from.induct)
  case (1 P l)
  show ?case
  proof (cases "1 < length l")
    case True
    let ?n = "next_level P l"
    obtain side sib where s: "proof_step l (int i) = Inr (side, sib)"
      "(if side = ''L'' then node_hash P sib (l ! i) else node_hash P (l ! i) sib) = ?n ! (i div 2)"
      using proof_step_climbs [OF \<open>i < length l\<close>] by blast
    have "i div 2 < length ?n" using \<open>i < length l\<close> by (auto simp: length_next_level)
    from "1.IH" [OF True this] obtain p where
      p: "proof_loop (butlast (levels_from P ?n)) (int (i div 2)) = Inr p"
        "climb P p (?n ! (i div 2)) = hd (last (levels_from P ?n))"
      by (auto simp: merkle_proof_def)
    have "int i div 2 = int (i div 2)" by simp
    then have "merkle_proof (levels_from P l) (int i) = Inr ((side, sib) # p)"
      using True s(1) p(1) by (simp add: merkle_proof_def levels_from.simps [of P l])
    moreover have "climb P ((side, sib) # p) (l ! i) = hd (last (levels_from P l))"
      using True s(2) p(2) by (simp add: levels_from.simps [of P l])
    ultimately show ?thesis by blast
  next
    case False
    with "1.prems" obtain a where "l = [a]" "i = 0" by (cases l) auto
    then show ?thesis by (simp add: merkle_proof_def levels_from.simps)
  qed
qed

lemma merkle_complete:
  assumes "i < length leaves"
  shows "\<exists>levels p r. build P leaves = Inr levels \<and> merkle_proof levels (int i) = Inr p \<and>
     root P leaves = Inr r \<and> merkle_verify P (leaves ! i) k p r"
  using assms proof_climbs [of i "map (leaf_hash P) leaves" P]
  by (auto simp: build_def root_def merkle_verify_def)

subsection \<open>The inputs a tree and a path hash\<close>

fun level_inputs :: "bytes list \<Rightarrow> bytes set" where
  "level_inputs [] = {}"
| "level_inputs [a] = {1 # a @ a}"
| "level_inputs (a # b # r) = insert (1 # a @ b) (level_inputs r)"

definition tree_inputs :: "prims \<Rightarrow> bytes list \<Rightarrow> bytes set" where
  "tree_inputs P leaves = (#) 0 ` set leaves \<union>
     (\<Union>level\<in>set (butlast (levels_from P (map (leaf_hash P) leaves))). level_inputs level)"

fun climb_inputs :: "prims \<Rightarrow> path \<Rightarrow> bytes \<Rightarrow> bytes set" where
  "climb_inputs P [] h = {}"
| "climb_inputs P ((side, sib) # path) h =
     (if side = ''L'' then insert (1 # sib @ h) (climb_inputs P path (node_hash P sib h))
      else insert (1 # h @ sib) (climb_inputs P path (node_hash P h sib)))"

definition path_inputs :: "prims \<Rightarrow> bytes \<Rightarrow> path \<Rightarrow> bytes set" where
  "path_inputs P page p = insert (0 # page) (climb_inputs P p (leaf_hash P page))"

text \<open>The digest is broken on a set of inputs when it collides there or is not 32 bytes long.\<close>

definition hash_broken :: "prims \<Rightarrow> bytes set \<Rightarrow> bool" where
  "hash_broken P S \<longleftrightarrow> collides_on P S \<or> (\<exists>b. length (sha256 P b) \<noteq> 32)"

lemma levels_butlast:
  "butlast (levels_from P l) = (if 1 < length l then l # butlast (levels_from P (next_level P l)) else [])"
  by (subst levels_from.simps) (auto simp: levels_from.simps [of P "next_level P l"])

subsection \<open>A verified page is a committed page\<close>

lemma sha256_inj: "sha256 P a = sha256 P b \<Longrightarrow> \<not> hash_broken P S \<Longrightarrow> a \<in> S \<Longrightarrow> b \<in> S \<Longrightarrow> a = b"
  by (auto simp: hash_broken_def collides_on_def)

lemma length_leaf_hash: "\<not> hash_broken P S \<Longrightarrow> length (leaf_hash P b) = 32"
  by (simp add: hash_broken_def leaf_hash_def)

lemma length_node_hash: "\<not> hash_broken P S \<Longrightarrow> length (node_hash P a b) = 32"
  by (simp add: hash_broken_def node_hash_def)

lemma leaf_hash_inj:
  "leaf_hash P a = leaf_hash P b \<Longrightarrow> \<not> hash_broken P S \<Longrightarrow> 0 # a \<in> S \<Longrightarrow> 0 # b \<in> S \<Longrightarrow> a = b"
  using sha256_inj [of P "0 # a" "0 # b" S] by (simp add: leaf_hash_def)

lemma leaf_neq_node: "\<not> hash_broken P S \<Longrightarrow> 0 # x \<in> S \<Longrightarrow> 1 # a @ b \<in> S \<Longrightarrow> leaf_hash P x \<noteq> node_hash P a b"
  using sha256_inj [of P "0 # x" "1 # a @ b" S] by (auto simp: leaf_hash_def node_hash_def)

lemma node_hash_inj:
  assumes "node_hash P a b = node_hash P c d" and "\<not> hash_broken P S" "1 # a @ b \<in> S" "1 # c @ d \<in> S"
    and "length a = 32 \<and> length c = 32 \<or> length b = 32 \<and> length d = 32"
  shows "a = c \<and> b = d"
proof -
  have "a @ b = c @ d" using sha256_inj [OF _ assms(2-4)] assms(1) by (simp add: node_hash_def)
  with assms(5) show ?thesis by auto
qed

text \<open>The hashes of a tree: those of the leaves, and those of pairs of tree hashes hashed in \<open>S\<close>.\<close>

inductive_set tree_hashes :: "prims \<Rightarrow> bytes set \<Rightarrow> bytes set \<Rightarrow> bytes set" for P S L where
  leaf: "x \<in> L \<Longrightarrow> 0 # x \<in> S \<Longrightarrow> leaf_hash P x \<in> tree_hashes P S L"
| node: "a \<in> tree_hashes P S L \<Longrightarrow> b \<in> tree_hashes P S L \<Longrightarrow> 1 # a @ b \<in> S \<Longrightarrow> node_hash P a b \<in> tree_hashes P S L"

lemma tree_hashes_length: "h \<in> tree_hashes P S L \<Longrightarrow> \<not> hash_broken P S \<Longrightarrow> length h = 32"
  by (induction rule: tree_hashes.induct) (auto simp: length_leaf_hash length_node_hash)

lemma tree_hashes_leafD:
  "leaf_hash P x \<in> tree_hashes P S L \<Longrightarrow> \<not> hash_broken P S \<Longrightarrow> 0 # x \<in> S \<Longrightarrow> x \<in> L"
  by (erule tree_hashes.cases) (auto dest: leaf_hash_inj leaf_neq_node)

lemma tree_hashes_nodeD:
  assumes "node_hash P a b \<in> tree_hashes P S L" "\<not> hash_broken P S" "1 # a @ b \<in> S" "length a = 32 \<or> length b = 32"
  shows "a \<in> tree_hashes P S L \<and> b \<in> tree_hashes P S L"
  using assms(1)
proof (cases rule: tree_hashes.cases)
  case (leaf x)
  with leaf_neq_node assms(2,3) show ?thesis by metis
next
  case (node c d)
  then have "length c = 32" "length d = 32" using tree_hashes_length assms(2) by auto
  with node_hash_inj [OF node(1) assms(2,3) node(4)] assms(4) node show ?thesis by auto
qed

lemma next_level_tree:
  "set l \<subseteq> tree_hashes P S L \<Longrightarrow> level_inputs l \<subseteq> S \<Longrightarrow> set (next_level P l) \<subseteq> tree_hashes P S L"
  by (induction P l rule: next_level.induct) (auto intro: tree_hashes.node)

lemma last_levels_tree:
  "set l \<subseteq> tree_hashes P S L \<Longrightarrow> l \<noteq> [] \<Longrightarrow> (\<Union>level\<in>set (butlast (levels_from P l)). level_inputs level) \<subseteq> S \<Longrightarrow>
     hd (last (levels_from P l)) \<in> tree_hashes P S L"
proof (induction P l rule: levels_from.induct)
  case (1 P l)
  show ?case
  proof (cases "1 < length l")
    case True
    then have ne: "next_level P l \<noteq> []" using length_next_level [of P l] by auto
    have "level_inputs l \<subseteq> S" "(\<Union>level\<in>set (butlast (levels_from P (next_level P l))). level_inputs level) \<subseteq> S"
      using "1.prems"(3) True by (auto simp: levels_butlast [of P l])
    then have "hd (last (levels_from P (next_level P l))) \<in> tree_hashes P S L"
      using "1.IH" [OF True next_level_tree ne] "1.prems"(1) by blast
    then show ?thesis using True by (simp add: levels_from.simps [of P l] levels_from.simps [of P "next_level P l"])
  next
    case False
    then have "levels_from P l = [l]" by (simp add: levels_from.simps)
    then show ?thesis using "1.prems" by (cases l) auto
  qed
qed

lemma root_tree:
  assumes "root P leaves = Inr r" and "tree_inputs P leaves \<subseteq> S"
  shows "r \<in> tree_hashes P S (set leaves)"
proof -
  have "set (map (leaf_hash P) leaves) \<subseteq> tree_hashes P S (set leaves)"
    using assms(2) by (auto simp: tree_inputs_def intro!: tree_hashes.leaf)
  from last_levels_tree [OF this] assms show ?thesis
    by (auto simp: root_def build_def tree_inputs_def split: if_splits)
qed

lemma climb_back:
  "climb P p h \<in> tree_hashes P S L \<Longrightarrow> \<not> hash_broken P S \<Longrightarrow> climb_inputs P p h \<subseteq> S \<Longrightarrow> length h = 32 \<Longrightarrow>
     h \<in> tree_hashes P S L"
proof (induction P p h rule: climb.induct)
  case (2 P side sib path h)
  let ?n = "if side = ''L'' then node_hash P sib h else node_hash P h sib"
  have "climb P path ?n \<in> tree_hashes P S L" "climb_inputs P path ?n \<subseteq> S"
    using "2.prems"(1,3) by (simp_all split: if_splits)
  moreover have "length ?n = 32" using length_node_hash [OF "2.prems"(2)] by simp
  ultimately have "?n \<in> tree_hashes P S L" using "2.IH" "2.prems"(2) by blast
  then show ?case
    using tree_hashes_nodeD [OF _ "2.prems"(2), of sib h] tree_hashes_nodeD [OF _ "2.prems"(2), of h sib]
      "2.prems"(3,4) by (simp split: if_splits)
qed simp

lemma merkle_sound:
  assumes "merkle_verify P page k p r" and "root P leaves = Inr r"
  shows "page \<in> set leaves \<or> hash_broken P (tree_inputs P leaves \<union> path_inputs P page p)"
proof (rule disjCI)
  let ?S = "tree_inputs P leaves \<union> path_inputs P page p"
  assume ok: "\<not> hash_broken P ?S"
  have "climb P p (leaf_hash P page) \<in> tree_hashes P ?S (set leaves)"
    using assms root_tree by (simp add: merkle_verify_def)
  moreover have "climb_inputs P p (leaf_hash P page) \<subseteq> ?S" "0 # page \<in> ?S" by (auto simp: path_inputs_def)
  ultimately have "leaf_hash P page \<in> tree_hashes P ?S (set leaves)"
    using climb_back [OF _ ok] length_leaf_hash [OF ok] by blast
  then show "page \<in> set leaves" using \<open>0 # page \<in> ?S\<close> by (rule tree_hashes_leafD [OF _ ok])
qed

subsection \<open>What the root binds\<close>

lemma next_level_digests: "\<not> hash_broken P S \<Longrightarrow> h \<in> set (next_level P l) \<Longrightarrow> length h = 32"
  by (induction P l rule: next_level.induct) (auto simp: length_node_hash)

lemma next_level_inj:
  "length l = length m \<Longrightarrow> next_level P l = next_level P m \<Longrightarrow> \<not> hash_broken P S \<Longrightarrow>
     level_inputs l \<union> level_inputs m \<subseteq> S \<Longrightarrow> \<forall>h\<in>set l \<union> set m. length h = 32 \<Longrightarrow> l = m"
proof (induction P l arbitrary: m rule: next_level.induct)
  case (2 P a)
  then obtain b where "m = [b]" by (cases m) auto
  with 2 show ?case by (auto dest: node_hash_inj)
next
  case (3 P a b r)
  then obtain c d s where m: "m = c # d # s" by (cases m; cases "tl m") auto
  with 3 have "a = c \<and> b = d" by (intro node_hash_inj [of P a b c d S]) auto
  with 3 m show ?case by auto
qed simp

lemma levels_from_inj:
  "length l = length m \<Longrightarrow> l \<noteq> [] \<Longrightarrow> hd (last (levels_from P l)) = hd (last (levels_from P m)) \<Longrightarrow>
     \<not> hash_broken P S \<Longrightarrow> (\<Union>v\<in>set (butlast (levels_from P l)) \<union> set (butlast (levels_from P m)). level_inputs v) \<subseteq> S \<Longrightarrow>
     \<forall>h\<in>set l \<union> set m. length h = 32 \<Longrightarrow> l = m"
proof (induction P l arbitrary: m rule: levels_from.induct)
  case (1 P l)
  show ?case
  proof (cases "1 < length l")
    case True
    then have m: "1 < length m" using "1.prems"(1) by simp
    have len: "length (next_level P l) = length (next_level P m)"
      using "1.prems"(1) by (simp add: length_next_level)
    have ne: "next_level P l \<noteq> []" using True length_next_level [of P l] by auto
    have top: "hd (last (levels_from P (next_level P l))) = hd (last (levels_from P (next_level P m)))"
      using True m "1.prems"(3) by (simp add: levels_from.simps [of P l] levels_from.simps [of P m])
    have sub: "level_inputs l \<union> level_inputs m \<subseteq> S"
      "(\<Union>v\<in>set (butlast (levels_from P (next_level P l))) \<union> set (butlast (levels_from P (next_level P m))). level_inputs v) \<subseteq> S"
      using "1.prems"(5) True m by (auto simp: levels_butlast [of P l] levels_butlast [of P m])
    have dig: "\<forall>h\<in>set (next_level P l) \<union> set (next_level P m). length h = 32"
      using next_level_digests [OF "1.prems"(4)] by blast
    have "next_level P l = next_level P m"
      by (rule "1.IH" [OF True len ne top "1.prems"(4) sub(2) dig])
    then show ?thesis using next_level_inj [OF "1.prems"(1) _ "1.prems"(4) sub(1) "1.prems"(6)] by blast
  next
    case False
    then have "length l = 1" using 1 by (cases l) auto
    then obtain a b where "l = [a]" "m = [b]" using "1.prems"(1) by (auto simp: length_Suc_conv)
    then show ?thesis using "1.prems"(3) by (simp add: levels_from.simps)
  qed
qed

lemma root_inj:
  assumes "root P xs = Inr r" "root P ys = Inr r" "length xs = length ys"
  shows "xs = ys \<or> hash_broken P (tree_inputs P xs \<union> tree_inputs P ys)"
proof (rule disjCI)
  let ?S = "tree_inputs P xs \<union> tree_inputs P ys"
  assume ok: "\<not> hash_broken P ?S"
  have eq: "map (leaf_hash P) xs = map (leaf_hash P) ys"
  proof (rule levels_from_inj)
    show "hd (last (levels_from P (map (leaf_hash P) xs))) = hd (last (levels_from P (map (leaf_hash P) ys)))"
      and "map (leaf_hash P) xs \<noteq> []"
      using assms by (auto simp: root_def build_def res_simps split: if_splits)
    show "\<not> hash_broken P ?S" by (rule ok)
  qed (use assms(3) ok in \<open>auto simp: length_leaf_hash tree_inputs_def\<close>)
  have "x = y" if "x \<in> set xs" "y \<in> set ys" "leaf_hash P x = leaf_hash P y" for x y
    using leaf_hash_inj [OF that(3) ok] that by (auto simp: tree_inputs_def)
  with eq show "xs = ys" by (rule list.inj_map_strong [rotated])
qed

text \<open>A last leaf repeated on an odd level leaves the root unchanged.\<close>

lemma next_level_duplicate: "odd (length l) \<Longrightarrow> next_level P (l @ [last l]) = next_level P l"
  by (induction P l rule: next_level.induct) (auto elim: oddE)

lemma root_duplicate_last:
  assumes "odd (length leaves)" and "1 < length leaves"
  shows "root P (leaves @ [last leaves]) = root P leaves"
proof -
  let ?l = "map (leaf_hash P) leaves"
  have ne: "leaves \<noteq> []" using assms(2) by auto
  then have m: "map (leaf_hash P) (leaves @ [last leaves]) = ?l @ [last ?l]" by (simp add: last_map)
  have "next_level P (?l @ [last ?l]) = next_level P ?l" by (rule next_level_duplicate) (use assms in simp)
  then have "last (levels_from P (?l @ [last ?l])) = last (levels_from P ?l)"
    using assms ne by (simp add: levels_from.simps [of P "?l @ [last ?l]"] levels_from.simps [of P ?l])
  then show ?thesis using ne m by (simp add: root_def build_def)
qed

subsection \<open>The interface: an authenticated vector\<close>

text \<open>
  What the users of the tree (page serving, fraud proofs) rely on: a committed element can be
  opened, and an opening can only show a committed element.
\<close>

locale authenticated_vector =
  fixes commit :: "'a list \<Rightarrow> 'd res" and show_at :: "'a list \<Rightarrow> nat \<Rightarrow> 'p res"
    and accepts :: "'a \<Rightarrow> 'p \<Rightarrow> 'd \<Rightarrow> bool"
    and forged :: "'a list \<Rightarrow> 'a \<Rightarrow> 'p \<Rightarrow> bool" and clash :: "'a list \<Rightarrow> 'a list \<Rightarrow> bool"
  assumes open_complete:
      "i < length xs \<Longrightarrow> \<exists>d p. commit xs = Inr d \<and> show_at xs i = Inr p \<and> accepts (xs ! i) p d"
    and open_sound: "accepts x p d \<Longrightarrow> commit xs = Inr d \<Longrightarrow> x \<in> set xs \<or> forged xs x p"
    and binding: "commit xs = Inr d \<Longrightarrow> commit ys = Inr d \<Longrightarrow> length xs = length ys \<Longrightarrow> xs = ys \<or> clash xs ys"
begin

lemma accepts_iff:
  assumes "commit xs = Inr d"
  shows "(\<exists>p. accepts x p d \<and> \<not> forged xs x p) \<longrightarrow> x \<in> set xs"
    and "x \<in> set xs \<longrightarrow> (\<exists>p. accepts x p d)"
  using assms open_complete open_sound by (blast, metis in_set_conv_nth sum.inject(2))

text \<open>An opening of one vector, under the commitment of another, shows an element of both.\<close>

lemma shared_element:
  assumes "commit xs = Inr d" and "commit ys = Inr d" and "i < length xs"
  shows "\<exists>p. show_at xs i = Inr p \<and> (xs ! i \<in> set ys \<or> forged ys (xs ! i) p)"
  using open_complete [OF assms(3)] open_sound [OF _ assms(2)] assms(1) by auto

end

definition open_leaf :: "prims \<Rightarrow> bytes list \<Rightarrow> nat \<Rightarrow> path res" where
  "open_leaf P leaves i = bindE (build P leaves) (\<lambda>levels. merkle_proof levels (int i))"

interpretation merkle_vec: authenticated_vector
  "root P" "open_leaf P" "\<lambda>x p d. merkle_verify P x 0 p d"
  "\<lambda>xs x p. hash_broken P (tree_inputs P xs \<union> path_inputs P x p)"
  "\<lambda>xs ys. hash_broken P (tree_inputs P xs \<union> tree_inputs P ys)" for P
proof unfold_locales
  fix i xs assume "i < length (xs :: bytes list)"
  from merkle_complete [OF this, of P 0]
  show "\<exists>d p. root P xs = Inr d \<and> open_leaf P xs i = Inr p \<and> merkle_verify P (xs ! i) 0 p d"
    by (auto simp: open_leaf_def)
qed (rule merkle_sound root_inj, assumption+)+

end
