(* ===== verification/Capacity.thy ===== *)
theory Capacity
  imports Prelude
begin

section \<open>The capacity retarget (rig/capacity.py)\<close>

text \<open>
  The integer controller that steers the per-delta work quota (the fast knob) and, when
  the quota stays pinned, schedules growth or freezes modules (the slow knob).
  \<open>retarget_decide\<close> is the one decision function; the standalone controller
  \<open>observe_window\<close> here and the consensus fold of \<^verbatim>\<open>Model_State\<close> both call it, and
  both rely on it through the interface \<open>quota_controller\<close>.
\<close>

subsection \<open>Constants and the decision\<close>

definition QUOTA_ONE_4DP :: int where "QUOTA_ONE_4DP = 10000"
definition QUOTA_MIN_4DP :: int where "QUOTA_MIN_4DP = 2500"
definition QUOTA_MAX_4DP :: int where "QUOTA_MAX_4DP = 80000"
definition TARGET_DELTAS :: int where "TARGET_DELTAS = 8"
definition DAMP_DIV :: int where "DAMP_DIV = 4"
definition STALE_CEILING_4DP :: int where "STALE_CEILING_4DP = 2000"
definition K_SUSTAIN :: int where "K_SUSTAIN = 3"
definition GROWTH_BOUND :: int where "GROWTH_BOUND = 1"
definition ANNOUNCE_LEAD :: int where "ANNOUNCE_LEAD = 2"

text \<open>The keyword arguments of \<^verbatim>\<open>retarget_decide\<close>.\<close>

record retarget_cfg =
  cfg_quota_min :: int
  cfg_quota_max :: int
  cfg_target_deltas :: int
  cfg_damp_div :: int
  cfg_stale_ceiling :: int
  cfg_k_sustain :: int

definition default_cfg :: retarget_cfg where
  "default_cfg = \<lparr>cfg_quota_min = QUOTA_MIN_4DP, cfg_quota_max = QUOTA_MAX_4DP,
     cfg_target_deltas = TARGET_DELTAS, cfg_damp_div = DAMP_DIV,
     cfg_stale_ceiling = STALE_CEILING_4DP, cfg_k_sustain = K_SUSTAIN\<rparr>"

record decision =
  dec_quota :: int
  dec_pinned :: int
  dec_slack :: int
  dec_schedule :: bool
  dec_freeze :: bool
  dec_thaw_ok :: bool

text \<open>\<^verbatim>\<open>a // b\<close>: floor division, raising on a zero divisor.\<close>

definition py_div :: "int \<Rightarrow> int \<Rightarrow> int res" where
  "py_div a b = (if b = 0 then Inl ZeroDivisionError else Inr (a div b))"

definition retarget_decide ::
  "retarget_cfg \<Rightarrow> int \<Rightarrow> int \<Rightarrow> int \<Rightarrow> int \<Rightarrow> int \<Rightarrow> decision res" where
  "retarget_decide cfg quota pinned_streak slack_streak accepted staleness =
     bindE (if accepted > 0 then py_div (quota * accepted) (cfg_target_deltas cfg)
            else Inr (cfg_quota_min cfg)) (\<lambda>raw.
     bindE (py_div (raw - quota) (cfg_damp_div cfg)) (\<lambda>step.
     let q = min (cfg_quota_max cfg) (max (cfg_quota_min cfg) (quota + step));
         surplus = (cfg_quota_max cfg * 95 div 100 \<le> q \<and> staleness \<le> cfg_stale_ceiling cfg
                    \<and> cfg_target_deltas cfg \<le> accepted);
         deficit = (q \<le> cfg_quota_min cfg * 105 div 100 \<and> accepted < cfg_target_deltas cfg);
         pinned = (if surplus then pinned_streak + 1 else 0);
         slack = (if deficit then slack_streak + 1 else 0)
     in Inr \<lparr>dec_quota = q, dec_pinned = pinned, dec_slack = slack,
          dec_schedule = (cfg_k_sustain cfg \<le> pinned), dec_freeze = (cfg_k_sustain cfg \<le> slack),
          dec_thaw_ok = surplus\<rparr>))"

subsection \<open>The standalone controller\<close>

record window_events =
  ev_window :: int
  ev_grew :: int
  ev_froze :: int
  ev_thawed :: int
  ev_scheduled :: int
  ev_quota :: int
  ev_total :: int
  ev_active :: int

record controller =
  ctl_quota :: int
  ctl_cfg :: retarget_cfg
  ctl_growth_bound :: int
  ctl_announce_lead :: int
  ctl_total_modules :: int
  ctl_active_modules :: int
  ctl_min_active :: int
  ctl_pinned_streak :: int
  ctl_slack_streak :: int
  ctl_pending_growth :: "int list"
  ctl_window_id :: int
  ctl_log :: "window_events list"

definition default_controller :: controller where
  "default_controller = \<lparr>ctl_quota = QUOTA_ONE_4DP, ctl_cfg = default_cfg,
     ctl_growth_bound = GROWTH_BOUND, ctl_announce_lead = ANNOUNCE_LEAD,
     ctl_total_modules = 4, ctl_active_modules = 4, ctl_min_active = 4,
     ctl_pinned_streak = 0, ctl_slack_streak = 0, ctl_pending_growth = [],
     ctl_window_id = 0, ctl_log = []\<rparr>"

text \<open>The phases of \<^verbatim>\<open>observe_window\<close>: activate due growth, apply the decision, thaw or
  schedule, freeze, log.\<close>

definition activate_due :: "controller \<Rightarrow> int \<times> controller" where
  "activate_due c =
     (let due = filter (\<lambda>w. w \<le> ctl_window_id c) (ctl_pending_growth c);
          grew = int (length due) * ctl_growth_bound c
      in (grew, c\<lparr>ctl_total_modules := ctl_total_modules c + grew,
                  ctl_active_modules := ctl_active_modules c + grew,
                  ctl_pending_growth := filter (\<lambda>w. ctl_window_id c < w) (ctl_pending_growth c)\<rparr>))"

definition thaw_or_schedule :: "decision \<Rightarrow> controller \<Rightarrow> int \<times> int \<times> controller" where
  "thaw_or_schedule d c =
     (if dec_thaw_ok d \<and> ctl_active_modules c < ctl_total_modules c
      then (1, 0, c\<lparr>ctl_active_modules := ctl_active_modules c + 1, ctl_pinned_streak := 0\<rparr>)
      else if dec_schedule d \<and> ctl_pending_growth c = []
      then (0, 1, c\<lparr>ctl_pending_growth := [ctl_window_id c + ctl_announce_lead c],
                    ctl_pinned_streak := 0,
                    ctl_quota := (cfg_quota_min (ctl_cfg c) + cfg_quota_max (ctl_cfg c)) div 2\<rparr>)
      else (0, 0, c))"

definition freeze_module :: "decision \<Rightarrow> controller \<Rightarrow> int \<times> controller" where
  "freeze_module d c =
     (if dec_freeze d \<and> ctl_min_active c < ctl_active_modules c
      then (1, c\<lparr>ctl_active_modules := ctl_active_modules c - 1, ctl_slack_streak := 0\<rparr>)
      else (0, c))"

definition observe_window :: "int \<Rightarrow> int \<Rightarrow> controller \<Rightarrow> (window_events \<times> controller) res" where
  "observe_window accepted staleness c0 =
     (let c1 = c0\<lparr>ctl_window_id := ctl_window_id c0 + 1\<rparr>;
          (grew, c2) = activate_due c1
      in bindE (retarget_decide (ctl_cfg c2) (ctl_quota c2) (ctl_pinned_streak c2)
                  (ctl_slack_streak c2) accepted staleness) (\<lambda>d.
         let c3 = c2\<lparr>ctl_quota := dec_quota d, ctl_pinned_streak := dec_pinned d,
                     ctl_slack_streak := dec_slack d\<rparr>;
             (thawed, scheduled, c4) = thaw_or_schedule d c3;
             (froze, c5) = freeze_module d c4;
             ev = \<lparr>ev_window = ctl_window_id c5, ev_grew = grew, ev_froze = froze,
                   ev_thawed = thawed, ev_scheduled = scheduled, ev_quota = ctl_quota c5,
                   ev_total = ctl_total_modules c5, ev_active = ctl_active_modules c5\<rparr>
         in Inr (ev, c5\<lparr>ctl_log := ctl_log c5 @ [ev]\<rparr>)))"

text \<open>\<^verbatim>\<open>simulate\<close> drives the controller with a fleet trace in 1e-2 units.\<close>

definition simulate_step ::
  "int \<Rightarrow> int \<Rightarrow> window_events list \<times> controller \<Rightarrow> (window_events list \<times> controller) res" where
  "simulate_step per_unit fleet st =
     (let (out, c) = st;
          capacity = fleet * per_unit * 100;
          accepted = capacity div max (ctl_quota c) 1;
          load = ctl_active_modules c * 10000 * 100 div (4 * max fleet 1);
          staleness = max 0 (min 10000 (load - 10000));
          accepted = accepted * (10000 - staleness) div 10000
      in bindE (observe_window accepted staleness c) (\<lambda>(ev, c). Inr (out @ [ev], c)))"

definition simulate ::
  "controller \<Rightarrow> int list \<Rightarrow> int \<Rightarrow> (window_events list \<times> controller) res" where
  "simulate c fleet_trace per_unit = foldE (simulate_step per_unit) fleet_trace ([], c)"

subsection \<open>The interface the two callers rely on\<close>

definition cfg_ok :: "retarget_cfg \<Rightarrow> bool" where
  "cfg_ok cfg \<longleftrightarrow> 0 < cfg_quota_min cfg \<and> cfg_quota_min cfg \<le> cfg_quota_max cfg
     \<and> 0 < cfg_target_deltas cfg \<and> 0 < cfg_damp_div cfg \<and> 0 < cfg_k_sustain cfg"

locale quota_controller =
  fixes decide :: "int \<Rightarrow> int \<Rightarrow> int \<Rightarrow> int \<Rightarrow> int \<Rightarrow> decision res"
    and valid :: bool and qmin qmax k :: int
  assumes returns: "valid \<Longrightarrow> \<exists>d. decide q p s a st = Inr d"
    and bounds: "valid \<Longrightarrow> decide q p s a st = Inr d \<Longrightarrow> qmin \<le> dec_quota d \<and> dec_quota d \<le> qmax"
    and pinned_law: "decide q p s a st = Inr d \<Longrightarrow> dec_pinned d = (if dec_thaw_ok d then p + 1 else 0)"
    and slack_law: "decide q p s a st = Inr d \<Longrightarrow> dec_slack d = s + 1 \<or> dec_slack d = 0"
    and schedule_law: "decide q p s a st = Inr d \<Longrightarrow> dec_schedule d \<longleftrightarrow> k \<le> dec_pinned d"
    and freeze_law: "decide q p s a st = Inr d \<Longrightarrow> dec_freeze d \<longleftrightarrow> k \<le> dec_slack d"
    and k_pos: "valid \<Longrightarrow> 0 < k"
begin

text \<open>Growth is scheduled only in a surplus window, and never in a window that freezes.\<close>

lemma schedule_needs_surplus:
  "valid \<Longrightarrow> decide q p s a st = Inr d \<Longrightarrow> dec_schedule d \<Longrightarrow> dec_thaw_ok d \<and> k \<le> p + 1"
  using pinned_law [of q p s a st d] schedule_law [of q p s a st d] k_pos by (auto split: if_splits)

lemma streaks_nonneg:
  "decide q p s a st = Inr d \<Longrightarrow> 0 \<le> p \<Longrightarrow> 0 \<le> s \<Longrightarrow> 0 \<le> dec_pinned d \<and> 0 \<le> dec_slack d"
  using pinned_law [of q p s a st d] slack_law [of q p s a st d] by auto

end

text \<open>The control loop's own facts.\<close>

lemma midband: "(a::int) \<le> b \<Longrightarrow> a \<le> (a + b) div 2 \<and> (a + b) div 2 \<le> b"
  by linarith

interpretation retarget: quota_controller "retarget_decide cfg" "cfg_ok cfg" "cfg_quota_min cfg"
  "cfg_quota_max cfg" "cfg_k_sustain cfg" for cfg
proof
  fix q p s a st d
  show "cfg_ok cfg \<Longrightarrow> \<exists>d. retarget_decide cfg q p s a st = Inr d"
    by (auto simp: retarget_decide_def py_div_def cfg_ok_def Let_def)
  show "cfg_ok cfg \<Longrightarrow> 0 < cfg_k_sustain cfg" by (simp add: cfg_ok_def)
  assume r: "retarget_decide cfg q p s a st = Inr d"
  show "cfg_ok cfg \<Longrightarrow> cfg_quota_min cfg \<le> dec_quota d \<and> dec_quota d \<le> cfg_quota_max cfg"
    using r by (auto simp: retarget_decide_def res_simps Let_def cfg_ok_def)
  show "dec_pinned d = (if dec_thaw_ok d then p + 1 else 0)"
    "dec_slack d = s + 1 \<or> dec_slack d = 0"
    "dec_schedule d \<longleftrightarrow> cfg_k_sustain cfg \<le> dec_pinned d"
    "dec_freeze d \<longleftrightarrow> cfg_k_sustain cfg \<le> dec_slack d"
    using r by (auto simp: retarget_decide_def res_simps Let_def)
qed

subsection \<open>The controller's invariant\<close>

definition ctl_ok :: "controller \<Rightarrow> bool" where
  "ctl_ok c \<longleftrightarrow> cfg_ok (ctl_cfg c)
     \<and> cfg_quota_min (ctl_cfg c) \<le> ctl_quota c \<and> ctl_quota c \<le> cfg_quota_max (ctl_cfg c)
     \<and> 0 \<le> ctl_growth_bound c \<and> ctl_min_active c \<le> ctl_active_modules c
     \<and> ctl_active_modules c \<le> ctl_total_modules c
     \<and> 0 \<le> ctl_pinned_streak c \<and> 0 \<le> ctl_slack_streak c \<and> length (ctl_pending_growth c) \<le> 1"

definition event_ok :: "controller \<Rightarrow> window_events \<Rightarrow> bool" where
  "event_ok c ev \<longleftrightarrow> cfg_quota_min (ctl_cfg c) \<le> ev_quota ev \<and> ev_quota ev \<le> cfg_quota_max (ctl_cfg c)
     \<and> ctl_min_active c \<le> ev_active ev \<and> ev_active ev \<le> ev_total ev"

lemma activate_due_ok:
  assumes "activate_due c = (g, c')" "ctl_ok c"
  shows "ctl_ok c' \<and> ctl_total_modules c \<le> ctl_total_modules c' \<and> ctl_cfg c' = ctl_cfg c
    \<and> ctl_min_active c' = ctl_min_active c \<and> ctl_log c' = ctl_log c \<and> ctl_window_id c' = ctl_window_id c"
proof -
  define due where "due = filter (\<lambda>w. w \<le> ctl_window_id c) (ctl_pending_growth c)"
  have g: "g = int (length due) * ctl_growth_bound c"
    and c': "c' = c\<lparr>ctl_total_modules := ctl_total_modules c + g, ctl_active_modules := ctl_active_modules c + g,
      ctl_pending_growth := filter (\<lambda>w. ctl_window_id c < w) (ctl_pending_growth c)\<rparr>"
    using assms(1) by (auto simp: activate_due_def Let_def due_def)
  have "0 \<le> g" using assms(2) by (simp add: g ctl_ok_def)
  moreover have "length (filter (\<lambda>w. ctl_window_id c < w) (ctl_pending_growth c)) \<le> 1"
    using assms(2) by (intro order_trans [OF length_filter_le]) (simp add: ctl_ok_def)
  ultimately show ?thesis using assms(2) by (simp add: c' ctl_ok_def)
qed

lemma thaw_or_schedule_ok:
  assumes "thaw_or_schedule d c = (t, s, c')" "ctl_ok c"
  shows "ctl_ok c' \<and> ctl_total_modules c' = ctl_total_modules c \<and> ctl_cfg c' = ctl_cfg c
    \<and> ctl_min_active c' = ctl_min_active c \<and> ctl_log c' = ctl_log c"
  using assms midband [of "cfg_quota_min (ctl_cfg c)" "cfg_quota_max (ctl_cfg c)"]
  by (auto simp: thaw_or_schedule_def ctl_ok_def cfg_ok_def split: if_splits)

lemma freeze_module_ok:
  assumes "freeze_module d c = (f, c')" "ctl_ok c"
  shows "ctl_ok c' \<and> ctl_total_modules c' = ctl_total_modules c \<and> ctl_cfg c' = ctl_cfg c
    \<and> ctl_min_active c' = ctl_min_active c \<and> ctl_log c' = ctl_log c"
  using assms by (auto simp: freeze_module_def ctl_ok_def split: if_splits)

lemma observe_window_ok:
  assumes "ctl_ok c" and "observe_window a st c = Inr (ev, c')"
  shows "ctl_ok c' \<and> ctl_total_modules c \<le> ctl_total_modules c' \<and> ctl_cfg c' = ctl_cfg c
    \<and> ctl_min_active c' = ctl_min_active c \<and> ctl_log c' = ctl_log c @ [ev]
    \<and> event_ok c' ev \<and> ev_total ev = ctl_total_modules c'"
proof -
  let ?c1 = "c\<lparr>ctl_window_id := ctl_window_id c + 1\<rparr>"
  obtain g c2 where 2: "activate_due ?c1 = (g, c2)" by fastforce
  have "ctl_ok ?c1" using assms(1) by (simp add: ctl_ok_def)
  note ok2 = activate_due_ok [OF 2 this]
  from assms(2) 2 obtain d where d: "retarget_decide (ctl_cfg c2) (ctl_quota c2) (ctl_pinned_streak c2)
      (ctl_slack_streak c2) a st = Inr d"
    by (auto simp: observe_window_def Let_def res_simps)
  define c3 where "c3 = c2\<lparr>ctl_quota := dec_quota d, ctl_pinned_streak := dec_pinned d, ctl_slack_streak := dec_slack d\<rparr>"
  have ok3: "ctl_ok c3"
    using ok2 retarget.bounds [OF _ d] retarget.streaks_nonneg [OF d] by (auto simp: ctl_ok_def c3_def)
  obtain t sc c4 where 4: "thaw_or_schedule d c3 = (t, sc, c4)" by (metis prod_cases3)
  note ok4 = thaw_or_schedule_ok [OF 4 ok3]
  obtain f c5 where 5: "freeze_module d c4 = (f, c5)" by fastforce
  note ok5 = freeze_module_ok [OF 5 conjunct1 [OF ok4]]
  have res: "c' = c5\<lparr>ctl_log := ctl_log c5 @ [ev]\<rparr>" "ev_quota ev = ctl_quota c5"
    "ev_total ev = ctl_total_modules c5" "ev_active ev = ctl_active_modules c5"
    using assms(2) by (auto simp: observe_window_def Let_def 2 d 4 [unfolded c3_def] 5)
  show ?thesis using ok2 ok4 ok5 by (auto simp: res event_ok_def ctl_ok_def c3_def)
qed

lemma observe_window_returns: "ctl_ok c \<Longrightarrow> \<exists>r. observe_window a st c = Inr r"
proof -
  assume ok: "ctl_ok c"
  obtain g c2 where 2: "activate_due (c\<lparr>ctl_window_id := ctl_window_id c + 1\<rparr>) = (g, c2)" by fastforce
  then have "cfg_ok (ctl_cfg c2)" using ok by (auto simp: activate_due_def Let_def ctl_ok_def)
  then obtain d where "retarget_decide (ctl_cfg c2) (ctl_quota c2) (ctl_pinned_streak c2) (ctl_slack_streak c2) a st = Inr d"
    using retarget.returns by blast
  with 2 show ?thesis by (simp add: observe_window_def Let_def split: prod.splits)
qed

text \<open>The state of the simulation: everything logged so far is in range and never shrank.\<close>

definition sim_ok :: "controller \<Rightarrow> window_events list \<times> controller \<Rightarrow> bool" where
  "sim_ok c0 st \<longleftrightarrow> (let (out, c) = st in
     ctl_ok c \<and> ctl_cfg c = ctl_cfg c0 \<and> ctl_min_active c = ctl_min_active c0
     \<and> (\<forall>ev\<in>set out. event_ok c0 ev \<and> ev_total ev \<le> ctl_total_modules c)
     \<and> sorted (map ev_total out))"

lemma event_ok_cong: "ctl_cfg c = ctl_cfg c' \<Longrightarrow> ctl_min_active c = ctl_min_active c' \<Longrightarrow> event_ok c = event_ok c'"
  by (auto simp: event_ok_def fun_eq_iff)

interpretation simulation: inv_step "simulate_step pu" "\<lambda>_. True" "sim_ok c0" for pu c0
proof
  fix fleet st st' assume inv: "sim_ok c0 st" and "simulate_step pu fleet st = Inr st'"
  moreover obtain out c where st: "st = (out, c)" by (cases st)
  ultimately obtain acc sta ev c' where ob: "observe_window acc sta c = Inr (ev, c')" and st': "st' = (out @ [ev], c')"
    by (auto simp: simulate_step_def Let_def res_simps)
  have "ctl_ok c" using inv by (simp add: sim_ok_def st)
  from observe_window_ok [OF this ob] inv event_ok_cong [of c' c0] show "sim_ok c0 st'"
    by (auto simp: sim_ok_def st st' sorted_append intro: order_trans)
qed

lemma simulate_step_returns:
  assumes "sim_ok c0 st"
  shows "\<exists>st'. simulate_step pu fleet st = Inr st' \<and> sim_ok c0 st' \<and> length (fst st') = Suc (length (fst st))"
proof -
  obtain out c where st: "st = (out, c)" by (cases st)
  then have "ctl_ok c" using assms by (simp add: sim_ok_def)
  from observe_window_returns [OF this]
  have ob: "\<exists>ev c'. observe_window a b c = Inr (ev, c')" for a b by fastforce
  obtain a b where "simulate_step pu fleet st = bindE (observe_window a b c) (\<lambda>(ev, c). Inr (out @ [ev], c))"
    by (simp add: simulate_step_def st Let_def)
  with ob [of a b] obtain st' where s: "simulate_step pu fleet st = Inr st'" and l: "length (fst st') = Suc (length out)"
    by auto
  from simulation.step_inv [OF _ assms s] s l show ?thesis by (auto simp: st)
qed

lemma simulate_ok:
  assumes "ctl_ok c"
  shows "\<exists>out c'. simulate c trace pu = Inr (out, c') \<and> ctl_ok c' \<and> length out = length trace
     \<and> (\<forall>ev\<in>set out. event_ok c ev) \<and> sorted (map ev_total out)"
proof -
  have "sim_ok c st \<Longrightarrow> \<exists>st'. foldE (simulate_step pu) trace st = Inr st' \<and> sim_ok c st' \<and>
      length (fst st') = length (fst st) + length trace" for st
  proof (induction trace arbitrary: st)
    case (Cons f trace)
    from simulate_step_returns [OF Cons.prems] obtain st1 where
      1: "simulate_step pu f st = Inr st1" "sim_ok c st1" "length (fst st1) = Suc (length (fst st))" by blast
    from Cons.IH [OF 1(2)] 1 show ?case by auto
  qed simp
  from this [of "([], c)"] assms show ?thesis by (auto simp: sim_ok_def simulate_def)
qed

end
