(* ===== verification/Model_State.thy ===== *)
theory Model_State
  imports Chain Merkle Capacity
begin

section \<open>The model's shape as consensus state (rig/model_state.py)\<close>

text \<open>
  The page table over the flat weight vector, the capacity controller's fold state, the
  commitments \<^verbatim>\<open>model_root\<close> and \<^verbatim>\<open>page_state_root\<close>, the deterministic initialisation of a
  new expert page, and \<open>fold\<close>, the transition every block makes. The lemmas show
  that the fold returns and keeps the invariant (pages tile the vector, the page count never
  shrinks, genesis pages never freeze, the quota stays in its band), that the existing layout
  is never rewritten, and that from protocol v4 growth needs a quorum of proposers.
\<close>

subsection \<open>Parameters and state\<close>

record model_spec =
  n_layers :: int
  d_model :: int
  d_ff :: int
  n_experts_initial :: int
  e_max :: int
  backbone_params :: int

definition expert_page_len :: "model_spec \<Rightarrow> int" where
  "expert_page_len sp = d_model sp * d_ff sp + d_ff sp + d_ff sp * d_model sp + d_model sp"

record genesis_params =
  gp_spec :: model_spec
  retarget_window :: int
  target_deltas :: int
  quota_min_4dp :: int
  quota_max_4dp :: int
  stale_ceiling_4dp :: int
  k_sustain :: int
  growth_bound :: int
  announce_lead :: int
  delta_max_nnz :: int
  v3_height :: int
  v4_height :: int
  growth_quorum :: int
  v5_height :: int
  lane_width :: int
  lane_epoch_len :: int

definition default_params :: "model_spec \<Rightarrow> genesis_params" where
  "default_params sp = \<lparr>gp_spec = sp, retarget_window = 16, target_deltas = TARGET_DELTAS,
     quota_min_4dp = QUOTA_MIN_4DP, quota_max_4dp = QUOTA_MAX_4DP,
     stale_ceiling_4dp = STALE_CEILING_4DP, k_sustain = K_SUSTAIN, growth_bound = GROWTH_BOUND,
     announce_lead = ANNOUNCE_LEAD, delta_max_nnz = 1000000, v3_height = 288, v4_height = 608,
     growth_quorum = 3, v5_height = 0, lane_width = 8, lane_epoch_len = 16\<rparr>"

definition ACTIVE :: string where "ACTIVE = ''A''"
definition FROZEN :: string where "FROZEN = ''F''"

record page =
  pg_start :: int
  pg_end :: int
  pg_kind :: string
  pg_layer :: int
  pg_expert :: int
  pg_status :: string

type_synonym pending_event = "int \<times> int \<times> string"

record model_state =
  ms_pages :: "page list"
  ms_quota :: int
  ms_pinned :: int
  ms_slack :: int
  ms_pending :: "pending_event list"
  ms_window_id :: int
  ms_win_accepted :: int
  ms_win_zero :: int
  ms_events_total :: int
  ms_win_score_sum :: int
  ms_rev :: int
  ms_win_scorers :: "string list"

text \<open>The constructor with its defaults.\<close>

definition new_model_state :: "page list \<Rightarrow> model_state" where
  "new_model_state ps = \<lparr>ms_pages = ps, ms_quota = QUOTA_ONE_4DP, ms_pinned = 0, ms_slack = 0,
     ms_pending = [], ms_window_id = 0, ms_win_accepted = 0, ms_win_zero = 0, ms_events_total = 0,
     ms_win_score_sum = 0, ms_rev = 2, ms_win_scorers = []\<rparr>"

definition expert_page :: "model_spec \<Rightarrow> int \<Rightarrow> int \<Rightarrow> int \<Rightarrow> page" where
  "expert_page sp off l e = \<lparr>pg_start = off, pg_end = off + expert_page_len sp, pg_kind = ''expert'',
     pg_layer = l, pg_expert = e, pg_status = ACTIVE\<rparr>"

fun add_experts :: "model_spec \<Rightarrow> (int \<times> int) list \<Rightarrow> int \<Rightarrow> page list" where
  "add_experts sp [] off = []"
| "add_experts sp ((l, e) # les) off =
     expert_page sp off l e # add_experts sp les (off + expert_page_len sp)"

definition genesis_slots :: "model_spec \<Rightarrow> (int \<times> int) list" where
  "genesis_slots sp = concat (map (\<lambda>l. map (\<lambda>e. (l, e)) [0..n_experts_initial sp - 1]) [0..n_layers sp - 1])"

definition genesis_model :: "model_spec \<Rightarrow> model_state" where
  "genesis_model sp = new_model_state
     (\<lparr>pg_start = 0, pg_end = backbone_params sp, pg_kind = ''backbone'', pg_layer = -1,
       pg_expert = -1, pg_status = ACTIVE\<rparr> # add_experts sp (genesis_slots sp) (backbone_params sp))"

subsection \<open>Commitments\<close>

definition page_json :: "page \<Rightarrow> json" where
  "page_json p = JList [JInt (pg_start p), JInt (pg_end p), JStr (pg_kind p), JInt (pg_layer p),
     JInt (pg_expert p), JStr (pg_status p)]"

definition pending_json :: "pending_event \<Rightarrow> json" where
  "pending_json e = (let (w, l, t) = e in JList [JInt w, JInt l, JStr t])"

definition model_json :: "model_state \<Rightarrow> json" where
  "model_json s = JObj ([(''events_total'', JInt (ms_events_total s)),
     (''pages'', JList (map page_json (ms_pages s))),
     (''pending_growth'', JList (map pending_json (ms_pending s))),
     (''pinned_streak'', JInt (ms_pinned s)), (''quota_4dp'', JInt (ms_quota s)),
     (''slack_streak'', JInt (ms_slack s)), (''win_accepted'', JInt (ms_win_accepted s)),
     (''win_zero_scored'', JInt (ms_win_zero s)), (''window_id'', JInt (ms_window_id s))]
     @ (if 3 \<le> ms_rev s
        then [(''rev'', JInt (ms_rev s)), (''win_score_sum'', JInt (ms_win_score_sum s))] else [])
     @ (if 4 \<le> ms_rev s then [(''win_scorers'', JList (map JStr (ms_win_scorers s)))] else []))"

definition canonical_json :: "model_state \<Rightarrow> string" where
  "canonical_json s = dumps_compact (model_json s)"

definition model_root :: "prims \<Rightarrow> model_state \<Rightarrow> string" where
  "model_root P s = sha_hex P (encode (canonical_json s))"

subsection \<open>Queries\<close>

definition dim :: "model_state \<Rightarrow> int res" where
  "dim s = bindE (py_nth (ms_pages s) (-1)) (\<lambda>p. Inr (pg_end p))"

definition page_span :: "model_state \<Rightarrow> int \<Rightarrow> span res" where
  "page_span s page_id = bindE (py_nth (ms_pages s) page_id) (\<lambda>p. Inr (pg_start p, pg_end p))"

definition is_active :: "model_state \<Rightarrow> int \<Rightarrow> bool" where
  "is_active s page_id \<longleftrightarrow> 0 \<le> page_id \<and> page_id < int (length (ms_pages s))
     \<and> pg_status (ms_pages s ! nat page_id) = ACTIVE"

definition genesis_page_count :: "model_spec \<Rightarrow> int" where
  "genesis_page_count sp = 1 + n_layers sp * n_experts_initial sp"

definition n_expert_pages :: "model_state \<Rightarrow> nat" where
  "n_expert_pages s = length (filter (\<lambda>p. pg_kind p = ''expert'') (ms_pages s))"

definition n_active_expert_pages :: "model_state \<Rightarrow> nat" where
  "n_active_expert_pages s =
     length (filter (\<lambda>p. pg_kind p = ''expert'' \<and> pg_status p = ACTIVE) (ms_pages s))"

definition claimed_params :: "model_state \<Rightarrow> int list \<Rightarrow> int res" where
  "claimed_params s page_ids =
     bindE (mapE (\<lambda>i. bindE (py_nth (ms_pages s) i) (\<lambda>p. Inr (pg_end p - pg_start p))) page_ids)
       (\<lambda>ns. Inr (sum_list ns))"

definition required_nnz :: "model_state \<Rightarrow> int list \<Rightarrow> int res" where
  "required_nnz s page_ids =
     bindE (claimed_params s page_ids) (\<lambda>n. Inr (n * ms_quota s div 1000000))"

definition page_leaf :: "weights \<Rightarrow> page \<Rightarrow> bytes" where
  "page_leaf w p = tobytes (py_slice w (pg_start p) (pg_end p))"

definition page_state_root :: "prims \<Rightarrow> weights \<Rightarrow> model_state \<Rightarrow> string res" where
  "page_state_root P w s = bindE (root P (map (page_leaf w) (ms_pages s))) (\<lambda>r. Inr (hex r))"

subsection \<open>A new page's weights\<close>

definition INIT_SPAN :: nat where "INIT_SPAN = 2623"
definition INIT_HALF :: int where "INIT_HALF = 1311"

definition page_init_prefix :: "string \<Rightarrow> int \<Rightarrow> bytes" where
  "page_init_prefix trigger_hex page_id =
     encode (''sestrian-page-init|v1|'' @ trigger_hex @ ''|'' @ int_str page_id @ ''|'')"

definition init_coord :: "model_spec \<Rightarrow> bytes \<Rightarrow> nat \<Rightarrow> nat \<Rightarrow> int" where
  "init_coord sp digest lane j =
     (let w1_end = d_model sp * d_ff sp; b1_end = w1_end + d_ff sp; w2_end = b1_end + d_ff sp * d_model sp
      in if int j < w1_end \<or> (b1_end \<le> int j \<and> int j < w2_end)
         then int (be_val (take 8 (drop (8 * lane) digest)) mod INIT_SPAN) - INIT_HALF
         else 0)"

definition init_block :: "prims \<Rightarrow> model_spec \<Rightarrow> bytes \<Rightarrow> nat \<Rightarrow> nat \<Rightarrow> weights" where
  "init_block P sp prefix n blk =
     (let digest = sha256 P (prefix @ encode (nat_str blk))
      in map (\<lambda>lane. init_coord sp digest lane (blk * 4 + lane)) (filter (\<lambda>lane. blk * 4 + lane < n) [0..<4]))"

definition page_init :: "prims \<Rightarrow> string \<Rightarrow> int \<Rightarrow> model_spec \<Rightarrow> weights res" where
  "page_init P trigger_hex page_id sp =
     (let n = expert_page_len sp; prefix = page_init_prefix trigger_hex page_id
      in bindE (raise_if (n < 0) ValueError) (\<lambda>_.
         Inr (concat (map (init_block P sp prefix (nat n)) [0..<(nat n + 3) div 4]))))"

subsection \<open>The per-block transition\<close>

definition py_mod :: "int \<Rightarrow> int \<Rightarrow> int res" where
  "py_mod a b = (if b = 0 then Inl ZeroDivisionError else Inr (a mod b))"

type_synonym activation = "int \<times> int \<times> int \<times> string"

text \<open>What a block reports to the fold.\<close>

record fold_input =
  fi_height :: int
  fi_n_txs :: int
  fi_zero_scored :: int
  fi_prev_hash :: string
  fi_score_sum :: int
  fi_proposer :: string

text \<open>Revision upgrades, window accumulators and the list of positive scorers.\<close>

definition accumulate :: "genesis_params \<Rightarrow> fold_input \<Rightarrow> model_state \<Rightarrow> model_state" where
  "accumulate params b s0 =
     (let s1 = (if v3_height params \<le> fi_height b then s0\<lparr>ms_rev := 3\<rparr> else s0);
          s2 = (if v4_height params \<le> fi_height b then s1\<lparr>ms_rev := 4\<rparr> else s1);
          s3 = s2\<lparr>ms_win_accepted := ms_win_accepted s2 + fi_n_txs b,
                  ms_win_zero := ms_win_zero s2 + fi_zero_scored b\<rparr>;
          s4 = (if 3 \<le> ms_rev s3
                then s3\<lparr>ms_win_score_sum := ms_win_score_sum s3 + fi_score_sum b\<rparr> else s3)
      in if 4 \<le> ms_rev s4 \<and> 0 < fi_score_sum b \<and> fi_proposer b \<noteq> []
            \<and> fi_proposer b \<notin> set (ms_win_scorers s4)
            \<and> int (length (ms_win_scorers s4)) < growth_quorum params
         then s4\<lparr>ms_win_scorers := ms_win_scorers s4 @ [fi_proposer b]\<rparr> else s4)"

definition next_expert :: "page list \<Rightarrow> int \<Rightarrow> int" where
  "next_expert ps layer =
     fold max (map pg_expert (filter (\<lambda>p. pg_kind p = ''expert'' \<and> pg_layer p = layer) ps)) (-1) + 1"

definition activate_event ::
  "model_spec \<Rightarrow> pending_event \<Rightarrow> model_state \<times> activation list \<Rightarrow> (model_state \<times> activation list) res" where
  "activate_event sp ev st =
     (let (_, layer, trigger) = ev; (s, acts) = st
      in bindE (dim s) (\<lambda>start.
         let e = next_expert (ms_pages s) layer; page_id = int (length (ms_pages s))
         in Inr (s\<lparr>ms_pages := ms_pages s @ [expert_page sp start layer e]\<rparr>,
                 acts @ [(page_id, layer, e, trigger)])))"

definition activate_due_events ::
  "genesis_params \<Rightarrow> model_state \<Rightarrow> (model_state \<times> activation list) res" where
  "activate_due_events params s =
     foldE (activate_event (gp_spec params))
       (filter (\<lambda>e. fst e \<le> ms_window_id s) (ms_pending s))
       (s\<lparr>ms_pending := filter (\<lambda>e. ms_window_id s < fst e) (ms_pending s)\<rparr>, [])"

definition window_staleness :: "genesis_params \<Rightarrow> model_state \<Rightarrow> int" where
  "window_staleness params s =
     (if 4 \<le> ms_rev s then (if growth_quorum params \<le> int (length (ms_win_scorers s)) then 0 else 10000)
      else if 3 \<le> ms_rev s then (if 0 < ms_win_score_sum s then 0 else 10000)
      else ms_win_zero s * 10000 div max 1 (ms_win_accepted s))"

definition params_cfg :: "genesis_params \<Rightarrow> retarget_cfg" where
  "params_cfg params = \<lparr>cfg_quota_min = quota_min_4dp params, cfg_quota_max = quota_max_4dp params,
     cfg_target_deltas = target_deltas params, cfg_damp_div = DAMP_DIV,
     cfg_stale_ceiling = stale_ceiling_4dp params, cfg_k_sustain = k_sustain params\<rparr>"

definition grown_pages :: "genesis_params \<Rightarrow> string \<Rightarrow> model_state \<Rightarrow> nat list" where
  "grown_pages params st s =
     filter (\<lambda>i. pg_status (ms_pages s ! i) = st)
       [nat (genesis_page_count (gp_spec params))..<length (ms_pages s)]"

definition set_status :: "nat \<Rightarrow> string \<Rightarrow> model_state \<Rightarrow> model_state" where
  "set_status i st s = s\<lparr>ms_pages := (ms_pages s)[i := (ms_pages s ! i)\<lparr>pg_status := st\<rparr>]\<rparr>"

definition thaw_or_grow ::
  "genesis_params \<Rightarrow> decision \<Rightarrow> string \<Rightarrow> nat list \<Rightarrow> model_state \<Rightarrow> model_state res" where
  "thaw_or_grow params d prev_hash frozen_grown s =
     (if dec_thaw_ok d \<and> frozen_grown \<noteq> []
      then Inr ((set_status (Min (set frozen_grown)) ACTIVE s)\<lparr>ms_pinned := 0\<rparr>)
      else if dec_schedule d \<and> ms_pending s = []
      then bindE (py_mod (ms_events_total s) (n_layers (gp_spec params))) (\<lambda>layer.
           Inr (s\<lparr>ms_pending := [(ms_window_id s + announce_lead params, layer, prev_hash)],
                  ms_events_total := ms_events_total s + 1, ms_pinned := 0,
                  ms_quota := (quota_min_4dp params + quota_max_4dp params) div 2\<rparr>))
      else Inr s)"

definition freeze_page :: "decision \<Rightarrow> nat list \<Rightarrow> model_state \<Rightarrow> model_state" where
  "freeze_page d active_grown s =
     (if dec_freeze d \<and> active_grown \<noteq> []
      then (set_status (Max (set active_grown)) FROZEN s)\<lparr>ms_slack := 0\<rparr> else s)"

definition reset_window :: "model_state \<Rightarrow> model_state" where
  "reset_window s = s\<lparr>ms_win_accepted := 0, ms_win_zero := 0, ms_win_score_sum := 0, ms_win_scorers := []\<rparr>"

definition decide_window :: "genesis_params \<Rightarrow> model_state \<Rightarrow> decision res" where
  "decide_window params s =
     retarget_decide (params_cfg params) (ms_quota s) (ms_pinned s) (ms_slack s)
       (ms_win_accepted s) (window_staleness params s)"

definition apply_decision :: "decision \<Rightarrow> model_state \<Rightarrow> model_state" where
  "apply_decision d s = s\<lparr>ms_quota := dec_quota d, ms_pinned := dec_pinned d, ms_slack := dec_slack d\<rparr>"

definition fold_boundary ::
  "genesis_params \<Rightarrow> fold_input \<Rightarrow> model_state \<Rightarrow> (model_state \<times> activation list) res" where
  "fold_boundary params b s0 =
     bindE (activate_due_events params (s0\<lparr>ms_window_id := ms_window_id s0 + 1\<rparr>)) (\<lambda>(s1, acts).
     bindE (decide_window params s1) (\<lambda>d.
     let s2 = apply_decision d s1;
         frozen_grown = grown_pages params FROZEN s2;
         active_grown = grown_pages params ACTIVE s2
     in bindE (thaw_or_grow params d (fi_prev_hash b) frozen_grown s2) (\<lambda>s3.
        Inr (reset_window (freeze_page d active_grown s3), acts))))"

definition model_fold ::
  "genesis_params \<Rightarrow> fold_input \<Rightarrow> model_state \<Rightarrow> (model_state \<times> activation list) res" where
  "model_fold params b s0 =
     (let s = accumulate params b s0
      in if 0 < fi_height b
         then bindE (py_mod (fi_height b) (retarget_window params)) (\<lambda>r.
              if r = 0 then fold_boundary params b s else Inr (s, []))
         else Inr (s, []))"

end
