(* ===== verification/Model_Props.thy ===== *)
theory Model_Props
  imports Model_State
begin

section \<open>The page table's invariant and the growth gate\<close>

text \<open>
  Lemmas on \<open>model_fold\<close>: it returns on every well-formed state, keeps the page
  table tiling the weight vector, never moves or removes a page, never freezes a genesis page,
  changes capacity only at window boundaries, and from protocol v4 schedules growth only after a
  quorum of distinct positive-scoring proposers in the window.
\<close>

subsection \<open>Well-formedness\<close>

fun tiles :: "int \<Rightarrow> page list \<Rightarrow> bool" where
  "tiles a [] \<longleftrightarrow> True"
| "tiles a (p # ps) \<longleftrightarrow> pg_start p = a \<and> a \<le> pg_end p \<and> tiles (pg_end p) ps"

definition spec_ok :: "model_spec \<Rightarrow> bool" where
  "spec_ok sp \<longleftrightarrow> 0 < n_layers sp \<and> 0 \<le> n_experts_initial sp \<and> 0 \<le> backbone_params sp
     \<and> 0 \<le> d_model sp \<and> 0 \<le> d_ff sp"

definition params_ok :: "genesis_params \<Rightarrow> bool" where
  "params_ok params \<longleftrightarrow> spec_ok (gp_spec params) \<and> 0 < retarget_window params
     \<and> cfg_ok (params_cfg params) \<and> 0 \<le> growth_quorum params
     \<and> quota_min_4dp params \<le> QUOTA_ONE_4DP \<and> QUOTA_ONE_4DP \<le> quota_max_4dp params"

definition genesis_count :: "genesis_params \<Rightarrow> nat" where
  "genesis_count params = nat (genesis_page_count (gp_spec params))"

definition pages_ok :: "genesis_params \<Rightarrow> page list \<Rightarrow> bool" where
  "pages_ok params ps \<longleftrightarrow> tiles 0 ps \<and> genesis_count params \<le> length ps
     \<and> (\<forall>i < genesis_count params. pg_status (ps ! i) = ACTIVE)
     \<and> (\<forall>p\<in>set ps. pg_status p = ACTIVE \<or> pg_status p = FROZEN)"

definition window_ok :: "genesis_params \<Rightarrow> model_state \<Rightarrow> bool" where
  "window_ok params s \<longleftrightarrow> distinct (ms_win_scorers s)
     \<and> int (length (ms_win_scorers s)) \<le> growth_quorum params \<and> length (ms_pending s) \<le> 1
     \<and> quota_min_4dp params \<le> ms_quota s \<and> ms_quota s \<le> quota_max_4dp params
     \<and> 0 \<le> ms_pinned s \<and> 0 \<le> ms_slack s"

definition model_ok :: "genesis_params \<Rightarrow> model_state \<Rightarrow> bool" where
  "model_ok params s \<longleftrightarrow> pages_ok params (ms_pages s) \<and> window_ok params s"

definition spans :: "model_state \<Rightarrow> span list" where
  "spans s = map (\<lambda>p. (pg_start p, pg_end p)) (ms_pages s)"

definition span_end :: "page list \<Rightarrow> int" where
  "span_end ps = (if ps = [] then 0 else pg_end (last ps))"

lemma expert_page_len_nonneg: "spec_ok sp \<Longrightarrow> 0 \<le> expert_page_len sp"
  by (simp add: spec_ok_def expert_page_len_def)

lemma genesis_count_pos: "params_ok params \<Longrightarrow> 0 < genesis_count params"
  by (simp add: params_ok_def spec_ok_def genesis_count_def genesis_page_count_def add_pos_nonneg)

lemma pages_ok_neq_Nil: "params_ok params \<Longrightarrow> pages_ok params ps \<Longrightarrow> ps \<noteq> []"
  using genesis_count_pos [of params] by (auto simp: pages_ok_def)

lemma tiles_append:
  "tiles a (ps @ [q]) \<longleftrightarrow> tiles a ps \<and> pg_start q = (if ps = [] then a else pg_end (last ps)) \<and> pg_start q \<le> pg_end q"
  by (induction ps arbitrary: a) auto

lemma tiles_cong:
  "map (\<lambda>p. (pg_start p, pg_end p)) ps = map (\<lambda>p. (pg_start p, pg_end p)) qs \<Longrightarrow> tiles a ps \<longleftrightarrow> tiles a qs"
proof (induction ps arbitrary: a qs)
  case (Cons p ps)
  then obtain q qs' where qs: "qs = q # qs'" by (cases qs) auto
  with Cons.prems have "tiles (pg_end p) ps \<longleftrightarrow> tiles (pg_end p) qs'" by (intro Cons.IH) simp
  with Cons.prems show ?case by (simp add: qs)
qed simp

subsection \<open>The genesis state\<close>

lemma length_add_experts [simp]: "length (add_experts sp les off) = length les"
  by (induction sp les off rule: add_experts.induct) auto

lemma add_experts_tiles: "spec_ok sp \<Longrightarrow> tiles off (add_experts sp les off)"
  by (induction sp les off rule: add_experts.induct) (auto simp: expert_page_def expert_page_len_nonneg)

lemma add_experts_active: "p \<in> set (add_experts sp les off) \<Longrightarrow> pg_status p = ACTIVE"
  by (induction sp les off rule: add_experts.induct) (auto simp: expert_page_def)

lemma length_genesis_slots:
  assumes "spec_ok sp"
  shows "int (length (genesis_slots sp)) = n_layers sp * n_experts_initial sp"
proof -
  have "length (genesis_slots sp) = nat (n_layers sp) * nat (n_experts_initial sp)"
    by (simp add: genesis_slots_def length_concat comp_def map_replicate_const sum_list_replicate)
  then show ?thesis using assms by (simp add: spec_ok_def)
qed

lemma genesis_model_ok:
  assumes "params_ok params"
  shows "model_ok params (genesis_model (gp_spec params))"
    and "int (length (ms_pages (genesis_model (gp_spec params)))) = genesis_page_count (gp_spec params)"
proof -
  let ?sp = "gp_spec params"
  have sp: "spec_ok ?sp" using assms by (simp add: params_ok_def)
  show len: "int (length (ms_pages (genesis_model ?sp))) = genesis_page_count ?sp"
    using length_genesis_slots [OF sp] by (simp add: genesis_model_def new_model_state_def genesis_page_count_def)
  have act: "\<forall>p\<in>set (ms_pages (genesis_model ?sp)). pg_status p = ACTIVE"
    by (auto simp: genesis_model_def new_model_state_def dest: add_experts_active)
  have "tiles 0 (ms_pages (genesis_model ?sp))"
    using sp add_experts_tiles by (auto simp: genesis_model_def new_model_state_def spec_ok_def)
  moreover have "genesis_count params = length (ms_pages (genesis_model ?sp))"
    using len by (simp add: genesis_count_def)
  ultimately have "pages_ok params (ms_pages (genesis_model ?sp))" using act by (auto simp: pages_ok_def)
  then show "model_ok params (genesis_model ?sp)"
    using assms by (simp add: model_ok_def window_ok_def genesis_model_def new_model_state_def params_ok_def)
qed

subsection \<open>Accumulation\<close>

lemma accumulate_pages [simp]: "ms_pages (accumulate params b s) = ms_pages s"
  "ms_pending (accumulate params b s) = ms_pending s" "ms_quota (accumulate params b s) = ms_quota s"
  "ms_pinned (accumulate params b s) = ms_pinned s" "ms_slack (accumulate params b s) = ms_slack s"
  "ms_window_id (accumulate params b s) = ms_window_id s"
  "ms_events_total (accumulate params b s) = ms_events_total s"
  by (simp_all add: accumulate_def Let_def)

lemma accumulate_rev: "v4_height params \<le> fi_height b \<Longrightarrow> ms_rev (accumulate params b s) = 4"
  by (simp add: accumulate_def Let_def)

text \<open>A block adds at most its own proposer, and only for a positive score.\<close>

lemma accumulate_scorers:
  "ms_win_scorers (accumulate params b s) = ms_win_scorers s \<or>
   ms_win_scorers (accumulate params b s) = ms_win_scorers s @ [fi_proposer b] \<and>
     0 < fi_score_sum b \<and> fi_proposer b \<noteq> [] \<and> fi_proposer b \<notin> set (ms_win_scorers s) \<and>
     int (length (ms_win_scorers s)) < growth_quorum params"
  by (auto simp: accumulate_def Let_def)

lemma accumulate_ok: "model_ok params s \<Longrightarrow> model_ok params (accumulate params b s)"
  using accumulate_scorers [of params b s] by (auto simp: model_ok_def window_ok_def)

subsection \<open>Activation\<close>

lemma dim_eq: "ms_pages s \<noteq> [] \<Longrightarrow> dim s = Inr (pg_end (last (ms_pages s)))"
  by (cases "length (ms_pages s)") (auto simp: dim_def py_nth_def last_conv_nth nat_diff_distrib)

lemma pages_ok_snoc:
  assumes "pages_ok params ps" "params_ok params"
  shows "pages_ok params (ps @ [expert_page (gp_spec params) (pg_end (last ps)) l e])"
proof -
  have "ps \<noteq> []" by (rule pages_ok_neq_Nil [OF assms(2,1)])
  moreover have "0 \<le> expert_page_len (gp_spec params)"
    using assms(2) expert_page_len_nonneg by (simp add: params_ok_def)
  ultimately show ?thesis
    using assms(1) by (auto simp: pages_ok_def tiles_append expert_page_def nth_append)
qed

text \<open>What activating a list of due events does to the state.\<close>

definition activation_ok :: "genesis_params \<Rightarrow> model_state \<Rightarrow> nat \<Rightarrow> model_state \<times> activation list \<Rightarrow> bool" where
  "activation_ok params s k r \<longleftrightarrow> (let (s', acts) = r in
     length acts = k \<and> pages_ok params (ms_pages s') \<and>
     (\<exists>new. ms_pages s' = ms_pages s @ new \<and> length new = k \<and>
        (\<forall>p\<in>set new. pg_end p - pg_start p = expert_page_len (gp_spec params) \<and> pg_status p = ACTIVE) \<and>
        map (\<lambda>(i, l, e, t). i) acts = map int [length (ms_pages s)..<length (ms_pages s) + k]) \<and>
     s' = s\<lparr>ms_pages := ms_pages s'\<rparr>)"

lemma activate_event_ok:
  assumes "params_ok params" and "activation_ok params s k (u, acts)"
  shows "\<exists>r. activate_event (gp_spec params) ev (u, acts) = Inr r \<and> activation_ok params s (Suc k) r"
proof -
  obtain w l t where ev: "ev = (w, l, t)" by (cases ev)
  from assms(2) obtain new where u: "length acts = k" "pages_ok params (ms_pages u)" "ms_pages u = ms_pages s @ new"
    "length new = k" "\<forall>p\<in>set new. pg_end p - pg_start p = expert_page_len (gp_spec params) \<and> pg_status p = ACTIVE"
    "map (\<lambda>(i, l, e, t). i) acts = map int [length (ms_pages s)..<length (ms_pages s) + k]"
    "u = s\<lparr>ms_pages := ms_pages u\<rparr>" by (auto simp: activation_ok_def)
  let ?q = "expert_page (gp_spec params) (pg_end (last (ms_pages u))) l (next_expert (ms_pages u) l)"
  have "ms_pages u \<noteq> []" using pages_ok_neq_Nil assms(1) u(2) by blast
  then have "activate_event (gp_spec params) ev (u, acts) =
      Inr (u\<lparr>ms_pages := ms_pages u @ [?q]\<rparr>,
           acts @ [(int (length (ms_pages u)), l, next_expert (ms_pages u) l, t)])"
    by (simp add: activate_event_def ev dim_eq Let_def)
  moreover have "pages_ok params (ms_pages u @ [?q])" by (rule pages_ok_snoc [OF u(2) assms(1)])
  moreover have "u\<lparr>ms_pages := ps\<rparr> = s\<lparr>ms_pages := ps\<rparr>" for ps by (subst u(7)) simp
  ultimately show ?thesis
    using u(1,3,4,5,6) by (auto simp: activation_ok_def expert_page_def)
qed

lemma activate_loop_ok:
  assumes "params_ok params" and "activation_ok params s k st"
  shows "\<exists>r. foldE (activate_event (gp_spec params)) evs st = Inr r \<and> activation_ok params s (k + length evs) r"
  using assms(2)
proof (induction evs arbitrary: st k)
  case (Cons ev evs)
  obtain u acts where "st = (u, acts)" by (cases st)
  with activate_event_ok [OF assms(1)] Cons.prems obtain r where
    "activate_event (gp_spec params) ev st = Inr r" "activation_ok params s (Suc k) r" by blast
  with Cons.IH show ?case by fastforce
qed simp

lemma activate_due_events_ok:
  assumes "params_ok params" and "pages_ok params (ms_pages s)"
  shows "\<exists>r. activate_due_events params s = Inr r \<and>
     activation_ok params (s\<lparr>ms_pending := filter (\<lambda>e. ms_window_id s < fst e) (ms_pending s)\<rparr>)
       (length (filter (\<lambda>e. fst e \<le> ms_window_id s) (ms_pending s))) r"
  using activate_loop_ok [OF assms(1),
      of "s\<lparr>ms_pending := filter (\<lambda>e. ms_window_id s < fst e) (ms_pending s)\<rparr>" 0
         "(s\<lparr>ms_pending := filter (\<lambda>e. ms_window_id s < fst e) (ms_pending s)\<rparr>, [])"] assms(2)
  by (simp add: activate_due_events_def activation_ok_def)

subsection \<open>Thawing, growth and freezing\<close>

lemma set_status_simps [simp]:
  "length (ms_pages (set_status i st s)) = length (ms_pages s)"
  "ms_pending (set_status i st s) = ms_pending s" "ms_quota (set_status i st s) = ms_quota s"
  "ms_pinned (set_status i st s) = ms_pinned s" "ms_slack (set_status i st s) = ms_slack s"
  "ms_win_scorers (set_status i st s) = ms_win_scorers s"
  "ms_events_total (set_status i st s) = ms_events_total s"
  "ms_window_id (set_status i st s) = ms_window_id s"
  by (simp_all add: set_status_def)

lemma spans_set_status [simp]: "spans (set_status i st s) = spans s"
proof (cases "i < length (ms_pages s)")
  case True
  then show ?thesis
    by (intro nth_equalityI) (auto simp: spans_def set_status_def nth_list_update)
qed (simp add: spans_def set_status_def list_update_beyond)

lemma spans_upd [simp]:
  "spans (s\<lparr>ms_pending := a\<rparr>) = spans s" "spans (s\<lparr>ms_pinned := i\<rparr>) = spans s"
  "spans (s\<lparr>ms_slack := i\<rparr>) = spans s" "spans (s\<lparr>ms_quota := i\<rparr>) = spans s"
  "spans (s\<lparr>ms_events_total := i\<rparr>) = spans s" "spans (s\<lparr>ms_window_id := i\<rparr>) = spans s"
  by (simp_all add: spans_def)

lemma set_status_pages_ok:
  assumes "pages_ok params (ms_pages s)" and "genesis_count params \<le> i"
    and "st = ACTIVE \<or> st = FROZEN"
  shows "pages_ok params (ms_pages (set_status i st s))"
proof -
  have "tiles 0 (ms_pages (set_status i st s))"
    using tiles_cong [of "ms_pages (set_status i st s)" "ms_pages s"] spans_set_status [of i st s] assms(1)
    by (simp add: spans_def pages_ok_def)
  moreover have "\<forall>p\<in>set (ms_pages (set_status i st s)). pg_status p = ACTIVE \<or> pg_status p = FROZEN"
    using assms(1,3) by (auto simp: set_status_def pages_ok_def dest!: set_update_subset_insert [THEN subsetD])
  moreover have "\<forall>j < genesis_count params. pg_status (ms_pages (set_status i st s) ! j) = ACTIVE"
    using assms(1,2) by (auto simp: set_status_def pages_ok_def nth_list_update)
  ultimately show ?thesis using assms(1) by (simp add: pages_ok_def)
qed

lemma grown_pages_ge: "i \<in> set (grown_pages params st s) \<Longrightarrow> genesis_count params \<le> i \<and> i < length (ms_pages s)"
  by (auto simp: grown_pages_def genesis_count_def)

lemma thaw_or_grow_ok:
  assumes "params_ok params" and "model_ok params s" and "set frozen \<subseteq> {genesis_count params..}"
  shows "\<exists>s'. thaw_or_grow params d h frozen s = Inr s' \<and> model_ok params s' \<and> spans s' = spans s
     \<and> ms_window_id s' = ms_window_id s"
proof -
  have "n_layers (gp_spec params) \<noteq> 0" using assms(1) by (auto simp: params_ok_def spec_ok_def)
  moreover have "quota_min_4dp params \<le> quota_max_4dp params"
    using assms(1) by (simp add: params_ok_def)
  moreover have "frozen \<noteq> [] \<Longrightarrow> pages_ok params (ms_pages (set_status (Min (set frozen)) ACTIVE s))"
    using assms(2,3) Min_in [of "set frozen"] by (intro set_status_pages_ok) (auto simp: model_ok_def)
  ultimately show ?thesis
    using assms(2) midband [of "quota_min_4dp params" "quota_max_4dp params"]
    by (auto simp: thaw_or_grow_def py_mod_def model_ok_def window_ok_def)
qed

lemma freeze_page_ok:
  assumes "model_ok params s" and "set act \<subseteq> {genesis_count params..}"
  shows "model_ok params (freeze_page d act s)" and "spans (freeze_page d act s) = spans s"
proof -
  have "act \<noteq> [] \<Longrightarrow> genesis_count params \<le> Max (set act)"
    using assms(2) Max_in [of "set act"] by (metis List.finite_set atLeast_iff set_empty subsetD)
  then have "act \<noteq> [] \<Longrightarrow> pages_ok params (ms_pages (set_status (Max (set act)) FROZEN s))"
    using assms(1) by (intro set_status_pages_ok) (auto simp: model_ok_def)
  then show "model_ok params (freeze_page d act s)"
    using assms(1) by (auto simp: freeze_page_def model_ok_def window_ok_def)
  have "spans (freeze_page d act s) = spans (if dec_freeze d \<and> act \<noteq> [] then set_status (Max (set act)) FROZEN s else s)"
    by (simp add: freeze_page_def spans_def)
  then show "spans (freeze_page d act s) = spans s" by (simp split: if_splits)
qed

lemma reset_window_ok: "params_ok params \<Longrightarrow> model_ok params s \<Longrightarrow> model_ok params (reset_window s)"
  by (simp add: model_ok_def window_ok_def reset_window_def params_ok_def)

lemma decide_window_ok:
  assumes "params_ok params" and "model_ok params s"
  shows "\<exists>d. decide_window params s = Inr d \<and> model_ok params (apply_decision d s)"
proof -
  have c: "cfg_ok (params_cfg params)" using assms(1) by (simp add: params_ok_def)
  then obtain d where d: "decide_window params s = Inr d"
    using retarget.returns unfolding decide_window_def by blast
  have "quota_min_4dp params \<le> dec_quota d \<and> dec_quota d \<le> quota_max_4dp params"
    using retarget.bounds [OF c d [unfolded decide_window_def]] by (simp add: params_cfg_def)
  moreover have "0 \<le> dec_pinned d \<and> 0 \<le> dec_slack d"
    using retarget.streaks_nonneg [OF d [unfolded decide_window_def]] assms(2)
    by (simp add: model_ok_def window_ok_def)
  ultimately show ?thesis using d assms(2)
    by (auto simp: model_ok_def window_ok_def apply_decision_def)
qed

subsection \<open>The fold returns, keeps the invariant and only appends\<close>

text \<open>The layout after a block is the old one with one span per activation appended.\<close>

definition layout_extends :: "genesis_params \<Rightarrow> model_state \<Rightarrow> model_state \<Rightarrow> activation list \<Rightarrow> bool" where
  "layout_extends params s s' acts \<longleftrightarrow> length acts \<le> 1 \<and>
     (\<exists>new. spans s' = spans s @ new \<and> length new = length acts \<and>
        (\<forall>sp\<in>set new. snd sp - fst sp = expert_page_len (gp_spec params))) \<and>
     map (\<lambda>(i, l, e, t). i) acts = map int [length (ms_pages s)..<length (ms_pages s) + length acts]"

lemma layout_extends_Nil: "spans s' = spans s \<Longrightarrow> layout_extends params s s' []"
  by (simp add: layout_extends_def)

lemma activation_extends:
  assumes "activation_ok params s k (s', acts)" and "k \<le> 1"
  shows "layout_extends params s s' acts"
proof -
  from assms(1) obtain new where "length acts = k" "ms_pages s' = ms_pages s @ new" "length new = k"
    "\<forall>p\<in>set new. pg_end p - pg_start p = expert_page_len (gp_spec params)"
    "map (\<lambda>(i, l, e, t). i) acts = map int [length (ms_pages s)..<length (ms_pages s) + k]"
    by (auto simp: activation_ok_def)
  then show ?thesis using assms(2)
    by (auto simp: layout_extends_def spans_def intro!: exI [of _ "map (\<lambda>p. (pg_start p, pg_end p)) new"])
qed

lemma fold_boundary_ok:
  assumes P: "params_ok params" and ok: "model_ok params s"
  shows "\<exists>s' acts. fold_boundary params b s = Inr (s', acts) \<and> model_ok params s'
     \<and> layout_extends params s s' acts \<and> ms_win_scorers s' = []"
proof -
  let ?s0 = "s\<lparr>ms_window_id := ms_window_id s + 1\<rparr>"
  let ?sp = "?s0\<lparr>ms_pending := filter (\<lambda>e. ms_window_id ?s0 < fst e) (ms_pending ?s0)\<rparr>"
  let ?k = "length (filter (\<lambda>e. fst e \<le> ms_window_id ?s0) (ms_pending ?s0))"
  have "pages_ok params (ms_pages ?s0)" using ok by (simp add: model_ok_def)
  from activate_due_events_ok [OF P this] obtain s1 acts where
    1: "activate_due_events params ?s0 = Inr (s1, acts)" "activation_ok params ?sp ?k (s1, acts)" by auto
  have pend: "length (filter Q (ms_pending s)) \<le> 1" for Q
    using ok by (intro order_trans [OF length_filter_le]) (simp add: model_ok_def window_ok_def)
  have s1: "s1 = ?sp\<lparr>ms_pages := ms_pages s1\<rparr>" and pg: "pages_ok params (ms_pages s1)"
    using 1(2) by (auto simp: activation_ok_def)
  have "window_ok params (?sp\<lparr>ms_pages := ms_pages s1\<rparr>)"
    using ok pend by (simp add: model_ok_def window_ok_def)
  then have ok1: "model_ok params s1" using s1 pg by (simp add: model_ok_def)
  have "layout_extends params ?sp s1 acts" using activation_extends [OF 1(2)] pend by simp
  then have ext: "layout_extends params s s1 acts" by (simp add: layout_extends_def)
  obtain d where d: "decide_window params s1 = Inr d" "model_ok params (apply_decision d s1)"
    using decide_window_ok [OF P ok1] by blast
  let ?s2 = "apply_decision d s1"
  have grown: "set (grown_pages params st ?s2) \<subseteq> {genesis_count params..}" for st
    using grown_pages_ge by auto
  obtain s3 where 3: "thaw_or_grow params d (fi_prev_hash b) (grown_pages params FROZEN ?s2) ?s2 = Inr s3"
    "model_ok params s3" "spans s3 = spans ?s2" using thaw_or_grow_ok [OF P d(2) grown] by blast
  let ?s4 = "freeze_page d (grown_pages params ACTIVE ?s2) s3"
  have sp: "spans (reset_window ?s4) = spans s1"
    using freeze_page_ok(2) [OF 3(2) grown] 3(3) by (simp add: reset_window_def spans_def apply_decision_def)
  have "fold_boundary params b s = Inr (reset_window ?s4, acts)"
    by (simp add: fold_boundary_def 1(1) d(1) 3(1) Let_def)
  moreover have "model_ok params (reset_window ?s4)"
    by (rule reset_window_ok [OF P freeze_page_ok(1) [OF 3(2) grown]])
  moreover have "layout_extends params s (reset_window ?s4) acts" using ext sp by (simp add: layout_extends_def)
  moreover have "ms_win_scorers (reset_window ?s4) = []" by (simp add: reset_window_def)
  ultimately show ?thesis by blast
qed

lemma spans_accumulate [simp]: "spans (accumulate params b s) = spans s"
  by (simp add: spans_def)

lemma layout_extends_accumulate [simp]:
  "layout_extends params (accumulate params b s) s' acts \<longleftrightarrow> layout_extends params s s' acts"
  by (simp add: layout_extends_def)

lemma model_fold_ok:
  assumes P: "params_ok params" and ok: "model_ok params s"
  shows "\<exists>s' acts. model_fold params b s = Inr (s', acts) \<and> model_ok params s'
     \<and> layout_extends params s s' acts"
proof -
  have W: "retarget_window params \<noteq> 0" using P by (auto simp: params_ok_def)
  have ok': "model_ok params (accumulate params b s)" by (rule accumulate_ok [OF ok])
  show ?thesis
  proof (cases "0 < fi_height b \<and> fi_height b mod retarget_window params = 0")
    case True
    then have "model_fold params b s = fold_boundary params b (accumulate params b s)"
      using W by (simp add: model_fold_def py_mod_def)
    with fold_boundary_ok [OF P ok'] show ?thesis by force
  next
    case False
    then have "model_fold params b s = Inr (accumulate params b s, [])"
      using W by (auto simp: model_fold_def py_mod_def Let_def)
    with ok' show ?thesis by (simp add: layout_extends_Nil)
  qed
qed

lemma model_fold_off_boundary:
  assumes "\<not> (0 < fi_height b \<and> fi_height b mod retarget_window params = 0)"
    and "model_fold params b s = Inr (s', acts)"
  shows "acts = [] \<and> s' = accumulate params b s"
  using assms by (auto simp: model_fold_def py_mod_def Let_def split: if_splits)

subsection \<open>The v4 growth gate\<close>

lemma activate_event_window:
  "activate_event sp ev (s, acts) = Inr (s', acts') \<Longrightarrow> s' = s\<lparr>ms_pages := ms_pages s'\<rparr>"
  by (auto simp: activate_event_def res_simps Let_def split: prod.splits)

lemma activate_loop_window:
  "foldE (activate_event sp) evs st = Inr st' \<Longrightarrow> fst st' = (fst st)\<lparr>ms_pages := ms_pages (fst st')\<rparr>"
proof (induction evs arbitrary: st)
  case (Cons ev evs)
  then obtain r where r: "activate_event sp ev st = Inr r" "foldE (activate_event sp) evs r = Inr st'"
    by (auto simp: res_simps)
  have "fst r = (fst st)\<lparr>ms_pages := ms_pages (fst r)\<rparr>"
    using activate_event_window [of sp ev "fst st" "snd st" "fst r" "snd r"] r(1) by simp
  then show ?case using Cons.IH [OF r(2)] by (metis model_state.update_convs(1) model_state.surjective)
qed simp

lemma thaw_or_grow_events:
  "thaw_or_grow params d h frozen s = Inr s' \<Longrightarrow>
     ms_events_total s' = ms_events_total s \<or> ms_events_total s' = ms_events_total s + 1 \<and> dec_schedule d"
  by (auto simp: thaw_or_grow_def res_simps split: if_splits)

lemma decide_window_surplus:
  "decide_window params s = Inr d \<Longrightarrow> dec_thaw_ok d \<Longrightarrow> window_staleness params s \<le> stale_ceiling_4dp params"
  by (auto simp: decide_window_def retarget_decide_def res_simps Let_def params_cfg_def)

text \<open>A boundary that schedules growth has the quorum in its list of scorers.\<close>

lemma boundary_growth_quorum:
  assumes P: "params_ok params" and rev: "ms_rev s = 4" and stale: "stale_ceiling_4dp params < 10000"
    and fb: "fold_boundary params b s = Inr (s', acts)" and grew: "ms_events_total s' \<noteq> ms_events_total s"
  shows "growth_quorum params \<le> int (length (ms_win_scorers s))"
proof -
  let ?s0 = "s\<lparr>ms_window_id := ms_window_id s + 1\<rparr>"
  from fb obtain s1 d s3 where
    1: "activate_due_events params ?s0 = Inr (s1, acts)" and d: "decide_window params s1 = Inr d"
    and 3: "thaw_or_grow params d (fi_prev_hash b) (grown_pages params FROZEN (apply_decision d s1)) (apply_decision d s1) = Inr s3"
    and s': "s' = reset_window (freeze_page d (grown_pages params ACTIVE (apply_decision d s1)) s3)"
    by (auto simp: fold_boundary_def res_simps Let_def split: prod.splits)
  have e: "s1 = ?s0\<lparr>ms_pending := filter (\<lambda>e. ms_window_id ?s0 < fst e) (ms_pending ?s0), ms_pages := ms_pages s1\<rparr>"
    using activate_loop_window [OF 1 [unfolded activate_due_events_def]] by simp
  have s1: "ms_rev s1 = 4" "ms_win_scorers s1 = ms_win_scorers s" "ms_events_total s1 = ms_events_total s"
    using rev by (subst e, simp)+
  have "ms_events_total s' = ms_events_total s3"
    by (simp add: s' reset_window_def freeze_page_def)
  then have "dec_schedule d"
    using thaw_or_grow_events [OF 3] grew s1(3) by (simp add: apply_decision_def)
  then have "dec_thaw_ok d"
    using retarget.schedule_needs_surplus [OF _ d [unfolded decide_window_def]] P by (simp add: params_ok_def)
  from decide_window_surplus [OF d this] stale s1 show ?thesis
    by (simp add: window_staleness_def split: if_splits)
qed

text \<open>The blocks of a window, folded one after the other.\<close>

definition fold_step :: "genesis_params \<Rightarrow> fold_input \<Rightarrow> model_state \<Rightarrow> model_state res" where
  "fold_step params b s = bindE (model_fold params b s) (\<lambda>(s', acts). Inr s')"

definition positive_proposers :: "fold_input list \<Rightarrow> string set" where
  "positive_proposers bs = fi_proposer ` {b \<in> set bs. 0 < fi_score_sum b \<and> fi_proposer b \<noteq> []}"

definition off_boundary :: "genesis_params \<Rightarrow> fold_input \<Rightarrow> bool" where
  "off_boundary params b \<longleftrightarrow> \<not> (0 < fi_height b \<and> fi_height b mod retarget_window params = 0)"

interpretation window_fold: inv_step "fold_step params" "off_boundary params" "model_ok params" for params
proof
  fix b s t assume "off_boundary params b" "model_ok params s" "fold_step params b s = Inr t"
  then show "model_ok params t"
    using model_fold_off_boundary [of b params s] accumulate_ok
    by (auto simp: fold_step_def off_boundary_def res_simps)
qed

lemma window_scorers:
  "foldE (fold_step params) bs s = Inr t \<Longrightarrow> (\<forall>b\<in>set bs. off_boundary params b) \<Longrightarrow>
     set (ms_win_scorers t) \<subseteq> set (ms_win_scorers s) \<union> positive_proposers bs
     \<and> ms_events_total t = ms_events_total s"
proof (induction bs arbitrary: s)
  case (Cons b bs)
  then obtain u where u: "fold_step params b s = Inr u" "foldE (fold_step params) bs u = Inr t"
    by (auto simp: res_simps)
  have "u = accumulate params b s"
    using u(1) Cons.prems(2) model_fold_off_boundary [of b params s]
    by (auto simp: fold_step_def off_boundary_def res_simps)
  moreover have "positive_proposers bs \<subseteq> positive_proposers (b # bs)" by (auto simp: positive_proposers_def)
  moreover have "set (ms_win_scorers (accumulate params b s)) \<subseteq> set (ms_win_scorers s) \<union> positive_proposers (b # bs)"
    using accumulate_scorers [of params b s] by (auto simp: positive_proposers_def)
  ultimately show ?case using Cons.IH [OF u(2)] Cons.prems(2) by auto
qed (simp add: positive_proposers_def)

lemma window_growth_quorum:
  assumes P: "params_ok params" and stale: "stale_ceiling_4dp params < 10000"
    and start: "model_ok params s" "ms_win_scorers s = []"
    and inner: "\<forall>b\<in>set bs. off_boundary params b"
    and last: "\<not> off_boundary params l" "v4_height params \<le> fi_height l"
    and run: "foldE (fold_step params) (bs @ [l]) s = Inr t"
    and grew: "ms_events_total t \<noteq> ms_events_total s"
  shows "growth_quorum params \<le> int (card (positive_proposers (bs @ [l])))"
proof -
  from run obtain u where u: "foldE (fold_step params) bs s = Inr u" and l: "fold_step params l u = Inr t"
    by (auto simp: foldE_append res_simps)
  have W: "retarget_window params \<noteq> 0" using P by (auto simp: params_ok_def)
  let ?a = "accumulate params l u"
  from l last W obtain acts where fb: "fold_boundary params l ?a = Inr (t, acts)"
    by (auto simp: fold_step_def model_fold_def py_mod_def off_boundary_def res_simps)
  note ws = window_scorers [OF u inner]
  have "growth_quorum params \<le> int (length (ms_win_scorers ?a))"
    by (rule boundary_growth_quorum [OF P accumulate_rev [OF last(2)] stale fb]) (use grew ws in simp)
  moreover have "model_ok params ?a"
    using window_fold.foldE_inv [OF inner start(1) u] by (rule accumulate_ok)
  then have "distinct (ms_win_scorers ?a)" by (simp add: model_ok_def window_ok_def)
  moreover have "set (ms_win_scorers ?a) \<subseteq> positive_proposers (bs @ [l])"
  proof -
    have "set (ms_win_scorers u) \<subseteq> positive_proposers (bs @ [l])"
      using ws start(2) by (fastforce simp: positive_proposers_def)
    then show ?thesis using accumulate_scorers [of params l u] by (auto simp: positive_proposers_def)
  qed
  then have "card (set (ms_win_scorers ?a)) \<le> card (positive_proposers (bs @ [l]))"
    by (rule card_mono [rotated]) (simp add: positive_proposers_def)
  ultimately show ?thesis by (simp add: distinct_card)
qed

subsection \<open>A new page's weights\<close>

lemma init_coord_bound: "\<bar>init_coord sp dg lane j\<bar> \<le> 1311"
proof -
  have "be_val bs mod INIT_SPAN < 2623" for bs by (simp add: INIT_SPAN_def)
  then have "int (be_val bs mod INIT_SPAN) < 2623" for bs by (metis of_nat_less_numeral_iff)
  then have "\<bar>int (be_val bs mod INIT_SPAN) - 1311\<bar> \<le> 1311" for bs
    by (smt (verit) of_nat_0_le_iff)
  then show ?thesis by (simp add: init_coord_def Let_def INIT_HALF_def)
qed

lemma length_init_block: "length (init_block P sp prefix n blk) = min 4 (n - blk * 4)"
proof -
  have "filter (\<lambda>lane. blk * 4 + lane < n) [0..<4] = [0..<min 4 (n - blk * 4)]"
    by (simp add: upt_rec numeral_eq_Suc min_def) (auto simp: upt_rec)
  then show ?thesis by (simp add: init_block_def Let_def)
qed

lemma sum_blocks: "(\<Sum>blk\<leftarrow>[0..<m]. min 4 (n - blk * 4)) = min (4 * m) (n::nat)"
  by (induction m) auto

lemma page_init_ok:
  assumes "spec_ok sp"
  shows "\<exists>w. page_init P tr pid sp = Inr w \<and> int (length w) = expert_page_len sp \<and> (\<forall>x\<in>set w. \<bar>x\<bar> \<le> 1311)"
proof -
  let ?n = "nat (expert_page_len sp)"
  let ?w = "concat (map (init_block P sp (page_init_prefix tr pid) ?n) [0..<(?n + 3) div 4])"
  have "length ?w = (\<Sum>blk\<leftarrow>[0..<(?n + 3) div 4]. min 4 (?n - blk * 4))"
    by (simp add: length_concat length_init_block comp_def)
  also have "\<dots> = ?n" unfolding sum_blocks by linarith
  finally have "int (length ?w) = expert_page_len sp" using expert_page_len_nonneg [OF assms] by simp
  moreover have "\<forall>x\<in>set ?w. \<bar>x\<bar> \<le> 1311" by (auto simp: init_block_def Let_def init_coord_bound)
  ultimately show ?thesis using expert_page_len_nonneg [OF assms]
    by (auto simp: page_init_def Let_def)
qed

end
