(* ===== verification/Lanes.thy ===== *)
theory Lanes
  imports Model_Props
begin

section \<open>Training lanes (rig/lanes.py)\<close>

text \<open>
  From protocol v5 a miner may claim the backbone and one stripe of the active expert pages,
  chosen by a hash of the epoch and its key. The lemmas show that every miner's lane exists, that the
  lanes partition the expert pages, and that a claimable page is an active page.
\<close>

definition n_lanes :: "int \<Rightarrow> int \<Rightarrow> int" where
  "n_lanes active_expert_pages width =
     (if active_expert_pages \<le> 0 then 1 else max 1 (active_expert_pages div max 1 width))"

definition lane_of_miner :: "prims \<Rightarrow> int \<Rightarrow> string \<Rightarrow> int \<Rightarrow> int" where
  "lane_of_miner P epoch miner_pub n =
     (if n \<le> 1 then 0
      else let h = sha256 P (encode (''sestrian-lane|v5|'' @ int_str epoch @ ''|'' @ miner_pub))
           in int (be_val (take 8 h)) mod n)"

definition lane_pages :: "int \<Rightarrow> int \<Rightarrow> int list \<Rightarrow> int set" where
  "lane_pages lane n expert_page_ids =
     (if n \<le> 1 then set expert_page_ids
      else set (map snd (filter (\<lambda>(k, p). int k mod n = lane) (List.enumerate 0 expert_page_ids))))"

definition kind_pages :: "bool \<Rightarrow> model_state \<Rightarrow> int list" where
  "kind_pages backbone s =
     filter (\<lambda>i. (pg_kind (ms_pages s ! nat i) = ''backbone'') = backbone \<and> is_active s i)
       (map int [0..<length (ms_pages s)])"

definition claimable_pages :: "prims \<Rightarrow> int \<Rightarrow> string \<Rightarrow> model_state \<Rightarrow> int \<Rightarrow> int set" where
  "claimable_pages P epoch miner_pub s width =
     (let expert_ids = kind_pages False s;
          n = n_lanes (int (length expert_ids)) width;
          lane = lane_of_miner P epoch miner_pub n
      in lane_pages lane n expert_ids \<union> set (kind_pages True s))"

subsection \<open>The lanes partition the expert pages\<close>

lemma n_lanes_pos: "1 \<le> n_lanes k w"
  by (simp add: n_lanes_def)

lemma lane_of_miner_range: "1 \<le> n \<Longrightarrow> 0 \<le> lane_of_miner P epoch pk n \<and> lane_of_miner P epoch pk n < n"
  by (auto simp: lane_of_miner_def Let_def)

lemma in_lane_iff:
  "1 < n \<Longrightarrow> p \<in> lane_pages lane n ids \<longleftrightarrow> (\<exists>k < length ids. ids ! k = p \<and> int k mod n = lane)"
  by (auto simp: lane_pages_def in_set_enumerate_eq image_iff)

lemma lane_pages_cover:
  assumes "1 \<le> n"
  shows "(\<Union>lane\<in>{0..<n}. lane_pages lane n ids) = set ids"
proof (cases "n = 1")
  case True
  then have "{0..<n} = {0}" by auto
  then show ?thesis using True by (simp add: lane_pages_def)
next
  case False
  then have n: "1 < n" using assms by simp
  have "p \<in> set ids \<longleftrightarrow> (\<exists>lane\<in>{0..<n}. p \<in> lane_pages lane n ids)" for p
  proof
    assume "p \<in> set ids"
    then obtain k where "k < length ids" "ids ! k = p" by (auto simp: in_set_conv_nth)
    then show "\<exists>lane\<in>{0..<n}. p \<in> lane_pages lane n ids"
      using n by (intro bexI [of _ "int k mod n"]) (auto simp: in_lane_iff)
  qed (use n in \<open>auto simp: in_lane_iff\<close>)
  then show ?thesis by auto
qed

lemma lane_pages_disjoint:
  assumes "distinct ids" "1 < n" "a \<noteq> b"
  shows "lane_pages a n ids \<inter> lane_pages b n ids = {}"
  using assms by (auto simp: in_lane_iff nth_eq_iff_index_eq)

lemma distinct_kind_pages: "distinct (kind_pages b s)"
  by (simp add: kind_pages_def distinct_map)

lemma kind_pages_active: "p \<in> set (kind_pages b s) \<Longrightarrow> is_active s p"
  by (auto simp: kind_pages_def)

lemma claimable_active: "p \<in> claimable_pages P epoch pk s w \<Longrightarrow> is_active s p"
proof -
  assume "p \<in> claimable_pages P epoch pk s w"
  moreover have "lane_pages l n ids \<subseteq> set ids" for l n ids
    by (auto simp: lane_pages_def in_set_enumerate_eq)
  ultimately show ?thesis
    unfolding claimable_pages_def Let_def by (blast dest: kind_pages_active)
qed

end
