(* ===== verification/Blockchain.thy ===== *)
theory Blockchain
  imports Token Lottery Lanes
begin

section \<open>Blocks, validation and the block tree (rig/blockchain.py)\<close>

text \<open>
  The header and its hash, the commitments to scores and sketches, the token transition of a
  block, full validation against the parent state, the tree of known blocks with
  heaviest-chain fork choice, replay and block production. \<open>validate_block\<close> is
  split into its numbered phases, run in the source's order; a phase that raises ends the
  validation. Scores and sketches are integers by type, so the source's \<^verbatim>\<open>isinstance\<close> tests
  have no counterpart.
\<close>

subsection \<open>Versions, headers and blocks\<close>

definition VERSION_SCHEDULE :: "(int \<times> int) list" where
  "VERSION_SCHEDULE = [(0, 2)]"

definition v5_active :: "genesis_params option \<Rightarrow> int \<Rightarrow> bool" where
  "v5_active params height =
     (case params of None \<Rightarrow> False | Some p \<Rightarrow> v5_height p \<noteq> 0 \<and> v5_height p \<le> height)"

definition expected_version :: "int \<Rightarrow> genesis_params option \<Rightarrow> int" where
  "expected_version height params =
     (if v5_active params height then 5
      else if (case params of None \<Rightarrow> False | Some p \<Rightarrow> v3_height p \<le> height) then 3
      else fold (\<lambda>(h0, ver) v. if h0 \<le> height then ver else v) VERSION_SCHEDULE
             (snd (hd VERSION_SCHEDULE)))"

definition txset_root :: "prims \<Rightarrow> backprop_tx list \<Rightarrow> string" where
  "txset_root P txs = sha_hex P (encode (join ''|'' (sort (map (bp_txid P) txs))))"

record header =
  h_height :: int
  h_prev_hash :: string
  h_state_root :: string
  h_txset_root :: string
  h_n_txs :: int
  h_work :: int
  h_proposer :: string
  h_transfer_root :: string
  h_ledger_root :: string
  h_data_root :: string
  h_vrf_proof :: string
  h_score_root :: string
  h_sketch_root :: string
  h_model_root :: string
  h_vrf_attempt :: int
  h_version :: int

definition header_json :: "header \<Rightarrow> json" where
  "header_json h = JObj
     [(''height'', JInt (h_height h)), (''prev_hash'', JStr (h_prev_hash h)),
      (''state_root'', JStr (h_state_root h)), (''txset_root'', JStr (h_txset_root h)),
      (''n_txs'', JInt (h_n_txs h)), (''work'', JInt (h_work h)), (''proposer'', JStr (h_proposer h)),
      (''transfer_root'', JStr (h_transfer_root h)), (''ledger_root'', JStr (h_ledger_root h)),
      (''data_root'', JStr (h_data_root h)), (''vrf_proof'', JStr (h_vrf_proof h)),
      (''score_root'', JStr (h_score_root h)), (''sketch_root'', JStr (h_sketch_root h)),
      (''model_root'', JStr (h_model_root h)), (''vrf_attempt'', JInt (h_vrf_attempt h)),
      (''version'', JInt (h_version h))]"

definition block_hash :: "prims \<Rightarrow> header \<Rightarrow> string" where
  "block_hash P h = sha_hex P (encode (dumps_default (header_json h)))"

record block =
  b_header :: header
  b_txs :: "backprop_tx list"
  b_bodies :: "(string, weights) dict"
  b_transfers :: "transfer_tx list"
  b_data_txs :: "data_tx list"
  b_scores :: "(string, int) dict"
  b_sketches :: "(string, int list) dict"

definition hash_of :: "prims \<Rightarrow> block \<Rightarrow> string" where
  "hash_of P b = block_hash P (b_header b)"

definition SCORE_CAP :: int where "SCORE_CAP = 10 ^ 9"
definition SKETCH_DIM :: nat where "SKETCH_DIM = 256"
definition I32 :: int where "I32 = 2 ^ 31"
definition I64_MAX :: int where "I64_MAX = 2 ^ 63 - 1"

definition scores_root :: "prims \<Rightarrow> (string, int) dict \<Rightarrow> string" where
  "scores_root P scores = sha_hex P (encode (dumps_compact (dict_json JInt scores)))"

definition sketch_root :: "prims \<Rightarrow> (string, int list) dict \<Rightarrow> string" where
  "sketch_root P sketches =
     sha_hex P (encode (dumps_compact (dict_json (\<lambda>v. JList (map JInt v)) sketches)))"

definition sat64 :: "int \<Rightarrow> int" where
  "sat64 x = max (- I64_MAX - 1) (min I64_MAX x)"

definition effective_scores :: "prims \<Rightarrow> backprop_tx list \<Rightarrow> (string, int) dict \<Rightarrow> (string, int) dict" where
  "effective_scores P txs scores =
     (let eff = dict_of (map (\<lambda>t. (bp_txid P t, dict_get scores (bp_txid P t) 0)) txs)
      in if eff \<noteq> [] \<and> dict_sum id eff = 0 then map (\<lambda>(k, v). (k, 1)) eff else eff)"

subsection \<open>The token transition of a block\<close>

definition short :: "string \<Rightarrow> string" where
  "short s = take 8 s"

definition active_hashes :: "ledger \<Rightarrow> string set" where
  "active_hashes led = set (map (\<lambda>(k, e). ent_data_hash e) (filter (\<lambda>(k, e). active e) (registry led)))"

definition active_set :: "ledger \<Rightarrow> string set" where
  "active_set led =
     set (map (\<lambda>(k, e). ent_data_hash e) (filter (\<lambda>(k, e). active e \<and> 0 < ent_weight e) (registry led)))"

definition check_provenance :: "prims \<Rightarrow> ledger \<Rightarrow> backprop_tx \<Rightarrow> unit \<Rightarrow> unit res" where
  "check_provenance P led tx u =
     raise_if (\<not> (\<exists>r\<in>set (canonical_refs tx). r \<in> active_hashes led))
       (ValidationError (''delta '' @ short (bp_txid P tx) @ '' names no staked/available data (provenance required)''))"

text \<open>\<^verbatim>\<open>hash_to_entry\<close> maps a data hash to the last active entry that carries it; the entry is
  shared with the registry, so the model keeps its registry key and updates it there.\<close>

definition hash_to_entry :: "ledger \<Rightarrow> (string, string) dict" where
  "hash_to_entry led =
     dict_of (map (\<lambda>(k, e). (ent_data_hash e, k)) (filter (\<lambda>(k, e). active e) (registry led)))"

definition credit_refs ::
  "string set \<Rightarrow> int \<Rightarrow> backprop_tx \<Rightarrow> (string, int) dict \<Rightarrow> (string, int) dict" where
  "credit_refs aset s tx data_credits =
     (let named = filter (\<lambda>r. r \<in> aset) (canonical_refs tx)
      in fold (\<lambda>r d. AList.update r (dict_get d r 0 + s * 10000 div int (length named)) d) named data_credits)"

definition add_sketch :: "int \<Rightarrow> int list \<Rightarrow> entry \<Rightarrow> entry" where
  "add_sketch n sk e =
     (let acc = (case ent_sketch e of None \<Rightarrow> replicate SKETCH_DIM 0
                 | Some a \<Rightarrow> if a = [] then replicate SKETCH_DIM 0 else a)
      in e\<lparr>ent_sketch := Some (map (\<lambda>(a, x). sat64 (a + x * 10000 div n)) (zip acc sk))\<rparr>)"

definition accrue_sketch ::
  "prims \<Rightarrow> (string, string) dict \<Rightarrow> (string, int list) dict \<Rightarrow> backprop_tx \<Rightarrow> ledger \<Rightarrow> ledger" where
  "accrue_sketch P h2e sketches tx led =
     (case map_of sketches (bp_txid P tx) of
        None \<Rightarrow> led
      | Some sk \<Rightarrow>
          if \<exists>x\<in>set sk. x \<noteq> 0
          then let named = List.map_filter (map_of h2e) (canonical_refs tx)
               in fold (\<lambda>k l. case map_of (registry l) k of
                          None \<Rightarrow> l
                        | Some e \<Rightarrow> l\<lparr>registry := AList.update k (add_sketch (int (length named)) sk e) (registry l)\<rparr>)
                    named led
          else led)"

definition accrue_tx ::
  "prims \<Rightarrow> block \<Rightarrow> (string, int) dict \<Rightarrow> string set \<Rightarrow> (string, string) dict \<Rightarrow> backprop_tx \<Rightarrow>
   (string, int) dict \<times> (string, int) dict \<times> ledger \<Rightarrow> (string, int) dict \<times> (string, int) dict \<times> ledger" where
  "accrue_tx P b eff aset h2e tx st =
     (let (mw, dc, led) = st; s = dict_get eff (bp_txid P tx) 0
      in (AList.update (bp_miner tx) (dict_get mw (bp_miner tx) 0 + s) mw,
          credit_refs aset s tx dc,
          accrue_sketch P h2e (b_sketches b) tx led))"

text \<open>Miner weights, data credits and sketches accrued over the block's deltas.\<close>

definition accrue :: "prims \<Rightarrow> block \<Rightarrow> ledger \<Rightarrow> (string, int) dict \<times> (string, int) dict \<times> ledger" where
  "accrue P b led =
     fold (accrue_tx P b (effective_scores P (b_txs b) (b_scores b)) (active_set led) (hash_to_entry led))
       (b_txs b) ([], [], led)"

definition lock_bond_step :: "prims \<Rightarrow> int \<Rightarrow> backprop_tx \<Rightarrow> ledger \<Rightarrow> ledger res" where
  "lock_bond_step P h tx led =
     bindE (address P (bp_miner tx)) (\<lambda>a.
     bindE (lock_bond (bp_txid P tx) a (bp_bond tx) h led) (\<lambda>(ok, led).
     bindE (raise_if (\<not> ok) (ValidationError (''miner cannot afford delta bond '' @ short (bp_txid P tx)))) (\<lambda>_.
     Inr led)))"

definition apply_account_tx :: "prims \<Rightarrow> int \<Rightarrow> string set \<Rightarrow> account_tx \<Rightarrow> ledger \<Rightarrow> ledger res" where
  "apply_account_tx P h jurors tx led =
     (case tx of
        Transfer t \<Rightarrow>
          if \<not> tr_verify P t
          then Inl (ValidationError (''bad signature on transfer '' @ short (tr_txid P t)))
          else bindE (apply_transfer P t led) (\<lambda>(ok, led).
            if ok then Inr led
            else Inl (ValidationError (''invalid transfer '' @ short (tr_txid P t) @ '' (nonce/balance)'')))
      | DataTx t \<Rightarrow>
          bindE (apply_data_tx P t h jurors led) (\<lambda>(ok, led).
            if ok then Inr led else Inl (ValidationError (''invalid data tx '' @ short (data_txid P t)))))"

definition truthy :: "string option \<Rightarrow> string list" where
  "truthy dc = (case dc of None \<Rightarrow> [] | Some a \<Rightarrow> if a = [] then [] else [a])"

definition apply_ledger :: "prims \<Rightarrow> ledger \<Rightarrow> block \<Rightarrow> string option \<Rightarrow> string set \<Rightarrow> ledger res" where
  "apply_ledger P parent_ledger b data_contributor recent_proposers =
     (let h = h_height (b_header b)
      in bindE (resolve_expired_challenges h parent_ledger) (\<lambda>led.
         bindE (resolve_expired_bonds h led) (\<lambda>led.
         bindE (foldE (check_provenance P led) (b_txs b) ()) (\<lambda>_.
         let (miner_weights, data_credits, led) = accrue P b led
         in bindE (apply_reward P h (map bp_miner (b_txs b)) (h_proposer (b_header b))
                     (truthy data_contributor) data_credits miner_weights led) (\<lambda>led.
            bindE (foldE (lock_bond_step P h) (b_txs b) led) (\<lambda>led.
            bindE (canonical_account_txs P (b_data_txs b) (b_transfers b)) (\<lambda>txs.
            foldE (apply_account_tx P h recent_proposers) txs led))))))) "

subsection \<open>Validation\<close>

definition verr :: "string \<Rightarrow> error" where
  "verr m = ValidationError m"

definition check_structure ::
  "block \<Rightarrow> int \<Rightarrow> bool \<Rightarrow> genesis_params option \<Rightarrow> unit res" where
  "check_structure b parent_height v1 params =
     (let h = b_header b
      in bindE (raise_if (v1 \<and> h_version h \<noteq> expected_version (h_height h) params)
                  (verr ''header version != scheduled'')) (\<lambda>_.
         bindE (raise_if (h_height h \<noteq> parent_height + 1) (verr ''height must be parent height + 1'')) (\<lambda>_.
         raise_if (h_n_txs h \<noteq> int (length (b_txs b))) (verr ''n_txs does not match tx count''))))"

definition proof_bytes :: "string \<Rightarrow> bytes res" where
  "proof_bytes s =
     (if s = [] then Inr [] else case fromhex s of None \<Rightarrow> Inl ValueError | Some b \<Rightarrow> Inr b)"

definition check_lottery :: "prims \<Rightarrow> header \<Rightarrow> bool \<Rightarrow> ledger option \<Rightarrow> unit res" where
  "check_lottery P h v1 parent_ledger =
     (if h_proposer h = ''genesis'' then Inr ()
      else bindE (proof_bytes (h_vrf_proof h)) (\<lambda>pf.
        if v1 then
          bindE (raise_if (\<not> (0 \<le> h_vrf_attempt h \<and> h_vrf_attempt h \<le> ATTEMPT_MAX))
                   (verr ''vrf_attempt out of range'')) (\<lambda>_.
          bindE (case parent_ledger of
                   Some led \<Rightarrow>
                     bindE (address P (h_proposer h)) (\<lambda>a.
                     raise_if (\<not> eligible P (h_proposer h) pf (h_prev_hash h) (h_height h)
                                  (h_vrf_attempt h) (balance led a) (ledger_supply led))
                       (verr ''proposer not eligible at this attempt''))
                 | None \<Rightarrow>
                     raise_if (\<not> verify P (h_proposer h)
                                  (seed P (h_prev_hash h) (h_height h) (h_vrf_attempt h)) pf)
                       (verr ''invalid proposer VRF proof'')) (\<lambda>_.
          bindE (attempt_work P pf (h_vrf_attempt h)) (\<lambda>w.
          raise_if (h_work h \<noteq> w) (verr ''header.work is not the VRF-derived weight''))))
        else
          bindE (raise_if (\<not> verify P (h_proposer h) (seed P (h_prev_hash h) (h_height h) 0) pf)
                   (verr ''invalid proposer VRF proof'')) (\<lambda>_.
          raise_if (h_work h \<noteq> vrf_work P pf) (verr ''header.work is not the VRF-derived weight''))))"

text \<open>The boolean msk over the body, one claimed span after the other.\<close>

definition mark_span :: "int \<Rightarrow> int \<Rightarrow> bool list \<Rightarrow> bool list" where
  "mark_span s e msk =
     (let n = length msk; i = slice_index n s; j = max i (slice_index n e)
      in take i msk @ replicate (j - i) True @ drop j msk)"

definition claim_mask :: "model_state \<Rightarrow> nat \<Rightarrow> int list \<Rightarrow> bool list res" where
  "claim_mask model n pages =
     foldE (\<lambda>p msk. bindE (page_span model p) (\<lambda>(s, e). Inr (mark_span s e msk)))
       pages (replicate n False)"

definition nnz :: "weights \<Rightarrow> int" where
  "nnz body = int (length (filter (\<lambda>x. x \<noteq> 0) body))"

definition check_claims ::
  "prims \<Rightarrow> header \<Rightarrow> model_state \<Rightarrow> genesis_params option \<Rightarrow> nat \<Rightarrow> backprop_tx \<Rightarrow> weights \<Rightarrow> unit res" where
  "check_claims P h model params n tx body =
     (let pages = canonical_pages tx
      in bindE (raise_if (pages = [] \<or> bp_pages tx \<noteq> pages) (verr ''tx pages must be canonical and nonempty'')) (\<lambda>_.
         bindE (raise_if (\<exists>p\<in>set pages. \<not> is_active model p) (verr ''tx claims missing/frozen page'')) (\<lambda>_.
         bindE (case params of
                  None \<Rightarrow> Inr ()
                | Some gp \<Rightarrow>
                    if v5_height gp \<noteq> 0 \<and> v5_height gp \<le> h_height h
                    then bindE (py_div (h_height h) (lane_epoch_len gp)) (\<lambda>epoch.
                         raise_if (\<not> set pages \<subseteq> claimable_pages P epoch (bp_miner tx) model (lane_width gp))
                           (verr ''tx claims pages outside its lane''))
                    else Inr ()) (\<lambda>_.
         bindE (claim_mask model n pages) (\<lambda>msk.
         bindE (raise_if (\<exists>(m, x)\<in>set (zip msk body). \<not> m \<and> x \<noteq> 0)
                  (verr ''delta body nonzero outside claimed pages'')) (\<lambda>_.
         bindE (required_nnz model pages) (\<lambda>req.
         bindE (raise_if (nnz body < req) (verr ''delta below work quota'')) (\<lambda>_.
         raise_if (case params of None \<Rightarrow> False | Some gp \<Rightarrow> delta_max_nnz gp < nnz body)
           (verr ''delta exceeds the envelope (max nnz)'')))))))))"

definition check_tx ::
  "prims \<Rightarrow> block \<Rightarrow> model_state option \<Rightarrow> genesis_params option \<Rightarrow> nat \<Rightarrow> backprop_tx \<Rightarrow> unit \<Rightarrow> unit res" where
  "check_tx P b parent_model params n tx u =
     (let h = b_header b
      in bindE (raise_if (\<not> bp_verify P tx) (verr (''bad signature on tx '' @ short (bp_txid P tx)))) (\<lambda>_.
         bindE (raise_if (bp_base_height tx \<noteq> h_height h - 1) (verr ''tx base_height does not match parent'')) (\<lambda>_.
         case map_of (b_bodies b) (bp_da_pointer tx) of
           None \<Rightarrow> Inl (verr (''missing DA body for '' @ bp_da_pointer tx))
         | Some body \<Rightarrow>
             bindE (raise_if (length body \<noteq> n) (verr ''delta body length != model dimension'')) (\<lambda>_.
             bindE (raise_if (sha_hex P (tobytes body) \<noteq> bp_delta_hash tx)
                      (verr ''delta body hash mismatch (DA withholding/forgery)'')) (\<lambda>_.
             case parent_model of
               None \<Rightarrow> Inr ()
             | Some model \<Rightarrow> check_claims P h model params n tx body)))))"

definition txids :: "prims \<Rightarrow> block \<Rightarrow> string set" where
  "txids P b = set (map (bp_txid P) (b_txs b))"

definition check_scores :: "prims \<Rightarrow> block \<Rightarrow> unit res" where
  "check_scores P b =
     bindE (raise_if (set (map fst (b_scores b)) \<noteq> txids P b)
              (verr ''scores must cover exactly the included txs'')) (\<lambda>_.
     bindE (foldE (\<lambda>(k, v) u. raise_if (\<not> (0 \<le> v \<and> v \<le> SCORE_CAP)) (verr (''score out of range for '' @ short k)))
              (b_scores b) ()) (\<lambda>_.
     raise_if (scores_root P (b_scores b) \<noteq> h_score_root (b_header b)) (verr ''score_root mismatch'')))"

definition check_sketches :: "prims \<Rightarrow> block \<Rightarrow> unit res" where
  "check_sketches P b =
     bindE (raise_if (set (map fst (b_sketches b)) \<noteq> txids P b)
              (verr ''sketches must cover exactly the included txs'')) (\<lambda>_.
     bindE (foldE (\<lambda>(k, v) u. raise_if (length v \<noteq> SKETCH_DIM \<or> (\<exists>x\<in>set v. \<not> (- I32 \<le> x \<and> x < I32)))
                                (verr (''sketch malformed for '' @ short k)))
              (b_sketches b) ()) (\<lambda>_.
     raise_if (sketch_root P (b_sketches b) \<noteq> h_sketch_root (b_header b)) (verr ''sketch_root mismatch'')))"

definition lookup_body :: "(string, weights) dict \<Rightarrow> backprop_tx \<Rightarrow> weights res" where
  "lookup_body bodies tx =
     (case map_of bodies (bp_da_pointer tx) of None \<Rightarrow> Inl KeyError | Some b \<Rightarrow> Inr b)"

definition model_spans :: "model_state \<Rightarrow> span list" where
  "model_spans m = map (\<lambda>p. (pg_start p, pg_end p)) (ms_pages m)"

text \<open>The weights of the pages a block activates, appended one after the other.\<close>

definition append_pages :: "prims \<Rightarrow> model_spec \<Rightarrow> activation list \<Rightarrow> weights \<Rightarrow> weights res" where
  "append_pages P sp acts w =
     foldE (\<lambda>(page_id, l, e, trigger) w. bindE (page_init P trigger page_id sp) (\<lambda>nw. Inr (w @ nw))) acts w"

text \<open>Aggregate over the parent page table, fold the model state, append the new pages.\<close>

definition paged_post ::
  "prims \<Rightarrow> genesis_params \<Rightarrow> fold_input \<Rightarrow> backprop_tx list \<Rightarrow> (string, weights) dict \<Rightarrow>
   weights \<Rightarrow> model_state \<Rightarrow> (weights \<times> model_state) res" where
  "paged_post P params fi txs bodies w model =
     bindE (mapE (lookup_body bodies) txs) (\<lambda>body_list.
     bindE (paged_transition w body_list (map canonical_pages txs) (model_spans model)) (\<lambda>w.
     bindE (model_fold params fi model) (\<lambda>(post_model, acts).
     bindE (append_pages P (gp_spec params) acts w) (\<lambda>w.
     Inr (w, post_model)))))"

definition block_fold_input :: "prims \<Rightarrow> block \<Rightarrow> fold_input" where
  "block_fold_input P b =
     (let h = b_header b
      in \<lparr>fi_height = h_height h, fi_n_txs = int (length (b_txs b)),
          fi_zero_scored = int (length (filter (\<lambda>t. dict_get (b_scores b) (bp_txid P t) 0 = 0) (b_txs b))),
          fi_prev_hash = h_prev_hash h, fi_score_sum = dict_sum id (b_scores b),
          fi_proposer = h_proposer h\<rparr>)"

definition dense_post :: "backprop_tx list \<Rightarrow> (string, weights) dict \<Rightarrow> weights \<Rightarrow> weights res" where
  "dense_post txs bodies w =
     bindE (mapE (lookup_body bodies) txs) (\<lambda>deltas.
       if deltas \<noteq> [] then bindE (trimmed_mean_int deltas) (vec_add w) else Inr w)"

definition check_transition ::
  "prims \<Rightarrow> block \<Rightarrow> weights \<Rightarrow> model_state option \<Rightarrow> genesis_params option \<Rightarrow>
   (weights \<times> model_state option) res" where
  "check_transition P b parent_w parent_model params =
     (let h = b_header b
      in case parent_model of
           Some model \<Rightarrow>
             (case params of
                None \<Rightarrow> Inl AttributeError
              | Some gp \<Rightarrow>
                  bindE (paged_post P gp (block_fold_input P b) (b_txs b) (b_bodies b) parent_w model) (\<lambda>(w, post).
                  bindE (page_state_root P w post) (\<lambda>r.
                  bindE (raise_if (r \<noteq> h_state_root h) (verr ''state_root does not reproduce from txs'')) (\<lambda>_.
                  bindE (raise_if (model_root P post \<noteq> h_model_root h)
                           (verr ''model_root does not reproduce (fold divergence)'')) (\<lambda>_.
                  Inr (w, Some post))))))
         | None \<Rightarrow>
             bindE (dense_post (b_txs b) (b_bodies b) parent_w) (\<lambda>w.
             bindE (raise_if (state_root P w \<noteq> h_state_root h) (verr ''state_root does not reproduce from txs'')) (\<lambda>_.
             Inr (w, None))))"

definition check_ledger ::
  "prims \<Rightarrow> block \<Rightarrow> ledger option \<Rightarrow> string option \<Rightarrow> string set \<Rightarrow> ledger option res" where
  "check_ledger P b parent_ledger data_contributor recent_proposers =
     (case parent_ledger of
        None \<Rightarrow> Inr None
      | Some pl \<Rightarrow>
          bindE (raise_if (transfer_root P (b_transfers b) \<noteq> h_transfer_root (b_header b)) (verr ''transfer_root mismatch'')) (\<lambda>_.
          bindE (raise_if (data_root P (b_data_txs b) \<noteq> h_data_root (b_header b)) (verr ''data_root mismatch'')) (\<lambda>_.
          bindE (apply_ledger P pl b data_contributor recent_proposers) (\<lambda>led.
          bindE (raise_if (ledger_root P led \<noteq> h_ledger_root (b_header b)) (verr ''ledger_root does not reproduce from block'')) (\<lambda>_.
          Inr (Some led))))))"

definition validate_block ::
  "prims \<Rightarrow> block \<Rightarrow> weights \<Rightarrow> int \<Rightarrow> ledger option \<Rightarrow> string option \<Rightarrow> string set \<Rightarrow>
   model_state option \<Rightarrow> genesis_params option \<Rightarrow> (weights \<times> ledger option \<times> model_state option) res" where
  "validate_block P b parent_w parent_height parent_ledger data_contributor recent_proposers parent_model params =
     bindE (check_structure b parent_height (parent_model \<noteq> None) params) (\<lambda>_.
     bindE (check_lottery P (b_header b) (parent_model \<noteq> None) parent_ledger) (\<lambda>_.
     bindE (foldE (check_tx P b parent_model params (length parent_w)) (b_txs b) ()) (\<lambda>_.
     bindE (raise_if (txset_root P (b_txs b) \<noteq> h_txset_root (b_header b)) (verr ''txset_root mismatch'')) (\<lambda>_.
     bindE (check_scores P b) (\<lambda>_.
     bindE (check_sketches P b) (\<lambda>_.
     bindE (check_transition P b parent_w parent_model params) (\<lambda>(w, post_model).
     bindE (check_ledger P b parent_ledger data_contributor recent_proposers) (\<lambda>led.
     Inr (w, led, post_model)))))))))"

end
