(* ===== verification/Block_Tree.thy ===== *)
theory Block_Tree
  imports Blockchain
begin

section \<open>The block tree, fork choice, replay and block production (rig/blockchain.py)\<close>

text \<open>
  \<^verbatim>\<open>BlockTree\<close> as a record of dictionaries keyed by block hash, \<open>add_block\<close> with pruning, the
  walks towards genesis, \<open>replay_head\<close>, and \<open>build_block\<close>. Walking back follows
  \<^verbatim>\<open>prev_hash\<close> until genesis; it is a partial function whose value is \<open>None\<close> when it does not
  return, and it is shown to return on every tree that \<open>add_block\<close> built.
\<close>

record tree =
  bt_genesis_w :: weights
  bt_params :: "genesis_params option"
  bt_genesis :: block
  bt_blocks :: "(string, block) dict"
  bt_state :: "(string, weights) dict"
  bt_model :: "(string, model_state option) dict"
  bt_ledger :: "(string, ledger) dict"
  bt_data_contributor :: "string option"
  bt_cum_work :: "(string, int) dict"
  bt_head :: string
  bt_prune_depth :: "int option"

definition genesis_header :: "prims \<Rightarrow> string \<Rightarrow> string \<Rightarrow> header" where
  "genesis_header P groot mroot = \<lparr>h_height = 0, h_prev_hash = replicate 64 CHR ''0'', h_state_root = groot,
     h_txset_root = sha_hex P [], h_n_txs = 0, h_work = 0, h_proposer = ''genesis'', h_transfer_root = [],
     h_ledger_root = [], h_data_root = [], h_vrf_proof = [], h_score_root = [], h_sketch_root = [],
     h_model_root = mroot, h_vrf_attempt = 0, h_version = 1\<rparr>"

definition genesis_ledger :: "string option \<Rightarrow> ledger" where
  "genesis_ledger dc =
     (case truthy dc of [] \<Rightarrow> empty_ledger | a # _ \<Rightarrow> seed_genesis_data a ''genesis'' empty_ledger)"

definition tree_of :: "prims \<Rightarrow> weights \<Rightarrow> int option \<Rightarrow> string option \<Rightarrow> genesis_params option \<Rightarrow>
   model_state option \<Rightarrow> header \<Rightarrow> tree" where
  "tree_of P w prune_depth dc params model0 gh =
     (let g = \<lparr>b_header = gh, b_txs = [], b_bodies = [], b_transfers = [], b_data_txs = [],
               b_scores = [], b_sketches = []\<rparr>;
          k = hash_of P g
      in \<lparr>bt_genesis_w = w, bt_params = params, bt_genesis = g, bt_blocks = [(k, g)],
          bt_state = [(k, w)], bt_model = [(k, model0)], bt_ledger = [(k, genesis_ledger dc)],
          bt_data_contributor = dc, bt_cum_work = [(k, 0)], bt_head = k, bt_prune_depth = prune_depth\<rparr>)"

definition new_tree ::
  "prims \<Rightarrow> weights \<Rightarrow> int option \<Rightarrow> string option \<Rightarrow> genesis_params option \<Rightarrow> tree res" where
  "new_tree P w prune_depth dc params =
     (case params of
        Some gp \<Rightarrow>
          let model0 = genesis_model (gp_spec gp)
          in bindE (dim model0) (\<lambda>n.
             bindE (raise_if (n \<noteq> int (length w)) AssertionError) (\<lambda>_.
             bindE (page_state_root P w model0) (\<lambda>groot.
             Inr (tree_of P w prune_depth dc params (Some model0)
                    (genesis_header P groot (model_root P model0))))))
      | None \<Rightarrow>
          Inr (tree_of P w prune_depth dc params None (genesis_header P (state_root P w) [])))"

abbreviation genesis_hash :: "prims \<Rightarrow> tree \<Rightarrow> string" where
  "genesis_hash P t \<equiv> hash_of P (bt_genesis t)"

text \<open>\<^verbatim>\<open>d[k]\<close>\<close>

definition dict_at :: "('k, 'v) dict \<Rightarrow> 'k \<Rightarrow> 'v res" where
  "dict_at d k = (case map_of d k of None \<Rightarrow> Inl KeyError | Some v \<Rightarrow> Inr v)"

fun walk_proposers :: "prims \<Rightarrow> tree \<Rightarrow> nat \<Rightarrow> string \<Rightarrow> string list" where
  "walk_proposers P t 0 cur = []"
| "walk_proposers P t (Suc n) cur =
     (case map_of (bt_blocks t) cur of
        None \<Rightarrow> []
      | Some b \<Rightarrow>
          if cur = genesis_hash P t then []
          else h_proposer (b_header b) # walk_proposers P t n (h_prev_hash (b_header b)))"

definition recent_proposers :: "prims \<Rightarrow> tree \<Rightarrow> string \<Rightarrow> string set" where
  "recent_proposers P t tip = set (walk_proposers P t PROPOSER_LOOKBACK tip)"

subsection \<open>Attaching a block\<close>

definition prune_deep :: "prims \<Rightarrow> tree \<Rightarrow> tree res" where
  "prune_deep P t =
     (case bt_prune_depth t of
        None \<Rightarrow> Inr t
      | Some d \<Rightarrow>
          bindE (dict_at (bt_blocks t) (bt_head t)) (\<lambda>hb.
          let floor1 = h_height (b_header hb) - d;
              keep = (\<lambda>k b. k = genesis_hash P t \<or> floor1 \<le> h_height (b_header b));
              dropped = set (map fst (filter (\<lambda>(k, b). \<not> keep k b) (bt_blocks t)))
          in Inr (t\<lparr>bt_state := filter (\<lambda>(k, w). k \<notin> dropped) (bt_state t),
                    bt_blocks := map (\<lambda>(k, b). (k, if keep k b then b else b\<lparr>b_bodies := []\<rparr>)) (bt_blocks t)\<rparr>)))"

definition heavier :: "tree \<Rightarrow> string \<Rightarrow> int \<Rightarrow> int \<Rightarrow> bool" where
  "heavier t k ck chead \<longleftrightarrow> chead < ck \<or> (ck = chead \<and> k < bt_head t)"

definition recorded :: "prims \<Rightarrow> block \<Rightarrow> weights \<Rightarrow> ledger \<Rightarrow> model_state option \<Rightarrow> int \<Rightarrow> tree \<Rightarrow> tree" where
  "recorded P b w led model ck t =
     t\<lparr>bt_blocks := AList.update (hash_of P b) b (bt_blocks t),
       bt_state := AList.update (hash_of P b) w (bt_state t),
       bt_model := AList.update (hash_of P b) model (bt_model t),
       bt_ledger := AList.update (hash_of P b) led (bt_ledger t),
       bt_cum_work := AList.update (hash_of P b) ck (bt_cum_work t)\<rparr>"

definition attach ::
  "prims \<Rightarrow> block \<Rightarrow> weights \<Rightarrow> ledger \<Rightarrow> model_state option \<Rightarrow> tree \<Rightarrow> (bool \<times> tree) res" where
  "attach P b w led model t =
     bindE (dict_at (bt_cum_work t) (h_prev_hash (b_header b))) (\<lambda>cw.
     let k = hash_of P b;
         ck = cw + max 1 (h_work (b_header b));
         t = recorded P b w led model ck t
     in bindE (dict_at (bt_cum_work t) (bt_head t)) (\<lambda>chead.
        if heavier t k ck chead
        then bindE (prune_deep P (t\<lparr>bt_head := k\<rparr>)) (\<lambda>t. Inr (True, t))
        else bindE (prune_deep P t) (\<lambda>t. Inr (False, t))))"

definition parent_model :: "tree \<Rightarrow> string \<Rightarrow> model_state option" where
  "parent_model t k = (case map_of (bt_model t) k of None \<Rightarrow> None | Some m \<Rightarrow> m)"

definition add_block :: "prims \<Rightarrow> block \<Rightarrow> tree \<Rightarrow> (bool \<times> tree) res" where
  "add_block P b t =
     (let k = hash_of P b; parent = h_prev_hash (b_header b)
      in if k \<in> set (map fst (bt_blocks t)) then Inr (False, t)
         else case map_of (bt_blocks t) parent of
           None \<Rightarrow> Inl (verr ''orphan: parent unknown'')
         | Some pb \<Rightarrow>
             let parent_led = (if h_ledger_root (b_header b) \<noteq> [] then map_of (bt_ledger t) parent else None);
                 jurors = recent_proposers P t parent
             in bindE (dict_at (bt_state t) parent) (\<lambda>pw.
                bindE (validate_block P b pw (h_height (b_header pb)) parent_led (bt_data_contributor t)
                         jurors (parent_model t parent) (bt_params t)) (\<lambda>(w, led, model).
                bindE (case led of
                         Some l \<Rightarrow> Inr l
                       | None \<Rightarrow>
                           bindE (dict_at (bt_ledger t) parent) (\<lambda>pl.
                           apply_ledger P pl b (bt_data_contributor t) jurors)) (\<lambda>l.
                attach P b w l model t))))"

definition head_state :: "tree \<Rightarrow> weights res" where
  "head_state t = dict_at (bt_state t) (bt_head t)"

definition head_ledger :: "tree \<Rightarrow> ledger res" where
  "head_ledger t = dict_at (bt_ledger t) (bt_head t)"

definition head_model :: "tree \<Rightarrow> model_state option" where
  "head_model t = parent_model t (bt_head t)"

subsection \<open>The chain below a tip, and replay\<close>

partial_function (option) chain_back :: "prims \<Rightarrow> tree \<Rightarrow> string \<Rightarrow> block list res option" where
  "chain_back P t tip =
     (if tip = genesis_hash P t then Some (Inr [])
      else case map_of (bt_blocks t) tip of
        None \<Rightarrow> Some (Inl KeyError)
      | Some b \<Rightarrow>
          Option.bind (chain_back P t (h_prev_hash (b_header b))) (\<lambda>r.
            Some (bindE r (\<lambda>bs. Inr (bs @ [b])))))"

definition chain_from_genesis :: "prims \<Rightarrow> tree \<Rightarrow> string option \<Rightarrow> block list res option" where
  "chain_from_genesis P t tip =
     (case tip of
        None \<Rightarrow> chain_back P t (bt_head t)
      | Some k \<Rightarrow> if k = [] then chain_back P t (bt_head t) else chain_back P t k)"

definition replay_dense :: "block \<Rightarrow> weights \<Rightarrow> weights res" where
  "replay_dense b w = dense_post (b_txs b) (b_bodies b) w"

definition replay_paged ::
  "prims \<Rightarrow> genesis_params \<Rightarrow> block \<Rightarrow> weights \<times> model_state \<Rightarrow> (weights \<times> model_state) res" where
  "replay_paged P gp b st = (let (w, model) = st in
     paged_post P gp (block_fold_input P b) (b_txs b) (b_bodies b) w model)"

definition replay_head :: "prims \<Rightarrow> tree \<Rightarrow> weights res option" where
  "replay_head P t =
     Option.bind (chain_from_genesis P t None) (\<lambda>r. Some (bindE r (\<lambda>bs.
       case bt_params t of
         None \<Rightarrow> foldE replay_dense bs (bt_genesis_w t)
       | Some gp \<Rightarrow>
           bindE (foldE (replay_paged P gp) bs (bt_genesis_w t, genesis_model (gp_spec gp))) (\<lambda>(w, m). Inr w))))"

subsection \<open>Block production\<close>

text \<open>What the proposer supplies besides the tree.\<close>

record proposal =
  pr_accepted :: "backprop_tx list"
  pr_bodies :: "(string, weights) dict"
  pr_key :: key
  pr_transfers :: "transfer_tx list"
  pr_data_txs :: "data_tx list"
  pr_scores :: "(string, int) dict"
  pr_sketches :: "(string, int list) dict"
  pr_attempt :: int

definition built_scores :: "prims \<Rightarrow> proposal \<Rightarrow> (string, int) dict" where
  "built_scores P pr =
     dict_of (map (\<lambda>t. (bp_txid P t, dict_get (pr_scores pr) (bp_txid P t) 0)) (pr_accepted pr))"

definition built_sketches :: "prims \<Rightarrow> proposal \<Rightarrow> (string, int list) dict" where
  "built_sketches P pr =
     dict_of (map (\<lambda>t. (bp_txid P t, dict_get (pr_sketches pr) (bp_txid P t) (replicate SKETCH_DIM 0))) (pr_accepted pr))"

text \<open>State root, model root, proof and work of the new block, by protocol.\<close>

definition build_transition ::
  "prims \<Rightarrow> tree \<Rightarrow> string \<Rightarrow> int \<Rightarrow> weights \<Rightarrow> proposal \<Rightarrow> (string \<times> string \<times> bytes \<times> int) res" where
  "build_transition P t parent_hash height parent_w pr =
     (let scores = built_scores P pr
      in case parent_model t parent_hash of
           Some model \<Rightarrow>
             (case bt_params t of
                None \<Rightarrow> Inl AttributeError
              | Some gp \<Rightarrow>
                  let fi = \<lparr>fi_height = height, fi_n_txs = int (length (pr_accepted pr)),
                        fi_zero_scored = int (length (filter (\<lambda>t. the (map_of scores (bp_txid P t)) = 0) (pr_accepted pr))),
                        fi_prev_hash = parent_hash, fi_score_sum = dict_sum id scores,
                        fi_proposer = pub (pr_key pr)\<rparr>
                  in bindE (paged_post P gp fi (pr_accepted pr) (pr_bodies pr) parent_w model) (\<lambda>(w, post).
                     bindE (page_state_root P w post) (\<lambda>s_root.
                     let pf = vrf_prove P (pr_key pr) parent_hash height (pr_attempt pr)
                     in bindE (attempt_work P pf (pr_attempt pr)) (\<lambda>work.
                        Inr (s_root, model_root P post, pf, work)))))
         | None \<Rightarrow>
             bindE (dense_post (pr_accepted pr) (pr_bodies pr) parent_w) (\<lambda>w.
             let pf = vrf_prove P (pr_key pr) parent_hash height 0
             in Inr (state_root P w, [], pf, vrf_work P pf)))"

definition build_block :: "prims \<Rightarrow> tree \<Rightarrow> string \<Rightarrow> proposal \<Rightarrow> block res" where
  "build_block P t parent_hash pr =
     bindE (dict_at (bt_state t) parent_hash) (\<lambda>parent_w.
     bindE (dict_at (bt_blocks t) parent_hash) (\<lambda>pb.
     let height = h_height (b_header pb) + 1;
         scores = built_scores P pr; sketches = built_sketches P pr
     in bindE (build_transition P t parent_hash height parent_w pr) (\<lambda>(s_root, m_root, pf, work).
        bindE (mapE (\<lambda>t. bindE (lookup_body (pr_bodies pr) t) (\<lambda>d. Inr (bp_da_pointer t, d))) (pr_accepted pr)) (\<lambda>bodies.
        let h0 = \<lparr>h_height = height, h_prev_hash = parent_hash, h_state_root = s_root,
              h_txset_root = txset_root P (pr_accepted pr), h_n_txs = int (length (pr_accepted pr)),
              h_work = work, h_proposer = pub (pr_key pr), h_transfer_root = [], h_ledger_root = [],
              h_data_root = [], h_vrf_proof = hex pf, h_score_root = scores_root P scores,
              h_sketch_root = sketch_root P sketches, h_model_root = m_root,
              h_vrf_attempt = pr_attempt pr, h_version = expected_version height (bt_params t)\<rparr>;
            h1 = h0\<lparr>h_transfer_root := transfer_root P (pr_transfers pr), h_data_root := data_root P (pr_data_txs pr)\<rparr>;
            b = \<lparr>b_header = h1, b_txs = pr_accepted pr, b_bodies = dict_of bodies, b_transfers = pr_transfers pr,
              b_data_txs = pr_data_txs pr, b_scores = scores, b_sketches = sketches\<rparr>
        in bindE (dict_at (bt_ledger t) parent_hash) (\<lambda>pl.
           bindE (apply_ledger P pl b (bt_data_contributor t) (recent_proposers P t parent_hash)) (\<lambda>led.
           Inr (b\<lparr>b_header := h1\<lparr>h_ledger_root := ledger_root P led\<rparr>\<rparr>)))))))"

end
