(* ===== verification/Token_Props.thy ===== *)
theory Token_Props
  imports Token
begin

section \<open>The ledger keeps its promises\<close>

text \<open>
  The invariant \<open>ledger_wf\<close> of the token ledger and the quantity \<open>ledger_total\<close> every
  grain is counted in: free balances, fee pools, and the grains escrowed in registry
  entries, open challenges and bonds. For each operation the theory shows that the
  invariant is kept and what happens to the total; the root properties follow from the
  loop contracts of \<^verbatim>\<open>Prelude\<close>, interpreted on the ledger's own loops.
\<close>

subsection \<open>Invariant and total\<close>

definition nonneg_dict :: "('k, int) dict \<Rightarrow> bool" where
  "nonneg_dict d \<longleftrightarrow> dict_wf d \<and> (\<forall>p\<in>set d. 0 \<le> snd p)"

definition votes :: "challenge \<Rightarrow> string list" where
  "votes c = ch_votes_for c @ ch_votes_against c"

definition wf_challenge :: "(string, entry) dict \<Rightarrow> challenge \<Rightarrow> bool" where
  "wf_challenge reg c \<longleftrightarrow> 0 < ch_stake c \<and> distinct (votes c)
     \<and> sorted (ch_votes_for c) \<and> sorted (ch_votes_against c)
     \<and> ch_challenger c \<notin> set (votes c)
     \<and> (case map_of reg (ch_data_id c) of
          None \<Rightarrow> False
        | Some e \<Rightarrow> active e \<and> ent_owner e \<notin> set (votes c))"

definition wf_market :: "(string, entry) dict \<Rightarrow> (string, challenge) dict \<Rightarrow> bool" where
  "wf_market reg chs \<longleftrightarrow> dict_wf reg \<and> dict_wf chs
     \<and> (\<forall>p\<in>set reg. 0 \<le> ent_stake (snd p))
     \<and> (\<forall>p\<in>set chs. wf_challenge reg (snd p))
     \<and> distinct (map (ch_data_id \<circ> snd) chs)"

definition wf_bonds :: "(string, bond) dict \<Rightarrow> bool" where
  "wf_bonds bs \<longleftrightarrow> dict_wf bs \<and> (\<forall>p\<in>set bs. 0 < bd_amount (snd p))"

definition ledger_wf :: "ledger \<Rightarrow> bool" where
  "ledger_wf led \<longleftrightarrow> nonneg_dict (balances led) \<and> nonneg_dict (nonces led)
     \<and> wf_market (registry led) (challenges led) \<and> wf_bonds (bonds led)
     \<and> 0 \<le> fee_data_pool led \<and> 0 \<le> fee_train_pool led"

definition ledger_total :: "ledger \<Rightarrow> int" where
  "ledger_total led = ledger_supply led + dict_sum ent_stake (registry led)
     + dict_sum ch_stake (challenges led) + dict_sum bd_amount (bonds led)"

lemmas total_defs = ledger_total_def ledger_supply_def

subsection \<open>Dictionaries whose values satisfy a predicate\<close>

lemma ball_update: "\<forall>p\<in>set d. Q p \<Longrightarrow> Q (k, v) \<Longrightarrow> \<forall>p\<in>set (AList.update k v d). Q p"
  using set_update_subset [of k v d] by blast

lemma in_set_delete [simp]: "p \<in> set (AList.delete k d) \<longleftrightarrow> p \<in> set d \<and> fst p \<noteq> k"
  by (auto simp: AList.delete_eq)

lemma nonneg_dict_update: "nonneg_dict d \<Longrightarrow> 0 \<le> v \<Longrightarrow> nonneg_dict (AList.update k v d)"
  using ball_update [of d "\<lambda>p. 0 \<le> snd p"] by (simp add: nonneg_dict_def)

lemma nonneg_dict_lookup: "nonneg_dict d \<Longrightarrow> map_of d k = Some v \<Longrightarrow> 0 \<le> v"
  by (fastforce simp: nonneg_dict_def dest: map_of_SomeD)

lemma nonneg_dict_get: "nonneg_dict d \<Longrightarrow> 0 \<le> dict_get d k 0"
  by (auto simp: dict_get_def nonneg_dict_lookup split: option.splits)

lemma map_snd_update_same:
  "map_of d k = Some c \<Longrightarrow> f c' = f c \<Longrightarrow> map (f \<circ> snd) (AList.update k c' d) = map (f \<circ> snd) d"
  by (induction d) (auto split: if_splits)

lemma distinct_snd_update:
  "distinct (map (f \<circ> snd) d) \<Longrightarrow> f v \<notin> set (map (f \<circ> snd) d) \<Longrightarrow>
     distinct (map (f \<circ> snd) (AList.update k v d))"
proof (induction d)
  case (Cons p d)
  have "set (map (f \<circ> snd) (AList.update k v d)) \<subseteq> insert (f v) (set (map (f \<circ> snd) d))"
    using set_update_subset [of k v d] by auto
  with Cons show ?case by (cases p) auto
qed simp

lemma distinct_snd_delete:
  "distinct (map (f \<circ> snd) d) \<Longrightarrow> distinct (map (f \<circ> snd) (AList.delete k d))"
  by (auto simp: AList.delete_eq distinct_map_filter)

lemma dict_sum_id_get: "dict_sum id (AList.update k v d) = dict_sum id d - dict_get d k 0 + v"
  by (simp add: dict_sum_update dict_get_def split: option.splits)

subsection \<open>Credits and debits\<close>

lemma credit_fields [simp]:
  "nonces (credit a x led) = nonces led" "registry (credit a x led) = registry led"
  "challenges (credit a x led) = challenges led" "bonds (credit a x led) = bonds led"
  "fee_data_pool (credit a x led) = fee_data_pool led"
  "fee_train_pool (credit a x led) = fee_train_pool led"
  by (simp_all add: credit_def)

lemma credit_wf [simp]: "ledger_wf led \<Longrightarrow> ledger_wf (credit a x led)"
  using nonneg_dict_get [of "balances led" a]
  by (auto simp: ledger_wf_def credit_def intro!: nonneg_dict_update)

lemma credit_total [simp]: "ledger_total (credit a x led) = ledger_total led + max 0 x"
  by (simp add: total_defs credit_def dict_sum_id_get)

lemma debit_fields:
  "debit a x led = Inr led' \<Longrightarrow>
     nonces led' = nonces led \<and> registry led' = registry led \<and> challenges led' = challenges led
     \<and> bonds led' = bonds led \<and> fee_data_pool led' = fee_data_pool led
     \<and> fee_train_pool led' = fee_train_pool led"
  by (auto simp: debit_def split: option.splits)

lemma debit_wf:
  "ledger_wf led \<Longrightarrow> x \<le> dict_get (balances led) a 0 \<Longrightarrow> debit a x led = Inr led' \<Longrightarrow> ledger_wf led'"
  by (auto simp: debit_def ledger_wf_def dict_get_def split: option.splits intro!: nonneg_dict_update)

lemma debit_total: "debit a x led = Inr led' \<Longrightarrow> ledger_total led' = ledger_total led - x"
  by (auto simp: debit_def total_defs dict_sum_update split: option.splits)

text \<open>The guard of every caller rules the \<^verbatim>\<open>KeyError\<close> out.\<close>

lemma debit_guarded: "0 < x \<Longrightarrow> x \<le> dict_get (balances led) a 0 \<Longrightarrow> \<exists>led'. debit a x led = Inr led'"
  by (auto simp: debit_def dict_get_def split: option.splits)

lemma fold_credit_fields [simp]:
  "nonces (fold (\<lambda>x. credit (f x) (g x)) xs led) = nonces led"
  "registry (fold (\<lambda>x. credit (f x) (g x)) xs led) = registry led"
  "challenges (fold (\<lambda>x. credit (f x) (g x)) xs led) = challenges led"
  "bonds (fold (\<lambda>x. credit (f x) (g x)) xs led) = bonds led"
  "fee_data_pool (fold (\<lambda>x. credit (f x) (g x)) xs led) = fee_data_pool led"
  "fee_train_pool (fold (\<lambda>x. credit (f x) (g x)) xs led) = fee_train_pool led"
  by (induction xs arbitrary: led) auto

lemma fold_credit_wf [simp]: "ledger_wf led \<Longrightarrow> ledger_wf (fold (\<lambda>x. credit (f x) (g x)) xs led)"
  by (induction xs arbitrary: led) auto

lemma fold_credit_total:
  "ledger_total (fold (\<lambda>x. credit (f x) (g x)) xs led) = ledger_total led + (\<Sum>x\<leftarrow>xs. max 0 (g x))"
  by (induction xs arbitrary: led) auto

subsection \<open>The block reward never pays more than it mints and drains\<close>

lemma credit_pub_credit: "credit_pub P p x led = Inr led' \<Longrightarrow> \<exists>a. led' = credit a x led"
  by (auto simp: credit_pub_def res_simps)

interpretation payout: valued_step "\<lambda>p. credit_pub P p (g p)" "\<lambda>_. True" ledger_wf ledger_total
  "\<lambda>p. max 0 (g p)" for P g
  by unfold_locales (auto dest!: credit_pub_credit)

lemma dict_sum_keys: "dict_wf d \<Longrightarrow> dict_sum f d = (\<Sum>k\<leftarrow>map fst d. f (the (map_of d k)))"
proof (induction d)
  case (Cons p d)
  obtain a b where p: "p = (a, b)" by (cases p)
  from Cons.prems have wf: "dict_wf d" and na: "a \<notin> set (map fst d)" by (auto simp: dict_wf_def p)
  have "(\<Sum>k\<leftarrow>map fst d. f (the (map_of (p # d) k))) = (\<Sum>k\<leftarrow>map fst d. f (the (map_of d k)))"
    using na by (intro arg_cong [where f = sum_list] map_cong) (auto simp: p)
  with Cons.IH [OF wf] show ?case by (simp add: p)
qed simp

lemma map_of_comprehension: "map_of (dict_of (map (\<lambda>p. (p, h p)) xs)) p = (if p \<in> set xs then Some (h p) else None)"
  by (simp add: map_of_dict_of rev_map map_of_map_restrict [of h, unfolded restrict_map_def])

lemma dict_sum_comprehension:
  fixes xs :: "'k::linorder list"
  shows "dict_sum id (dict_of (map (\<lambda>p. (p, h p)) xs)) = (\<Sum>p\<leftarrow>sort (remdups xs). h p)"
proof -
  let ?d = "dict_of (map (\<lambda>p. (p, h p)) xs)"
  have keys: "set (map fst ?d) = set xs"
    using dom_map_of_conv_image_fst [of ?d] by (auto simp: map_of_comprehension dom_def split: if_splits)
  have "dict_sum id ?d = (\<Sum>p\<leftarrow>map fst ?d. the (map_of ?d p))"
    by (simp add: dict_sum_keys)
  also have "\<dots> = (\<Sum>p\<leftarrow>map fst ?d. h p)"
    using keys by (intro arg_cong [where f = sum_list] map_cong) (auto simp: map_of_comprehension)
  also have "\<dots> = (\<Sum>p\<leftarrow>sort (remdups xs). h p)"
    using keys dict_wf_of [of "map (\<lambda>p. (p, h p)) xs"]
    by (intro sum_list_distinct_eq) (auto simp: dict_wf_def)
  finally show ?thesis .
qed

lemma max0_id: "(\<And>x. x \<in> set xs \<Longrightarrow> 0 \<le> f x) \<Longrightarrow> (\<Sum>x\<leftarrow>xs. max 0 (f x)) = (\<Sum>x\<leftarrow>xs. (f x::int))"
  by (induction xs) auto

lemma pro_rata_credits_le:
  assumes "0 \<le> pool" and "\<And>x. x \<in> set xs \<Longrightarrow> 0 \<le> w x" and "(\<Sum>x\<leftarrow>xs. w x) = W" and "0 < W"
  shows "(\<Sum>x\<leftarrow>xs. max 0 (pool * w x div W)) \<le> (pool::int)"
proof -
  have "(\<Sum>x\<leftarrow>xs. max 0 (pool * w x div W)) = (\<Sum>x\<leftarrow>xs. pool * w x div W)"
    using assms(1,2,4) by (intro max0_id) (auto simp: pos_imp_zdiv_nonneg_iff)
  with pro_rata_le [OF assms(3,4)] show ?thesis by simp
qed

lemma equal_credits_le:
  assumes "0 \<le> pool" and "xs \<noteq> []" and "length ys = length xs"
  shows "(\<Sum>x\<leftarrow>ys. max 0 (pool div int (length xs))) \<le> pool"
proof -
  have "(\<Sum>x\<leftarrow>ys. max 0 (pool div int (length xs))) = int (length xs) * (pool div int (length xs))"
    using assms by (simp add: sum_list_triv max_def pos_imp_zdiv_nonneg_iff)
  also have "\<dots> \<le> pool" using assms by (intro equal_split_le) auto
  finally show ?thesis .
qed

lemma dict_get_nonneg: "\<forall>p\<in>set d. 0 \<le> snd p \<Longrightarrow> 0 \<le> dict_get d k (0::int)"
  by (fastforce simp: dict_get_def dest: map_of_SomeD split: option.splits)

lemma reward_miners_ok:
  assumes "reward_miners P pool ms ws led = Inr led'" and "ledger_wf led" and "0 \<le> pool"
    and "\<forall>p\<in>set ws. 0 \<le> snd p" and "ms \<noteq> []"
  shows "ledger_wf led' \<and> ledger_total led' \<le> ledger_total led + pool"
proof -
  define weights where "weights = dict_of (map (\<lambda>p. (p, dict_get ws p 0)) ms)"
  define W where "W = dict_sum id weights"
  have W: "(\<Sum>p\<leftarrow>sort (remdups ms). dict_get weights p 0) = W"
    unfolding W_def weights_def dict_sum_comprehension
    by (intro arg_cong [where f = sum_list] map_cong) (auto simp: dict_get_def map_of_comprehension)
  have w0: "0 \<le> dict_get weights p 0" for p
    using assms(4) by (auto simp: weights_def dict_get_def [of "dict_of _"] map_of_comprehension dict_get_nonneg)
  show ?thesis
  proof (cases "0 < W")
    case True
    with assms(1) have f: "foldE (\<lambda>p. credit_pub P p (pool * dict_get weights p 0 div W)) (sort (remdups ms)) led = Inr led'"
      by (simp add: reward_miners_def Let_def weights_def W_def)
    from payout.foldE_val [OF _ assms(2) f] pro_rata_credits_le [OF assms(3) w0 W True]
    show ?thesis using payout.foldE_inv [OF _ assms(2) f] by auto
  next
    case False
    with assms(1) have f: "foldE (\<lambda>p. credit_pub P p (pool div int (length ms))) (sort ms) led = Inr led'"
      by (simp add: reward_miners_def Let_def weights_def W_def)
    from payout.foldE_val [OF _ assms(2) f] equal_credits_le [OF assms(3,5), of "sort ms"]
    show ?thesis using payout.foldE_inv [OF _ assms(2) f] by auto
  qed
qed

lemma dict_wf_filter: "dict_wf d \<Longrightarrow> dict_wf (filter Q d)"
  by (auto simp: dict_wf_def distinct_map_filter)

lemma wf_pool_update:
  "ledger_wf led \<Longrightarrow> 0 \<le> x \<Longrightarrow> ledger_wf (led\<lparr>fee_data_pool := x\<rparr>)"
  "ledger_wf led \<Longrightarrow> 0 \<le> x \<Longrightarrow> ledger_wf (led\<lparr>fee_train_pool := x\<rparr>)"
  by (simp_all add: ledger_wf_def)

lemma total_pool_update:
  "ledger_total (led\<lparr>fee_data_pool := x\<rparr>) = ledger_total led - fee_data_pool led + x"
  "ledger_total (led\<lparr>fee_train_pool := x\<rparr>) = ledger_total led - fee_train_pool led + x"
  by (simp_all add: total_defs)

lemma reward_data_ok:
  assumes "ledger_wf led" and "0 \<le> pool" and "dict_wf credits"
  shows "ledger_wf (reward_data pool credits addrs led)
    \<and> ledger_total (reward_data pool credits addrs led) \<le> ledger_total led + pool"
proof -
  define paid where "paid = paid_hashes led credits"
  define drain where "drain \<longleftrightarrow> paid \<noteq> [] \<and> fee_data_pool led \<noteq> 0"
  define dp where "dp = (if drain then pool + fee_data_pool led else pool)"
  define led1 where "led1 = (if drain then led\<lparr>fee_data_pool := 0\<rparr> else led)"
  have pool0: "0 \<le> fee_data_pool led" using assms(1) by (simp add: ledger_wf_def)
  have wf1: "ledger_wf led1" using assms(1) by (simp add: led1_def wf_pool_update)
  have tot1: "ledger_total led1 + dp = ledger_total led + pool"
    by (simp add: led1_def dp_def total_pool_update)
  have dp0: "0 \<le> dp" using assms(2) pool0 by (simp add: dp_def)
  have eq: "reward_data pool credits addrs led =
    (if paid \<noteq> [] then fold (\<lambda>h. credit (dict_get (hash_to_owner led) h []) (dp * dict_get paid h 0 div dict_sum id paid))
        (sort (map fst paid)) led1
     else if addrs \<noteq> [] then fold (\<lambda>a. credit a (dp div int (length addrs))) (sort addrs) led1 else led1)"
    by (simp add: reward_data_def Let_def paid_def dp_def led1_def drain_def)
  show ?thesis
  proof (cases "paid = []")
    case False
    have wfp: "dict_wf paid" using assms(3) by (simp add: paid_def paid_hashes_def dict_wf_filter)
    have pos: "\<forall>p\<in>set paid. 0 < snd p" by (auto simp: paid_def paid_hashes_def)
    have sum: "(\<Sum>h\<leftarrow>sort (map fst paid). dict_get paid h 0) = dict_sum id paid"
      unfolding sum_list_sort_key dict_sum_keys [OF wfp]
      by (intro arg_cong [where f = sum_list] map_cong)
         (auto simp: dict_get_def map_of_eq_None_iff split: option.splits)
    have W: "0 < dict_sum id paid"
      using False pos
      by (cases paid) (fastforce simp: dict_sum_def intro!: add_pos_nonneg sum_list_nonneg)+
    have "0 \<le> dict_get paid h 0" for h using pos by (intro dict_get_nonneg) auto
    from pro_rata_credits_le [OF dp0 this sum W] False wf1 tot1 show ?thesis
      by (simp add: eq fold_credit_total)
  next
    case True
    then show ?thesis
      using wf1 tot1 dp0 equal_credits_le [OF dp0, of addrs "sort addrs"]
      by (auto simp: eq fold_credit_total)
  qed
qed

lemma emission_nonneg: "0 \<le> emission h"
  by (auto simp: emission_def TAIL_REWARD_def TAIL_EPOCH_def BASE_REWARD_def GRAIN_def le_max_iff_disj)

lemma shares_le: "e * SHARE_MINERS div 10000 + e * SHARE_PROPOSER div 10000 + e * SHARE_DATA div 10000 \<le> e"
  unfolding SHARE_MINERS_def SHARE_PROPOSER_def SHARE_DATA_def by linarith

lemma shares_nonneg:
  "0 \<le> emission h * SHARE_MINERS div 10000" "0 \<le> emission h * SHARE_PROPOSER div 10000"
  "0 \<le> emission h * SHARE_DATA div 10000"
  using emission_nonneg [of h]
  by (auto simp: SHARE_MINERS_def SHARE_PROPOSER_def SHARE_DATA_def pos_imp_zdiv_nonneg_iff)

lemma apply_reward_ok:
  assumes "apply_reward P h ms prop addrs credits ws led = Inr led'" and "ledger_wf led"
    and "dict_wf credits" and "\<forall>p\<in>set ws. 0 \<le> snd p"
  shows "ledger_wf led' \<and> ledger_total led' \<le> ledger_total led + emission h"
proof (cases "emission h = 0 \<and> fee_train_pool led = 0 \<and> fee_data_pool led = 0")
  case True
  with assms show ?thesis by (simp add: apply_reward_def)
next
  case False
  define drain where "drain \<longleftrightarrow> ms \<noteq> [] \<and> fee_train_pool led \<noteq> 0"
  define mp where "mp = (if drain then emission h * SHARE_MINERS div 10000 + fee_train_pool led
     else emission h * SHARE_MINERS div 10000)"
  define led1 where "led1 = (if drain then led\<lparr>fee_train_pool := 0\<rparr> else led)"
  have pool0: "0 \<le> fee_train_pool led" using assms(2) by (simp add: ledger_wf_def)
  have wf1: "ledger_wf led1" using assms(2) by (simp add: led1_def wf_pool_update)
  have mp0: "0 \<le> mp" using pool0 shares_nonneg(1) [of h] by (simp add: mp_def)
  have "bindE (if ms \<noteq> [] then reward_miners P mp ms ws led1 else Inr led1) (\<lambda>led.
      bindE (if prop \<noteq> [] \<and> prop \<noteq> ''genesis'' then credit_pub P prop (emission h * SHARE_PROPOSER div 10000) led
        else Inr led) (\<lambda>led. Inr (reward_data (emission h * SHARE_DATA div 10000) credits addrs led))) = Inr led'"
    using assms(1) False
    by (simp only: apply_reward_def Let_def drain_def [symmetric] mp_def [symmetric] led1_def [symmetric] if_False)
  then obtain led2 led3 where
    2: "(if ms \<noteq> [] then reward_miners P mp ms ws led1 else Inr led1) = Inr led2" and
    3: "(if prop \<noteq> [] \<and> prop \<noteq> ''genesis'' then credit_pub P prop (emission h * SHARE_PROPOSER div 10000) led2
        else Inr led2) = Inr led3" and
    4: "led' = reward_data (emission h * SHARE_DATA div 10000) credits addrs led3"
    unfolding bindE_eq_Inr by blast
  have a: "ledger_wf led2 \<and> ledger_total led2 \<le> ledger_total led1 + mp"
    using 2 wf1 mp0 reward_miners_ok [OF _ wf1 mp0 assms(4)] by (cases "ms = []") auto
  have b: "ledger_wf led3 \<and> ledger_total led3 \<le> ledger_total led2 + emission h * SHARE_PROPOSER div 10000"
    using 3 a shares_nonneg(2) [of h] by (auto split: if_splits dest!: credit_pub_credit)
  have c: "ledger_total led1 + mp = ledger_total led + emission h * SHARE_MINERS div 10000"
    by (simp add: led1_def mp_def total_pool_update)
  from reward_data_ok [OF _ shares_nonneg(3) assms(3), of led3 h addrs] a b c 4 shares_le [of "emission h"]
  show ?thesis by auto
qed

subsection \<open>Bonds\<close>

lemma wf_bonds_lookup: "wf_bonds bs \<Longrightarrow> map_of bs k = Some b \<Longrightarrow> 0 < bd_amount b"
  by (fastforce simp: wf_bonds_def dest: map_of_SomeD)

lemma wf_bonds_delete: "wf_bonds bs \<Longrightarrow> wf_bonds (AList.delete k bs)"
  by (simp add: wf_bonds_def)

lemma wf_bonds_update: "wf_bonds bs \<Longrightarrow> 0 < bd_amount b \<Longrightarrow> wf_bonds (AList.update k b bs)"
  using ball_update [of bs "\<lambda>p. 0 < bd_amount (snd p)" k b] by (simp add: wf_bonds_def)

lemma settle_bond_ok:
  assumes "ledger_wf led" and "settle_bond h tid led = Inr led'"
  shows "ledger_wf led' \<and> ledger_total led' = ledger_total led"
proof -
  obtain b where b: "map_of (bonds led) tid = Some b"
    using assms(2) by (auto simp: settle_bond_def split: option.splits)
  have wfb: "wf_bonds (bonds led)" using assms(1) by (simp add: ledger_wf_def)
  show ?thesis
  proof (cases "bd_expiry b \<le> h")
    case True
    have led': "led' = (credit (bd_miner b) (bd_amount b) led)\<lparr>bonds := AList.delete tid (bonds led)\<rparr>"
      using assms(2) True by (simp add: settle_bond_def b Let_def)
    have "ledger_wf (credit (bd_miner b) (bd_amount b) led)" using assms(1) by simp
    then have "ledger_wf led'" using wfb by (simp add: led' ledger_wf_def wf_bonds_delete)
    moreover have "ledger_total led' = ledger_total (credit (bd_miner b) (bd_amount b) led) - bd_amount b"
      using wfb by (simp add: led' total_defs dict_sum_delete wf_bonds_def b)
    ultimately show ?thesis using wf_bonds_lookup [OF wfb b] by simp
  next
    case False
    with assms b show ?thesis by (simp add: settle_bond_def)
  qed
qed

interpretation bond_settlement: conserving_step "settle_bond h" "\<lambda>_. True" ledger_wf ledger_total for h
  by unfold_locales (auto dest: settle_bond_ok)

lemma resolve_expired_bonds_ok:
  assumes "resolve_expired_bonds h led = Inr led'" and "ledger_wf led"
  shows "ledger_wf led' \<and> ledger_total led' = ledger_total led"
  using assms bond_settlement.foldE_inv [OF _ assms(2)] bond_settlement.foldE_eq [OF _ assms(2)]
  by (auto simp: resolve_expired_bonds_def)

lemma total_bond_update:
  "ledger_total (led\<lparr>bonds := AList.update k b (bonds led)\<rparr>) =
     ledger_total led - (case map_of (bonds led) k of None \<Rightarrow> 0 | Some b' \<Rightarrow> bd_amount b') + bd_amount b"
  by (simp add: total_defs dict_sum_update)

lemma lock_bond_ok:
  assumes "lock_bond tid a x h led = Inr (r, led')" and "ledger_wf led"
  shows "ledger_wf led' \<and> ledger_total led' \<le> ledger_total led"
proof (cases "x \<le> 0 \<or> dict_get (balances led) a 0 < x")
  case True
  with assms show ?thesis by (auto simp: lock_bond_def split: if_splits)
next
  case False
  define b where "b = \<lparr>bd_miner = a, bd_amount = x, bd_expiry = h + BOND_WINDOW\<rparr>"
  from False assms(1) obtain led1 where d: "debit a x led = Inr led1"
    and led': "led' = led1\<lparr>bonds := AList.update tid b (bonds led1)\<rparr>"
    by (auto simp: lock_bond_def res_simps b_def split: if_splits)
  from False have x: "0 < bd_amount b" by (simp add: b_def)
  have wf1: "ledger_wf led1" by (rule debit_wf [OF assms(2) _ d]) (use False in auto)
  then have "ledger_wf led'" by (simp add: led' ledger_wf_def wf_bonds_update [OF _ x])
  moreover have "0 \<le> (case map_of (bonds led1) tid of None \<Rightarrow> 0 | Some b' \<Rightarrow> bd_amount b')"
    using wf1 by (auto simp: ledger_wf_def split: option.splits dest: wf_bonds_lookup)
  then have "ledger_total led' \<le> ledger_total led1 + x"
    unfolding led' total_bond_update by (simp add: b_def)
  ultimately show ?thesis using debit_total [OF d] by simp
qed

subsection \<open>Challenges\<close>

lemma wf_market_lookup: "wf_market reg chs \<Longrightarrow> map_of chs k = Some c \<Longrightarrow> wf_challenge reg c"
  by (fastforce simp: wf_market_def dest: map_of_SomeD)

lemma wf_market_entry: "wf_market reg chs \<Longrightarrow> map_of reg k = Some e \<Longrightarrow> 0 \<le> ent_stake e"
  by (fastforce simp: wf_market_def dest: map_of_SomeD)

lemma wf_market_delete: "wf_market reg chs \<Longrightarrow> wf_market reg (AList.delete k chs)"
  by (simp add: wf_market_def distinct_snd_delete)

text \<open>Deleting a challenge frees its entry: no other open challenge refers to it.\<close>

lemma wf_market_other_entry:
  assumes "wf_market reg chs" and "map_of chs cid = Some c" and "p \<in> set (AList.delete cid chs)"
  shows "ch_data_id (snd p) \<noteq> ch_data_id c"
proof
  assume eq: "ch_data_id (snd p) = ch_data_id c"
  have "(cid, c) \<in> set chs" using assms(2) by (rule map_of_SomeD)
  moreover have "p \<in> set chs" "fst p \<noteq> cid" using assms(3) by auto
  moreover have "inj_on (ch_data_id \<circ> snd) (set chs)"
    using assms(1) by (simp add: wf_market_def distinct_map)
  ultimately have "p = (cid, c)" using eq by (auto intro: inj_onD)
  with \<open>fst p \<noteq> cid\<close> show False by simp
qed

lemma wf_market_entry_update:
  assumes "wf_market reg chs" and "0 \<le> ent_stake e"
    and "\<And>p. p \<in> set chs \<Longrightarrow> ch_data_id (snd p) \<noteq> k"
  shows "wf_market (AList.update k e reg) chs"
proof -
  have "wf_challenge (AList.update k e reg) (snd p)" if "p \<in> set chs" for p
    using assms(1) assms(3) [OF that] that
    by (auto simp: wf_market_def wf_challenge_def update_conv')
  then show ?thesis
    using assms(1,2) ball_update [of reg "\<lambda>p. 0 \<le> ent_stake (snd p)" k e] by (simp add: wf_market_def)
qed

lemma total_market_update:
  "ledger_total (led\<lparr>registry := reg, challenges := chs\<rparr>) = ledger_total led
     - dict_sum ent_stake (registry led) + dict_sum ent_stake reg
     - dict_sum ch_stake (challenges led) + dict_sum ch_stake chs"
  by (simp add: total_defs)

lemma settle_challenge_ok:
  assumes "ledger_wf led" and "settle_challenge h cid led = Inr led'"
  shows "ledger_wf led' \<and> ledger_total led' = ledger_total led"
proof -
  obtain c where c: "map_of (challenges led) cid = Some c"
    using assms(2) by (auto simp: settle_challenge_def split: option.splits)
  have wfm: "wf_market (registry led) (challenges led)" using assms(1) by (simp add: ledger_wf_def)
  from wf_market_lookup [OF wfm c] obtain e where e: "map_of (registry led) (ch_data_id c) = Some e"
    and pos: "0 < ch_stake c" by (auto simp: wf_challenge_def split: option.splits)
  note e0 = wf_market_entry [OF wfm e]
  let ?chs = "AList.delete cid (challenges led)"
  let ?reg = "AList.update (ch_data_id c) (e\<lparr>ent_status := ''revoked'', ent_stake := 0\<rparr>) (registry led)"
  have sums: "dict_sum ch_stake ?chs = dict_sum ch_stake (challenges led) - ch_stake c"
    "dict_sum ent_stake ?reg = dict_sum ent_stake (registry led) - ent_stake e"
    using wfm by (simp_all add: dict_sum_delete dict_sum_update wf_market_def c e)
  have wfd: "wf_market (registry led) ?chs" using wfm by (rule wf_market_delete)
  have wfr: "wf_market ?reg ?chs"
    by (rule wf_market_entry_update [OF wfd _ wf_market_other_entry [OF wfm c]]) simp_all
  consider "h < ch_expiry c" | "\<not> h < ch_expiry c" "upheld c" | "\<not> h < ch_expiry c" "\<not> upheld c" by blast
  then show ?thesis
  proof cases
    case 1
    with assms c show ?thesis by (simp add: settle_challenge_def)
  next
    case 2
    let ?l = "credit (ch_challenger c) (ent_stake e + ch_stake c) led"
    have led': "led' = ?l\<lparr>registry := ?reg, challenges := ?chs\<rparr>"
      using assms(2) 2 by (simp add: settle_challenge_def c e Let_def)
    have "ledger_wf ?l" using assms(1) by simp
    with wfr have "ledger_wf led'" by (simp add: led' ledger_wf_def)
    then show ?thesis using pos e0 unfolding led' total_market_update by (simp add: sums)
  next
    case 3
    let ?l = "credit (ent_owner e) (ch_stake c) led"
    have led': "led' = ?l\<lparr>challenges := ?chs\<rparr>"
      using assms(2) 3 by (simp add: settle_challenge_def c e Let_def)
    have "ledger_wf ?l" using assms(1) by simp
    with wfd have "ledger_wf led'" by (simp add: led' ledger_wf_def)
    moreover have "ledger_total led' = ledger_total ?l - ch_stake c"
      by (simp add: led' total_defs sums del: credit_total)
    ultimately show ?thesis using pos by simp
  qed
qed

interpretation challenge_settlement: conserving_step "settle_challenge h" "\<lambda>_. True" ledger_wf ledger_total for h
  by unfold_locales (auto dest: settle_challenge_ok)

lemma resolve_expired_challenges_ok:
  assumes "resolve_expired_challenges h led = Inr led'" and "ledger_wf led"
  shows "ledger_wf led' \<and> ledger_total led' = ledger_total led"
  using assms challenge_settlement.foldE_inv [OF _ assms(2)] challenge_settlement.foldE_eq [OF _ assms(2)]
  by (auto simp: resolve_expired_challenges_def)

subsection \<open>Account transactions\<close>

lemma wf_market_new_entry:
  assumes "wf_market reg chs" and "map_of reg k = None" and "0 \<le> ent_stake e"
  shows "wf_market (AList.update k e reg) chs"
proof (rule wf_market_entry_update [OF assms(1,3)])
  fix p assume "p \<in> set chs"
  with assms(1) have "wf_challenge reg (snd p)" by (simp add: wf_market_def)
  with assms(2) show "ch_data_id (snd p) \<noteq> k" by (auto simp: wf_challenge_def)
qed

lemma apply_submit_ok:
  assumes "apply_submit P tx src led = Inr (Some led')" and "ledger_wf led"
  shows "ledger_wf led' \<and> ledger_total led' = ledger_total led \<and> nonces led' = nonces led"
proof -
  define e where "e = \<lparr>ent_owner = src, ent_data_hash = ds_data_hash tx, ent_size = ds_size_bytes tx,
    ent_media_type = ds_media_type tx, ent_stake = ds_stake tx, ent_da_root = Some (ds_da_root tx),
    ent_weight = ds_stake tx, ent_status = ''active'', ent_sketch = None\<rparr>"
  from assms(1) obtain led1 where d: "debit src (ds_stake tx) led = Inr led1"
    and stake: "ds_stake tx \<le> dict_get (balances led) src 0" "0 < ds_stake tx" "ent_stake e = ds_stake tx"
    and fresh: "map_of (registry led) (ds_txid P tx) = None"
    and led': "led' = led1\<lparr>registry := AList.update (ds_txid P tx) e (registry led1)\<rparr>"
    by (auto simp: apply_submit_def res_simps e_def split: if_splits)
  note f = debit_fields [OF d] and wf1 = debit_wf [OF assms(2) stake(1) d]
  have "wf_market (AList.update (ds_txid P tx) e (registry led1)) (challenges led1)"
    using wf1 fresh stake f by (intro wf_market_new_entry) (auto simp: ledger_wf_def)
  with wf1 have "ledger_wf led'" by (simp add: led' ledger_wf_def)
  moreover have "ledger_total led' = ledger_total led1 + ds_stake tx"
    using fresh f by (simp add: led' total_defs dict_sum_update stake(3))
  ultimately show ?thesis using debit_total [OF d] f by (simp add: led')
qed

lemma apply_challenge_ok:
  assumes "apply_challenge P tx h src led = Inr (Some led')" and "ledger_wf led"
  shows "ledger_wf led' \<and> ledger_total led' \<le> ledger_total led \<and> nonces led' = nonces led"
proof -
  from assms(1) obtain e where e: "map_of (registry led) (dc_data_id tx) = Some e"
    by (auto simp: apply_challenge_def split: option.splits)
  define c where "c = \<lparr>ch_data_id = dc_data_id tx, ch_challenger = src, ch_stake = dc_stake tx,
    ch_reason = dc_reason tx, ch_expiry = h + CHALLENGE_WINDOW, ch_votes_for = [], ch_votes_against = []\<rparr>"
  from assms(1) e obtain led1 where d: "debit src (dc_stake tx) led = Inr led1"
    and guard: "active e" "0 < dc_stake tx" "dc_stake tx \<le> dict_get (balances led) src 0"
      "ch_data_id c \<notin> set (map (ch_data_id \<circ> snd) (challenges led))"
    and led': "led' = led1\<lparr>challenges := AList.update (dc_txid P tx) c (challenges led1)\<rparr>"
    by (force simp: apply_challenge_def res_simps c_def split: if_splits)
  note f = debit_fields [OF d] and wf1 = debit_wf [OF assms(2) guard(3) d]
  have wfm: "wf_market (registry led) (challenges led)" using assms(2) by (simp add: ledger_wf_def)
  have "wf_challenge (registry led) c" using guard e by (simp add: wf_challenge_def votes_def c_def)
  then have "wf_market (registry led) (AList.update (dc_txid P tx) c (challenges led))"
    using wfm guard(4) ball_update [of "challenges led" "\<lambda>p. wf_challenge (registry led) (snd p)"]
    by (simp add: wf_market_def distinct_snd_update)
  with wf1 f have "ledger_wf led'" by (simp add: led' ledger_wf_def)
  moreover have "0 \<le> (case map_of (challenges led) (dc_txid P tx) of None \<Rightarrow> 0 | Some c' \<Rightarrow> ch_stake c')"
    using wf_market_lookup [OF wfm] by (auto simp: wf_challenge_def less_imp_le split: option.splits)
  then have "ledger_total led' \<le> ledger_total led1 + ch_stake c"
    using f by (simp add: led' total_defs dict_sum_update)
  ultimately show ?thesis using debit_total [OF d] f by (simp add: led' c_def)
qed

lemma apply_vote_ok:
  assumes "apply_vote tx jurors src led = Inr (Some led')" and "ledger_wf led"
  shows "ledger_wf led' \<and> ledger_total led' = ledger_total led \<and> nonces led' = nonces led"
proof -
  from assms(1) obtain c where c: "map_of (challenges led) (dv_challenge_id tx) = Some c"
    by (auto simp: apply_vote_def split: option.splits)
  have wfm: "wf_market (registry led) (challenges led)" using assms(2) by (simp add: ledger_wf_def)
  note wfc = wf_market_lookup [OF wfm c]
  from assms(1) c obtain c' where
    c': "c' = (if dv_support tx then c\<lparr>ch_votes_for := sort (ch_votes_for c @ [src]), ch_votes_against := sort (ch_votes_against c)\<rparr>
       else c\<lparr>ch_votes_for := sort (ch_votes_for c), ch_votes_against := sort (ch_votes_against c @ [src])\<rparr>)"
    and guard: "src \<notin> set (votes c)" "src \<noteq> ch_challenger c"
      "\<And>e. map_of (registry led) (ch_data_id c) = Some e \<Longrightarrow> src \<noteq> ent_owner e"
    and led': "led' = led\<lparr>challenges := AList.update (dv_challenge_id tx) c' (challenges led)\<rparr>"
    by (auto simp: apply_vote_def Let_def votes_def split: if_splits option.splits)
  have "set (votes c') = insert src (set (votes c))" "distinct (votes c')"
    using wfc guard(1) by (auto simp: c' votes_def wf_challenge_def)
  moreover have same: "ch_data_id c' = ch_data_id c" "ch_stake c' = ch_stake c" "ch_challenger c' = ch_challenger c"
    by (simp_all add: c')
  moreover have "sorted (ch_votes_for c')" "sorted (ch_votes_against c')" by (simp_all add: c')
  ultimately have "wf_challenge (registry led) c'"
    using wfc guard by (auto simp: wf_challenge_def split: option.splits)
  then have "wf_market (registry led) (AList.update (dv_challenge_id tx) c' (challenges led))"
    using wfm ball_update [of "challenges led" "\<lambda>p. wf_challenge (registry led) (snd p)"]
      map_snd_update_same [OF c, of ch_data_id c'] same
    by (simp add: wf_market_def)
  with assms(2) have "ledger_wf led'" by (simp add: led' ledger_wf_def)
  then show ?thesis by (simp add: led' total_defs dict_sum_update c same)
qed

text \<open>The alignment dictionary: distinct owners, positive weights.\<close>

lemma align_step_cases:
  "align_step ans e al = al \<or>
   (\<exists>d>0. align_step ans e al = AList.update (ent_owner e) (dict_get al (ent_owner e) 0 + d) al)"
  by (auto simp: align_step_def Let_def split: option.splits)

lemma align_step_ok:
  assumes "dict_wf al" and "\<forall>p\<in>set al. 0 < snd p"
  shows "dict_wf (align_step ans e al) \<and> (\<forall>p\<in>set (align_step ans e al). 0 < snd p)"
proof -
  have g: "0 \<le> dict_get al (ent_owner e) 0" using assms(2) by (intro dict_get_nonneg) auto
  from align_step_cases [of ans e al] show ?thesis
  proof (elim disjE exE conjE)
    fix d :: int assume "0 < d" and
      eq: "align_step ans e al = AList.update (ent_owner e) (dict_get al (ent_owner e) 0 + d) al"
    with g ball_update [OF assms(2), of "ent_owner e" "dict_get al (ent_owner e) 0 + d"] assms(1)
    show ?thesis by simp
  qed (use assms in simp)
qed

lemma alignments_ok: "dict_wf (alignments ans led) \<and> (\<forall>p\<in>set (alignments ans led). 0 < snd p)"
proof -
  have "dict_wf (fold (align_step ans) es al) \<and> (\<forall>p\<in>set (fold (align_step ans) es al). 0 < snd p)"
    if "dict_wf al" "\<forall>p\<in>set al. 0 < snd p" for es al
    using that
  proof (induction es arbitrary: al)
    case (Cons e es)
    from align_step_ok [OF Cons.prems] have "dict_wf (align_step ans e al)"
      "\<forall>p\<in>set (align_step ans e al). 0 < snd p" by blast+
    from Cons.IH [OF this] show ?case by simp
  qed simp
  from this [of "[]"] show ?thesis by (simp add: alignments_def)
qed

lemma keyed_sum: "dict_wf d \<Longrightarrow> (\<Sum>k\<leftarrow>sort (map fst d). dict_get d k 0) = dict_sum id (d :: ('k::linorder, int) dict)"
  unfolding sum_list_sort_key
  by (simp add: dict_sum_keys, intro arg_cong [where f = sum_list] map_cong)
     (auto simp: dict_get_def map_of_eq_None_iff split: option.splits)

lemma fee_cuts: "0 < f \<Longrightarrow> 0 \<le> f * FEE_SHARE_DATA div 10000 \<and> 0 \<le> f * FEE_SHARE_TRAIN div 10000
    \<and> 0 < f - f * FEE_SHARE_DATA div 10000 - f * FEE_SHARE_TRAIN div 10000"
  unfolding FEE_SHARE_DATA_def FEE_SHARE_TRAIN_def by (intro conjI; linarith)

lemma apply_receipt_ok:
  assumes "apply_receipt tx src led = Inr (Some led')" and "ledger_wf led"
  shows "ledger_wf led' \<and> ledger_total led' \<le> ledger_total led \<and> nonces led' = nonces led"
proof -
  define dc tc where "dc = ir_fee tx * FEE_SHARE_DATA div 10000" and "tc = ir_fee tx * FEE_SHARE_TRAIN div 10000"
  from assms(1) obtain led1 where d: "debit src (ir_fee tx) led = Inr led1"
    and guard: "0 < ir_fee tx" "ir_fee tx \<le> dict_get (balances led) src 0"
    by (auto simp: apply_receipt_def res_simps split: if_splits)
  define led2 where "led2 = (credit (ir_server_addr tx) (ir_fee tx - dc - tc) led1)
    \<lparr>fee_train_pool := fee_train_pool led1 + tc\<rparr>"
  define al where "al = (if \<exists>x\<in>set (ir_answer_sketch tx). x \<noteq> 0 then alignments (ir_answer_sketch tx) led2 else [])"
  have "apply_receipt tx src led = (if dict_sum id al > 0
      then Inr (Some (fold (\<lambda>o1. credit o1 (dc * dict_get al o1 0 div dict_sum id al)) (sort (map fst al)) led2))
      else Inr (Some (led2\<lparr>fee_data_pool := fee_data_pool led2 + dc\<rparr>)))"
    using guard d unfolding dc_def tc_def al_def led2_def
    by (simp add: apply_receipt_def Let_def cong: if_cong)
  with assms(1) have led': "led' = (if dict_sum id al > 0
      then fold (\<lambda>o1. credit o1 (dc * dict_get al o1 0 div dict_sum id al)) (sort (map fst al)) led2
      else led2\<lparr>fee_data_pool := fee_data_pool led2 + dc\<rparr>)"
    by (simp split: if_splits)
  note cuts = fee_cuts [OF guard(1), folded dc_def tc_def]
  note f = debit_fields [OF d] and wf1 = debit_wf [OF assms(2) guard(2) d]
  from wf1 have tp: "0 \<le> fee_train_pool led1" "0 \<le> fee_data_pool led1" by (auto simp: ledger_wf_def)
  have wf2: "ledger_wf led2" using wf1 tp cuts by (simp add: led2_def wf_pool_update)
  have tot2: "ledger_total led2 = ledger_total led - dc"
    using cuts debit_total [OF d] by (simp add: led2_def total_pool_update)
  have wfal: "dict_wf al" "\<And>k. 0 \<le> dict_get al k 0"
    using alignments_ok [of "ir_answer_sketch tx" led2] by (auto simp: al_def intro!: dict_get_nonneg)
  show ?thesis
  proof (cases "dict_sum id al > 0")
    case True
    have "(\<Sum>k\<leftarrow>sort (map fst al). max 0 (dc * dict_get al k 0 div dict_sum id al)) \<le> dc"
      using cuts wfal by (intro pro_rata_credits_le keyed_sum True) auto
    then show ?thesis using True wf2 tot2 f by (simp add: led' fold_credit_total) (simp add: led2_def)
  next
    case False
    then show ?thesis using wf2 tot2 f tp cuts
      by (simp add: led' total_pool_update wf_pool_update) (simp add: led2_def wf_pool_update)
  qed
qed

lemma apply_data_branch_ok:
  assumes "apply_data_branch P tx h jurors src led = Inr (Some led')" and "ledger_wf led"
  shows "ledger_wf led' \<and> ledger_total led' \<le> ledger_total led \<and> nonces led' = nonces led"
  using assms apply_submit_ok [OF _ assms(2)] apply_challenge_ok [OF _ assms(2)]
    apply_vote_ok [OF _ assms(2)] apply_receipt_ok [OF _ assms(2)]
  by (cases tx) (auto simp: apply_data_branch_def)

lemma wf_nonce_update: "ledger_wf led \<Longrightarrow> 0 \<le> n \<Longrightarrow> ledger_wf (led\<lparr>nonces := AList.update a n (nonces led)\<rparr>)"
  by (simp add: ledger_wf_def nonneg_dict_update)

lemma total_nonce_update [simp]: "ledger_total (led\<lparr>nonces := x\<rparr>) = ledger_total led"
  by (simp add: total_defs)

text \<open>What an accepted transaction does to the nonces, in one rule for both lanes.\<close>

definition nonce_bump :: "prims \<Rightarrow> account_tx \<Rightarrow> ledger \<Rightarrow> ledger \<Rightarrow> bool" where
  "nonce_bump P tx led led' \<longleftrightarrow> (\<exists>src. address P (tx_pub tx) = Inr src
     \<and> tx_nonce tx = dict_get (nonces led) src 0
     \<and> nonces led' = AList.update src (tx_nonce tx + 1) (nonces led))"

lemma apply_data_tx_accept:
  assumes "apply_data_tx P tx h jurors led = Inr (True, led')" and "ledger_wf led"
  shows "ledger_wf led' \<and> ledger_total led' \<le> ledger_total led \<and> nonce_bump P (DataTx tx) led led'"
proof -
  from assms(1) obtain src led1 where src: "address P (data_pub tx) = Inr src"
    and n: "data_nonce tx = dict_get (nonces led) src 0"
    and b: "apply_data_branch P tx h jurors src led = Inr (Some led1)"
    and led': "led' = led1\<lparr>nonces := AList.update src (data_nonce tx + 1) (nonces led1)\<rparr>"
    by (auto simp: apply_data_tx_def res_simps split: if_splits option.splits)
  note ok = apply_data_branch_ok [OF b assms(2)]
  have "0 \<le> data_nonce tx" using assms(2) by (simp add: n nonneg_dict_get ledger_wf_def)
  then have "ledger_wf led'" using ok wf_nonce_update [of led1 "data_nonce tx + 1" src] by (simp add: led')
  with ok src n show ?thesis by (simp add: led' nonce_bump_def)
qed

lemma apply_data_tx_reject: "apply_data_tx P tx h jurors led = Inr (False, led') \<Longrightarrow> led' = led"
  by (auto simp: apply_data_tx_def res_simps split: if_splits option.splits)

lemma apply_transfer_reject: "apply_transfer P tx led = Inr (False, led') \<Longrightarrow> led' = led"
  by (auto simp: apply_transfer_def res_simps Let_def split: if_splits)

lemma apply_transfer_accept:
  assumes "apply_transfer P tx led = Inr (True, led')" and "ledger_wf led"
  shows "ledger_wf led' \<and> ledger_total led' = ledger_total led \<and> nonce_bump P (Transfer tx) led led'"
proof -
  from assms(1) obtain src led1 where src: "address P (tr_from_pub tx) = Inr src"
    and n: "tr_nonce tx = dict_get (nonces led) src 0"
    and guard: "0 < tr_amount tx" "tr_amount tx \<le> dict_get (balances led) src 0"
    and d: "debit src (tr_amount tx) led = Inr led1"
    and led': "led' = (credit (tr_to_addr tx) (tr_amount tx) led1)
      \<lparr>nonces := AList.update src (tr_nonce tx + 1) (nonces led1)\<rparr>"
    by (auto simp: apply_transfer_def res_simps Let_def split: if_splits)
  note f = debit_fields [OF d] and wf1 = debit_wf [OF assms(2) guard(2) d]
  have "0 \<le> tr_nonce tx" using assms(2) by (simp add: n nonneg_dict_get ledger_wf_def)
  then have "ledger_wf led'"
    using wf_nonce_update [of "credit (tr_to_addr tx) (tr_amount tx) led1" "tr_nonce tx + 1" src] wf1
    by (simp add: led')
  then show ?thesis using debit_total [OF d] guard f src n by (simp add: led' nonce_bump_def)
qed

subsection \<open>No exception escapes a signed transaction\<close>

lemma address_of_verified: "verify P p m s \<Longrightarrow> \<exists>a. address P p = Inr a"
  by (auto simp: address_def dest: verify_fromhex split: option.splits)

lemma tx_verify_address: "tx_verify P t \<Longrightarrow> \<exists>a. address P (tx_pub t) = Inr a"
  by (induction P t rule: tx_verify.induct)
     (auto simp: tr_verify_def address_of_verified
        ds_verify_def dc_verify_def dv_verify_def ir_verify_def elim!: data_verify.elims)

lemma apply_transfer_total:
  "apply_transfer P tx led \<noteq> Inl e"
proof (cases "tr_verify P tx \<and> 0 < tr_amount tx")
  case True
  then obtain src where src: "address P (tr_from_pub tx) = Inr src"
    using tx_verify_address [of P "Transfer tx"] by auto
  with True show ?thesis
    using debit_guarded [of "tr_amount tx" led src] by (auto simp: apply_transfer_def Let_def)
qed (auto simp: apply_transfer_def)

lemma apply_data_branch_total: "\<exists>r. apply_data_branch P tx h jurors src led = Inr r"
proof (cases tx)
  case (DataSubmit t)
  then show ?thesis using debit_guarded [of "ds_stake t" led src]
    by (auto simp: apply_data_branch_def apply_submit_def)
next
  case (DataChallenge t)
  then show ?thesis using debit_guarded [of "dc_stake t" led src]
    by (auto simp: apply_data_branch_def apply_challenge_def split: option.splits)
next
  case (DataVote t)
  then show ?thesis by (auto simp: apply_data_branch_def apply_vote_def Let_def split: option.splits)
next
  case (InferenceReceipt t)
  then show ?thesis using debit_guarded [of "ir_fee t" led src]
    by (auto simp: apply_data_branch_def apply_receipt_def Let_def)
qed

lemma apply_data_tx_total: "apply_data_tx P tx h jurors led \<noteq> Inl e"
proof (cases "data_verify P tx")
  case True
  then obtain src where src: "address P (data_pub tx) = Inr src"
    using tx_verify_address [of P "DataTx tx"] by auto
  obtain r where "apply_data_branch P tx h jurors src led = Inr r" using apply_data_branch_total by blast
  with True src show ?thesis by (cases r) (auto simp: apply_data_tx_def)
qed (simp add: apply_data_tx_def)

subsection \<open>What the operations do\<close>

lemma balance_update: "dict_get (AList.update k v d) a 0 = (if a = k then v else dict_get d a 0)"
  by (auto simp: dict_get_update)

lemma balance_credit: "balance (credit a x led) b = balance led b + (if b = a then max 0 x else 0)"
  by (auto simp: balance_def credit_def dict_get_update)

lemma balance_debit: "debit a x led = Inr led' \<Longrightarrow> balance led' b = balance led b - (if b = a then x else 0)"
  by (auto simp: balance_def debit_def dict_get_update split: option.splits) (simp add: dict_get_def)

lemma apply_transfer_effect:
  assumes "apply_transfer P tx led = Inr (True, led')"
  shows "\<exists>src. address P (tr_from_pub tx) = Inr src \<and> tr_verify P tx \<and> 0 < tr_amount tx
     \<and> tr_nonce tx = dict_get (nonces led) src 0 \<and> tr_amount tx \<le> balance led src
     \<and> (\<forall>a. balance led' a = balance led a - (if a = src then tr_amount tx else 0) + (if a = tr_to_addr tx then tr_amount tx else 0))
     \<and> (\<forall>a. dict_get (nonces led') a 0 = (if a = src then tr_nonce tx + 1 else dict_get (nonces led) a 0))
     \<and> registry led' = registry led \<and> challenges led' = challenges led \<and> bonds led' = bonds led"
proof -
  from assms obtain src led1 where src: "address P (tr_from_pub tx) = Inr src" and v: "tr_verify P tx"
    and n: "tr_nonce tx = dict_get (nonces led) src 0"
    and guard: "0 < tr_amount tx" "tr_amount tx \<le> dict_get (balances led) src 0"
    and d: "debit src (tr_amount tx) led = Inr led1"
    and led': "led' = (credit (tr_to_addr tx) (tr_amount tx) led1)
      \<lparr>nonces := AList.update src (tr_nonce tx + 1) (nonces led1)\<rparr>"
    by (auto simp: apply_transfer_def res_simps Let_def split: if_splits)
  have "balance led' a = balance (credit (tr_to_addr tx) (tr_amount tx) led1) a" for a
    by (simp add: led' balance_def)
  then have b: "balance led' a = balance led a - (if a = src then tr_amount tx else 0)
      + (if a = tr_to_addr tx then tr_amount tx else 0)" for a
    using guard(1) by (simp add: balance_credit balance_debit [OF d])
  have "tr_amount tx \<le> balance led src" using guard(2) by (simp add: balance_def)
  with src v n guard(1) b debit_fields [OF d] show ?thesis by (auto simp: led' dict_get_update)
qed

lemma registry_settle_other:
  assumes "settle_challenge h cid led = Inr led'" "map_of (challenges led) cid = Some c"
    and "map_of (registry led') k \<noteq> map_of (registry led) k"
  shows "k = ch_data_id c \<and> upheld c \<and> ch_expiry c \<le> h"
  using assms by (auto simp: settle_challenge_def Let_def update_conv' split: if_splits option.splits)

text \<open>An entry loses its stake only to a majority of at least three distinct voters, none of them
  the challenger or the owner.\<close>

lemma seizure_needs_quorum:
  assumes wf: "ledger_wf led" and s: "settle_challenge h cid led = Inr led'"
    and e: "map_of (registry led) k = Some e" "map_of (registry led') k \<noteq> Some e"
  shows "\<exists>c. map_of (challenges led) cid = Some c \<and> ch_data_id c = k \<and> ch_expiry c \<le> h \<and>
     3 \<le> card (set (ch_votes_for c)) \<and> card (set (ch_votes_against c)) < card (set (ch_votes_for c)) \<and>
     ch_challenger c \<notin> set (ch_votes_for c) \<and> ent_owner e \<notin> set (ch_votes_for c)"
proof -
  from s obtain c where c: "map_of (challenges led) cid = Some c"
    by (auto simp: settle_challenge_def split: option.splits)
  have m: "wf_market (registry led) (challenges led)" using wf by (simp add: ledger_wf_def)
  from wf_market_lookup [OF m c] have wc: "wf_challenge (registry led) c" .
  from registry_settle_other [OF s c, of k] e have k: "k = ch_data_id c" "upheld c" "ch_expiry c \<le> h" by auto
  from wc k(1) e(1) have d: "distinct (ch_votes_for c)" "distinct (ch_votes_against c)"
    and nv: "ch_challenger c \<notin> set (ch_votes_for c)" "ent_owner e \<notin> set (ch_votes_for c)"
    by (auto simp: wf_challenge_def votes_def)
  with c k show ?thesis by (simp add: upheld_def CHALLENGE_QUORUM_def distinct_card)
qed

lemma vote_needs_proposer:
  assumes "apply_vote tx jurors src led = Inr (Some led')"
  shows "dv_voter_pub tx \<in> jurors"
  using assms by (auto simp: apply_vote_def split: option.splits if_splits)

subsection \<open>Emission\<close>

lemma emission_mono:
  assumes "1 \<le> h" "h \<le> h'"
  shows "emission h' \<le> emission h"
proof -
  let ?e = "\<lambda>h. nat (min ((h - 1) div HALVING_BLOCKS) 62)"
  have "(h - 1) div HALVING_BLOCKS \<le> (h' - 1) div HALVING_BLOCKS"
    using assms by (intro zdiv_mono1) (auto simp: HALVING_BLOCKS_def)
  then have "(2::int) ^ ?e h \<le> 2 ^ ?e h'" by (intro power_increasing nat_mono) auto
  then have "BASE_REWARD div 2 ^ ?e h' \<le> BASE_REWARD div 2 ^ ?e h"
    by (intro zdiv_mono2) (auto simp: BASE_REWARD_def GRAIN_def)
  then show ?thesis using assms by (auto simp: emission_def)
qed

lemma emission_bounds:
  assumes "1 \<le> h"
  shows "TAIL_REWARD \<le> emission h \<and> emission h \<le> BASE_REWARD"
proof -
  have "emission 1 = BASE_REWARD"
    by (simp add: emission_def HALVING_BLOCKS_def BASE_REWARD_def GRAIN_def TAIL_REWARD_def TAIL_EPOCH_def)
  then show ?thesis using emission_mono [of 1 h] assms by (auto simp: emission_def)
qed

subsection \<open>Royalties follow the last active entry of a content address\<close>

lemma hash_to_owner_last:
  assumes "registry led = pre @ [(k, e)]" "active e"
  shows "map_of (hash_to_owner led) (ent_data_hash e) = Some (ent_owner e)"
  using assms by (simp add: hash_to_owner_def map_of_dict_of)

lemma AList_update_new: "map_of d k = None \<Longrightarrow> AList.update k v d = d @ [(k, v)]"
  by (induction d) (auto split: if_splits)

lemma resubmission_takes_royalties:
  assumes "apply_submit P tx src led = Inr (Some led')"
  shows "map_of (hash_to_owner led') (ds_data_hash tx) = Some src"
proof -
  define e where "e = \<lparr>ent_owner = src, ent_data_hash = ds_data_hash tx, ent_size = ds_size_bytes tx,
    ent_media_type = ds_media_type tx, ent_stake = ds_stake tx, ent_da_root = Some (ds_da_root tx),
    ent_weight = ds_stake tx, ent_status = ''active'', ent_sketch = None\<rparr>"
  from assms obtain led1 where d: "debit src (ds_stake tx) led = Inr led1"
    and n: "map_of (registry led) (ds_txid P tx) = None"
    and l: "led' = led1\<lparr>registry := AList.update (ds_txid P tx) e (registry led1)\<rparr>"
    unfolding e_def by (auto simp: apply_submit_def res_simps split: if_splits)
  have "registry led' = registry led @ [(ds_txid P tx, e)]"
    using debit_fields [OF d] n by (simp add: l AList_update_new)
  from hash_to_owner_last [OF this] show ?thesis by (simp add: e_def active_def)
qed

end
