(* ===== verification/Ledger_Props.thy ===== *)
theory Ledger_Props
  imports Blockchain Token_Props
begin

section \<open>The token transition of a block, and of a chain of blocks\<close>

text \<open>
  Lemmas on \<open>apply_ledger\<close>: it keeps the ledger well formed, mints at most the
  emission of its height, and consumes the nonces of every sender in sequence. Applied along a
  chain they give the supply cap and the absence of replays.
\<close>

subsection \<open>Sketch accrual changes no amount\<close>

text \<open>The part of the ledger that carries value and order.\<close>

definition same_value :: "ledger \<Rightarrow> ledger \<Rightarrow> bool" where
  "same_value l l' \<longleftrightarrow> nonces l' = nonces l \<and> ledger_total l' = ledger_total l \<and> (ledger_wf l \<longrightarrow> ledger_wf l')"

lemma same_value_refl [simp]: "same_value l l"
  by (simp add: same_value_def)

lemma same_value_trans: "same_value a b \<Longrightarrow> same_value b c \<Longrightarrow> same_value a c"
  by (simp add: same_value_def)

lemma wf_market_sketch:
  assumes "wf_market reg chs" and "map_of reg k = Some e"
  shows "wf_market (AList.update k (e\<lparr>ent_sketch := s\<rparr>) reg) chs"
proof -
  have "wf_challenge (AList.update k (e\<lparr>ent_sketch := s\<rparr>) reg) c" if "wf_challenge reg c" for c
    using that assms(2) by (auto simp: wf_challenge_def update_conv' active_def split: option.splits)
  then show ?thesis
    using assms wf_market_entry [OF assms] ball_update [of reg "\<lambda>p. 0 \<le> ent_stake (snd p)" k "e\<lparr>ent_sketch := s\<rparr>"]
    by (simp add: wf_market_def)
qed

lemma sketch_update_same:
  "map_of (registry l) k = Some e \<Longrightarrow> same_value l (l\<lparr>registry := AList.update k (add_sketch n s e) (registry l)\<rparr>)"
  by (simp add: same_value_def total_defs dict_sum_update add_sketch_def Let_def ledger_wf_def wf_market_sketch)

lemma fold_same_value: "(\<And>x l. same_value l (f x l)) \<Longrightarrow> same_value l (fold f xs l)"
  by (induction xs arbitrary: l) (auto intro: same_value_trans)

lemma accrue_sketch_same: "same_value led (accrue_sketch P h2e sks tx led)"
  unfolding accrue_sketch_def Let_def
  by (auto split: option.splits intro!: fold_same_value sketch_update_same)

text \<open>What the accrual loop builds: dictionaries fit for the reward, and an unchanged value.\<close>

definition accrual_ok :: "ledger \<Rightarrow> (string, int) dict \<times> (string, int) dict \<times> ledger \<Rightarrow> bool" where
  "accrual_ok led st \<longleftrightarrow> (let (mw, dc, l) = st in
     (\<forall>p\<in>set mw. 0 \<le> snd p) \<and> dict_wf dc \<and> same_value led l)"

lemma credit_refs_wf: "dict_wf dc \<Longrightarrow> dict_wf (credit_refs aset s tx dc)"
proof -
  have "dict_wf d \<Longrightarrow> dict_wf (fold (\<lambda>r d. AList.update r (dict_get d r 0 + c) d) rs d)" for d rs and c :: int
    by (induction rs arbitrary: d) auto
  then show "dict_wf dc \<Longrightarrow> ?thesis" by (simp add: credit_refs_def Let_def)
qed

lemma accrue_tx_ok:
  assumes "accrual_ok led st" and "\<And>k. 0 \<le> dict_get eff k 0"
  shows "accrual_ok led (accrue_tx P b eff aset h2e tx st)"
proof -
  obtain mw dc l where st: "st = (mw, dc, l)" by (cases st)
  with assms(1) have "\<forall>p\<in>set mw. 0 \<le> snd p" "dict_wf dc" "same_value led l" by (auto simp: accrual_ok_def)
  moreover have "0 \<le> dict_get mw (bp_miner tx) 0 + dict_get eff (bp_txid P tx) 0"
    using calculation(1) assms(2) by (simp add: dict_get_nonneg)
  moreover have "same_value led (accrue_sketch P h2e (b_sketches b) tx l)"
    using calculation(3) accrue_sketch_same by (rule same_value_trans)
  ultimately show ?thesis
    using ball_update [of mw "\<lambda>p. 0 \<le> snd p" "bp_miner tx"]
    by (simp add: accrual_ok_def accrue_tx_def st credit_refs_wf Let_def)
qed

lemma accrual_loop_ok:
  "accrual_ok led st \<Longrightarrow> (\<And>k. 0 \<le> dict_get eff k 0) \<Longrightarrow>
     accrual_ok led (fold (accrue_tx P b eff aset h2e) txs st)"
  by (induction txs arbitrary: st) (auto simp: accrue_tx_ok)

lemma effective_scores_nonneg:
  assumes "\<forall>p\<in>set scores. 0 \<le> snd p"
  shows "0 \<le> dict_get (effective_scores P txs scores) k 0"
proof -
  let ?eff = "dict_of (map (\<lambda>t. (bp_txid P t, dict_get scores (bp_txid P t) 0)) txs)"
  have "map_of ?eff k = Some v \<Longrightarrow> 0 \<le> v" for v
    using dict_get_nonneg [OF assms] by (auto simp: map_of_dict_of dest!: map_of_SomeD)
  then have "0 \<le> dict_get ?eff k 0" by (auto simp: dict_get_def split: option.splits)
  moreover have "0 \<le> dict_get (map (\<lambda>(k, v). (k, 1::int)) ?eff) k 0" by (rule dict_get_nonneg) auto
  ultimately show ?thesis by (simp add: effective_scores_def Let_def)
qed

subsection \<open>Nonces are untouched outside the account transactions\<close>

interpretation credit_nonces: inv_step "\<lambda>p. credit_pub P p (g p)" "\<lambda>_. True" "\<lambda>l. nonces l = N" for P g N
  by unfold_locales (auto dest!: credit_pub_credit)

interpretation bond_nonces: inv_step "settle_bond h" "\<lambda>_. True" "\<lambda>l. nonces l = N" for h N
  by unfold_locales (auto simp: settle_bond_def Let_def split: option.splits if_splits)

interpretation challenge_nonces: inv_step "settle_challenge h" "\<lambda>_. True" "\<lambda>l. nonces l = N" for h N
  by unfold_locales (auto simp: settle_challenge_def Let_def split: option.splits if_splits)

lemma reward_data_nonces: "nonces (reward_data pool credits addrs led) = nonces led"
  by (simp add: reward_data_def Let_def)

lemma reward_miners_nonces: "reward_miners P pool ms ws led = Inr led' \<Longrightarrow> nonces led' = nonces led"
  by (auto simp: reward_miners_def Let_def split: if_splits dest: credit_nonces.foldE_inv [rotated 2])

lemma apply_reward_nonces:
  "apply_reward P h ms pr addrs credits ws led = Inr led' \<Longrightarrow> nonces led' = nonces led"
  by (auto simp: apply_reward_def Let_def res_simps reward_data_nonces split: if_splits
      dest!: reward_miners_nonces credit_pub_credit)

lemma lock_bond_nonces: "lock_bond tid a x h led = Inr (r, led') \<Longrightarrow> nonces led' = nonces led"
  by (auto simp: lock_bond_def res_simps dest: debit_fields split: if_splits)

subsection \<open>Bonds and account transactions as loops\<close>

interpretation bond_lock: valued_step "lock_bond_step P h" "\<lambda>_. True" ledger_wf ledger_total "\<lambda>_. 0" for P h
  by unfold_locales (auto simp: lock_bond_step_def res_simps dest: lock_bond_ok)

interpretation bond_lock_nonces: inv_step "lock_bond_step P h" "\<lambda>_. True" "\<lambda>l. nonces l = N" for P h N
  by unfold_locales (auto simp: lock_bond_step_def res_simps dest: lock_bond_nonces)

lemma apply_account_tx_ok:
  assumes "apply_account_tx P h jurors tx led = Inr led'" and "ledger_wf led"
  shows "ledger_wf led' \<and> ledger_total led' \<le> ledger_total led \<and> nonce_bump P tx led led'"
proof (cases tx)
  case (DataTx t)
  with assms(1) have "apply_data_tx P t h jurors led = Inr (True, led')"
    by (auto simp: apply_account_tx_def res_simps split: if_splits)
  from apply_data_tx_accept [OF this assms(2)] show ?thesis by (simp add: DataTx)
next
  case (Transfer t)
  with assms(1) have "apply_transfer P t led = Inr (True, led')"
    by (auto simp: apply_account_tx_def res_simps split: if_splits)
  from apply_transfer_accept [OF this assms(2)] show ?thesis by (simp add: Transfer)
qed

interpretation account_lane: valued_step "apply_account_tx P h jurors" "\<lambda>_. True" ledger_wf ledger_total "\<lambda>_. 0"
  for P h jurors
  by unfold_locales (auto dest: apply_account_tx_ok)

subsection \<open>Nonce sequences\<close>

definition nonces_of :: "prims \<Rightarrow> string \<Rightarrow> account_tx list \<Rightarrow> int list" where
  "nonces_of P a txs = map tx_nonce (filter (\<lambda>t. tx_sender P t = Inr a) txs)"

definition nonce_at :: "ledger \<Rightarrow> string \<Rightarrow> int" where
  "nonce_at led a = dict_get (nonces led) a 0"

lemma nonces_of_append: "nonces_of P a (xs @ ys) = nonces_of P a xs @ nonces_of P a ys"
  by (simp add: nonces_of_def)

lemma nonce_bump_step:
  assumes "nonce_bump P tx led led'"
  shows "nonces_of P a [tx] = [nonce_at led a..nonce_at led' a - 1] \<and> nonce_at led a \<le> nonce_at led' a"
proof -
  from assms obtain src where s: "address P (tx_pub tx) = Inr src" "tx_nonce tx = dict_get (nonces led) src 0"
    "nonces led' = AList.update src (tx_nonce tx + 1) (nonces led)" by (auto simp: nonce_bump_def)
  show ?thesis
    by (cases "src = a") (auto simp: nonces_of_def nonce_at_def tx_sender_def s dict_get_update upto.simps)
qed

lemma account_nonces:
  "foldE (apply_account_tx P h jurors) txs led = Inr led' \<Longrightarrow> ledger_wf led \<Longrightarrow>
     nonces_of P a txs = [nonce_at led a..nonce_at led' a - 1] \<and> nonce_at led a \<le> nonce_at led' a"
proof (induction txs arbitrary: led)
  case Nil
  then show ?case by (simp add: nonces_of_def)
next
  case (Cons tx txs)
  then obtain u where u: "apply_account_tx P h jurors tx led = Inr u"
    "foldE (apply_account_tx P h jurors) txs u = Inr led'" by (auto simp: res_simps)
  from apply_account_tx_ok [OF u(1) Cons.prems(2)] have ok: "ledger_wf u" "nonce_bump P tx led u" by auto
  note one = nonce_bump_step [OF ok(2), of a] and rest = Cons.IH [OF u(2) ok(1)]
  have "nonces_of P a (tx # txs) = nonces_of P a [tx] @ nonces_of P a txs"
    using nonces_of_append [of P a "[tx]" txs] by simp
  also have "\<dots> = [nonce_at led a..nonce_at u a - 1] @ [nonce_at u a..nonce_at led' a - 1]"
    using one rest by simp
  also have "\<dots> = [nonce_at led a..nonce_at led' a - 1]"
    using one rest upto_split1 [of "nonce_at led a" "nonce_at u a" "nonce_at led' a - 1"]
    by (cases "nonce_at u a \<le> nonce_at led' a - 1") (auto simp: upto.simps)
  finally show ?case using one rest by simp
qed

subsection \<open>One block\<close>

definition scores_nonneg :: "block \<Rightarrow> bool" where
  "scores_nonneg b \<longleftrightarrow> (\<forall>p\<in>set (b_scores b). 0 \<le> snd p)"

text \<open>The last phase of the transition, and what comes before it.\<close>

lemma apply_ledger_phases:
  assumes "apply_ledger P led b dc jurors = Inr led'" and wf: "ledger_wf led" and sc: "scores_nonneg b"
  obtains mid txs where "canonical_account_txs P (b_data_txs b) (b_transfers b) = Inr txs"
    "foldE (apply_account_tx P (h_height (b_header b)) jurors) txs mid = Inr led'"
    "ledger_wf mid" "ledger_total mid \<le> ledger_total led + emission (h_height (b_header b))"
    "nonces mid = nonces led"
proof -
  let ?h = "h_height (b_header b)"
  from assms(1) obtain l1 l2 where
    1: "resolve_expired_challenges ?h led = Inr l1" and 2: "resolve_expired_bonds ?h l1 = Inr l2"
    unfolding apply_ledger_def Let_def bindE_eq_Inr by blast
  obtain mw cr l3 where 3: "accrue P b l2 = (mw, cr, l3)" by (metis prod_cases3)
  from assms(1) obtain l4 l5 txs where
    4: "apply_reward P ?h (map bp_miner (b_txs b)) (h_proposer (b_header b)) (truthy dc) cr mw l3 = Inr l4"
    and 5: "foldE (lock_bond_step P ?h) (b_txs b) l4 = Inr l5"
    and t: "canonical_account_txs P (b_data_txs b) (b_transfers b) = Inr txs"
    and f: "foldE (apply_account_tx P ?h jurors) txs l5 = Inr led'"
    unfolding apply_ledger_def Let_def by (auto simp: 1 2 3 bindE_eq_Inr)
  from resolve_expired_challenges_ok [OF 1 wf] have w1: "ledger_wf l1" "ledger_total l1 = ledger_total led" by auto
  from resolve_expired_bonds_ok [OF 2 w1(1)] have w2: "ledger_wf l2" "ledger_total l2 = ledger_total l1" by auto
  have n2: "nonces l2 = nonces led"
    using challenge_nonces.foldE_inv [OF _ refl 1 [unfolded resolve_expired_challenges_def]]
      bond_nonces.foldE_inv [OF _ refl 2 [unfolded resolve_expired_bonds_def]] by simp
  have "accrual_ok l2 (mw, cr, l3)"
    unfolding 3 [symmetric] accrue_def using sc effective_scores_nonneg
    by (intro accrual_loop_ok) (auto simp: accrual_ok_def scores_nonneg_def)
  then have mw: "\<forall>p\<in>set mw. 0 \<le> snd p" and cr: "dict_wf cr"
    and s3: "ledger_wf l3" "ledger_total l3 = ledger_total l2" "nonces l3 = nonces l2"
    using w2(1) by (auto simp: accrual_ok_def same_value_def)
  from apply_reward_ok [OF 4 s3(1) cr mw] have w4: "ledger_wf l4" "ledger_total l4 \<le> ledger_total l3 + emission ?h" by auto
  have "ledger_wf l5" "ledger_total l5 \<le> ledger_total l4" "nonces l5 = nonces l4"
    using bond_lock.foldE_inv [OF _ w4(1) 5] bond_lock.foldE_val [OF _ w4(1) 5]
      bond_lock_nonces.foldE_inv [OF _ refl 5] by (auto simp: sum_list_triv)
  with that [OF t f] w1 w2 s3 w4 n2 apply_reward_nonces [OF 4] show thesis by simp
qed

lemma apply_ledger_ok:
  assumes "apply_ledger P led b dc jurors = Inr led'" and "ledger_wf led" and "scores_nonneg b"
  shows "ledger_wf led' \<and> ledger_total led' \<le> ledger_total led + emission (h_height (b_header b))"
proof -
  obtain mid txs where "foldE (apply_account_tx P (h_height (b_header b)) jurors) txs mid = Inr led'"
    "ledger_wf mid" "ledger_total mid \<le> ledger_total led + emission (h_height (b_header b))"
    by (rule apply_ledger_phases [OF assms])
  with account_lane.foldE_inv [of txs mid] account_lane.foldE_val [of txs mid] show ?thesis
    by (fastforce simp: sum_list_triv)
qed

lemma apply_ledger_nonces:
  assumes "apply_ledger P led b dc jurors = Inr led'" and "ledger_wf led" and "scores_nonneg b"
  shows "\<exists>txs. canonical_account_txs P (b_data_txs b) (b_transfers b) = Inr txs \<and>
     nonces_of P a txs = [nonce_at led a..nonce_at led' a - 1] \<and> nonce_at led a \<le> nonce_at led' a"
proof -
  obtain mid txs where t: "canonical_account_txs P (b_data_txs b) (b_transfers b) = Inr txs"
    and f: "foldE (apply_account_tx P (h_height (b_header b)) jurors) txs mid = Inr led'" "ledger_wf mid"
    and n: "nonces mid = nonces led"
    by (rule apply_ledger_phases [OF assms])
  from account_nonces [OF f, of a] t n show ?thesis by (auto simp: nonce_at_def)
qed

end
