(* ===== verification/Tree_Props.thy ===== *)
theory Tree_Props
  imports Block_Tree Ledger_Props
begin

section \<open>Invariants of the block tree\<close>

text \<open>
  The tree that \<open>add_block\<close> builds: block hashes are keys, heights count from genesis, cumulative
  work adds up along parents, every ledger is the token transition of its parent's ledger, the
  head is the heaviest block with the smallest hash. The invariant speaks of blocks without their
  bodies, which pruning may drop. From it follow the return of the walk to genesis, the
  supply cap, the nonce sequence of every account, and agreement of two nodes on the head.
\<close>

subsection \<open>Blocks without bodies, and growth\<close>

definition core :: "block \<Rightarrow> block" where
  "core b = b\<lparr>b_bodies := []\<rparr>"

definition core_of :: "tree \<Rightarrow> string \<Rightarrow> block option" where
  "core_of t k = map_option core (map_of (bt_blocks t) k)"

lemma core_simps [simp]:
  "b_header (core b) = b_header b" "b_txs (core b) = b_txs b" "b_transfers (core b) = b_transfers b"
  "b_data_txs (core b) = b_data_txs b" "b_scores (core b) = b_scores b" "b_sketches (core b) = b_sketches b"
  "core (b\<lparr>b_bodies := x\<rparr>) = core b" "hash_of P (core b) = hash_of P b" "core (core b) = core b"
  by (simp_all add: core_def hash_of_def)

lemma scores_nonneg_core [simp]: "scores_nonneg (core b) = scores_nonneg b"
  by (simp add: scores_nonneg_def)

lemma apply_ledger_core [simp]: "apply_ledger P led (core b) dc J = apply_ledger P led b dc J"
proof -
  have "accrue_tx P (core b) = accrue_tx P b" by (intro ext) (simp add: accrue_tx_def)
  then have "accrue P (core b) = accrue P b" by (intro ext) (simp add: accrue_def)
  then show ?thesis by (simp add: apply_ledger_def)
qed

text \<open>A later tree knows everything an earlier one knew, state vectors apart.\<close>

definition tree_le :: "tree \<Rightarrow> tree \<Rightarrow> bool" where
  "tree_le t t' \<longleftrightarrow> core_of t \<subseteq>\<^sub>m core_of t' \<and> map_of (bt_cum_work t) \<subseteq>\<^sub>m map_of (bt_cum_work t')
     \<and> map_of (bt_ledger t) \<subseteq>\<^sub>m map_of (bt_ledger t') \<and> map_of (bt_model t) \<subseteq>\<^sub>m map_of (bt_model t')
     \<and> bt_genesis t' = bt_genesis t \<and> bt_data_contributor t' = bt_data_contributor t
     \<and> bt_params t' = bt_params t \<and> bt_genesis_w t' = bt_genesis_w t \<and> bt_prune_depth t' = bt_prune_depth t"

lemma tree_le_refl: "tree_le t t"
  by (simp add: tree_le_def)

lemma map_le_upd_new: "m k = None \<Longrightarrow> m \<subseteq>\<^sub>m m(k \<mapsto> v)"
  by (auto simp: map_le_def)

lemma map_le_Some: "m \<subseteq>\<^sub>m m' \<Longrightarrow> m k = Some v \<Longrightarrow> m' k = Some v"
  by (metis domI map_le_def)

subsection \<open>Pruning\<close>

lemma map_of_map_val: "map_of (map (\<lambda>(k, v). (k, f k v)) d) k = map_option (f k) (map_of d k)"
  by (induction d) auto

lemma map_of_filter_key: "map_of (filter (\<lambda>(k, v). Q k) d) k = (if Q k then map_of d k else None)"
  by (induction d) auto

lemma prune_deep_ok:
  assumes "prune_deep P t = Inr t'"
  shows "core_of t' = core_of t \<and> map_of (bt_state t') \<subseteq>\<^sub>m map_of (bt_state t)
     \<and> (\<exists>bs st. t' = t\<lparr>bt_blocks := bs, bt_state := st\<rparr>) \<and> (bt_prune_depth t = None \<longrightarrow> t' = t)"
proof (cases "bt_prune_depth t")
  case None
  then have "t' = t" using assms by (simp add: prune_deep_def)
  then show ?thesis by (metis map_le_refl tree.surjective tree.update_convs(4,5))
next
  case (Some d)
  then obtain hb where hb: "dict_at (bt_blocks t) (bt_head t) = Inr hb"
    using assms by (auto simp: prune_deep_def res_simps)
  define keep where "keep = (\<lambda>k (b::block). k = genesis_hash P t \<or> h_height (b_header hb) - d \<le> h_height (b_header b))"
  define dropped where "dropped = set (map fst (filter (\<lambda>(k, b). \<not> keep k b) (bt_blocks t)))"
  have t': "t' = t\<lparr>bt_state := filter (\<lambda>(k, w). k \<notin> dropped) (bt_state t),
      bt_blocks := map (\<lambda>(k, b). (k, if keep k b then b else b\<lparr>b_bodies := []\<rparr>)) (bt_blocks t)\<rparr>"
    using assms Some hb unfolding keep_def dropped_def by (simp add: prune_deep_def Let_def)
  have "core_of t' = core_of t"
    by (rule ext) (auto simp: t' core_of_def map_of_map_val option.map_comp comp_def split: option.splits
        intro!: arg_cong [where f = "\<lambda>f. map_option f _"])
  moreover have "map_of (bt_state t') \<subseteq>\<^sub>m map_of (bt_state t)"
    by (auto simp: t' map_le_def map_of_filter_key split: if_splits)
  moreover have "t' = t\<lparr>bt_blocks := bt_blocks t', bt_state := bt_state t'\<rparr>" by (simp add: t')
  then have "\<exists>bs st. t' = t\<lparr>bt_blocks := bs, bt_state := st\<rparr>" by blast
  ultimately show ?thesis using Some by simp
qed

subsection \<open>The invariant\<close>

definition linked :: "prims \<Rightarrow> tree \<Rightarrow> string \<Rightarrow> block \<Rightarrow> bool" where
  "linked P t k b \<longleftrightarrow> (\<exists>pb cw pl led J. core_of t (h_prev_hash (b_header b)) = Some pb
     \<and> h_height (b_header b) = h_height (b_header pb) + 1
     \<and> map_of (bt_cum_work t) (h_prev_hash (b_header b)) = Some cw
     \<and> map_of (bt_cum_work t) k = Some (cw + max 1 (h_work (b_header b)))
     \<and> map_of (bt_ledger t) (h_prev_hash (b_header b)) = Some pl \<and> map_of (bt_ledger t) k = Some led
     \<and> apply_ledger P pl b (bt_data_contributor t) J = Inr led \<and> scores_nonneg b)"

definition heaviest :: "tree \<Rightarrow> bool" where
  "heaviest t \<longleftrightarrow> (\<exists>ch. map_of (bt_cum_work t) (bt_head t) = Some ch \<and>
     (\<forall>k c. map_of (bt_cum_work t) k = Some c \<longrightarrow> c < ch \<or> c = ch \<and> bt_head t \<le> k))"

definition tree_inv :: "prims \<Rightarrow> tree \<Rightarrow> bool" where
  "tree_inv P t \<longleftrightarrow>
     (\<forall>k b. core_of t k = Some b \<longrightarrow> hash_of P b = k \<and> 0 \<le> h_height (b_header b)
        \<and> (k \<noteq> genesis_hash P t \<longrightarrow> linked P t k b))
     \<and> (\<exists>g. core_of t (genesis_hash P t) = Some g \<and> h_height (b_header g) = 0)
     \<and> map_of (bt_cum_work t) (genesis_hash P t) = Some 0
     \<and> map_of (bt_ledger t) (genesis_hash P t) = Some (genesis_ledger (bt_data_contributor t))
     \<and> dom (map_of (bt_cum_work t)) = dom (core_of t) \<and> dom (map_of (bt_ledger t)) = dom (core_of t)
     \<and> dom (map_of (bt_model t)) = dom (core_of t) \<and> heaviest t"

lemma linked_mono: "linked P t k b \<Longrightarrow> tree_le t t' \<Longrightarrow> linked P t' k b"
  unfolding linked_def tree_le_def by (elim exE conjE) (auto dest: map_le_Some intro!: exI)

lemma tree_of_inv: "h_height gh = 0 \<Longrightarrow> tree_inv P (tree_of P w pd dc params m gh)"
  by (auto simp: tree_inv_def tree_of_def Let_def core_of_def heaviest_def hash_of_def core_def
      split: if_splits)

lemma new_tree_inv: "new_tree P w pd dc params = Inr t \<Longrightarrow> tree_inv P t"
  by (auto simp: new_tree_def Let_def res_simps genesis_header_def split: option.splits intro!: tree_of_inv)

lemma check_scores_nonneg: "check_scores P b = Inr () \<Longrightarrow> scores_nonneg b"
proof -
  assume "check_scores P b = Inr ()"
  then have "foldE (\<lambda>(k, v) u. raise_if (\<not> (0 \<le> v \<and> v \<le> SCORE_CAP)) (verr (''score out of range for '' @ short k)))
              (b_scores b) () = Inr ()" by (auto simp: check_scores_def res_simps)
  moreover have "foldE (\<lambda>(k, v) u. raise_if (\<not> (0 \<le> v \<and> v \<le> SCORE_CAP)) (verr (''score out of range for '' @ short k)))
      d () = Inr () \<Longrightarrow> \<forall>p\<in>set d. 0 \<le> snd p" for d :: "(string, int) dict"
    by (induction d) (auto simp: res_simps)
  ultimately show ?thesis unfolding scores_nonneg_def by blast
qed

text \<open>What an accepted block has passed.\<close>

lemma validate_block_cases:
  assumes "validate_block P b pw ph pl dc J pm params = Inr (w, led, m)"
  shows "h_height (b_header b) = ph + 1" and "scores_nonneg b"
    and "check_lottery P (b_header b) (pm \<noteq> None) pl = Inr ()"
    and "check_transition P b pw pm params = Inr (w, m)"
    and "check_ledger P b pl dc J = Inr led"
proof -
  from assms have s: "check_structure b ph (pm \<noteq> None) params = Inr ()" and sc: "check_scores P b = Inr ()"
    and l: "check_lottery P (b_header b) (pm \<noteq> None) pl = Inr ()"
    and t: "check_transition P b pw pm params = Inr (w, m)" and c: "check_ledger P b pl dc J = Inr led"
    unfolding validate_block_def by (auto simp: bindE_eq_Inr)
  from s show "h_height (b_header b) = ph + 1" by (auto simp: check_structure_def res_simps Let_def)
  from sc show "scores_nonneg b" by (rule check_scores_nonneg)
  from l t c show "check_lottery P (b_header b) (pm \<noteq> None) pl = Inr ()"
    and "check_transition P b pw pm params = Inr (w, m)" and "check_ledger P b pl dc J = Inr led" .
qed

lemma check_ledger_Some:
  "check_ledger P b pl dc J = Inr (Some led) \<Longrightarrow> \<exists>l. pl = Some l \<and> apply_ledger P l b dc J = Inr led"
  by (auto simp: check_ledger_def res_simps split: option.splits)

text \<open>The successful path of \<open>add_block\<close> on an unknown block.\<close>

lemma add_block_new:
  assumes "add_block P b t = Inr (r, t')" and "hash_of P b \<notin> dom (map_of (bt_blocks t))"
  obtains pb pw w led m pl J where
    "map_of (bt_blocks t) (h_prev_hash (b_header b)) = Some pb"
    "map_of (bt_state t) (h_prev_hash (b_header b)) = Some pw"
    "h_height (b_header b) = h_height (b_header pb) + 1" "scores_nonneg b"
    "check_transition P b pw (parent_model t (h_prev_hash (b_header b))) (bt_params t) = Inr (w, m)"
    "map_of (bt_ledger t) (h_prev_hash (b_header b)) = Some pl"
    "apply_ledger P pl b (bt_data_contributor t) J = Inr led"
    "attach P b w led m t = Inr (r, t')"
proof -
  let ?p = "h_prev_hash (b_header b)"
  let ?pled = "if h_ledger_root (b_header b) \<noteq> [] then map_of (bt_ledger t) ?p else None"
  let ?J = "recent_proposers P t ?p"
  from assms(2) have nk: "hash_of P b \<notin> set (map fst (bt_blocks t))" by (simp add: dom_map_of_conv_image_fst)
  from assms(1) nk obtain pb where pb: "map_of (bt_blocks t) ?p = Some pb"
    by (auto simp: add_block_def Let_def split: option.splits)
  from assms(1) nk pb obtain pw w lo m where pw: "map_of (bt_state t) ?p = Some pw"
    and v: "validate_block P b pw (h_height (b_header pb)) ?pled (bt_data_contributor t) ?J
              (parent_model t ?p) (bt_params t) = Inr (w, lo, m)"
    and rest: "bindE (case lo of Some l \<Rightarrow> Inr l
        | None \<Rightarrow> bindE (dict_at (bt_ledger t) ?p) (\<lambda>pl. apply_ledger P pl b (bt_data_contributor t) ?J))
        (\<lambda>l. attach P b w l m t) = Inr (r, t')"
    unfolding add_block_def Let_def dict_at_def by (auto simp: bindE_eq_Inr split: option.splits)
  from rest obtain led where led: "(case lo of Some l \<Rightarrow> Inr l
        | None \<Rightarrow> bindE (dict_at (bt_ledger t) ?p) (\<lambda>pl. apply_ledger P pl b (bt_data_contributor t) ?J)) = Inr led"
    and at: "attach P b w led m t = Inr (r, t')" by (auto simp: bindE_eq_Inr)
  have "\<exists>pl. map_of (bt_ledger t) ?p = Some pl \<and> apply_ledger P pl b (bt_data_contributor t) ?J = Inr led"
  proof (cases lo)
    case None
    then show ?thesis using led by (auto simp: dict_at_def res_simps split: option.splits)
  next
    case (Some l)
    then have "check_ledger P b ?pled (bt_data_contributor t) ?J = Inr (Some led)"
      using led validate_block_cases(5) [OF v] by simp
    from check_ledger_Some [OF this] show ?thesis by (auto split: if_splits)
  qed
  then obtain pl where "map_of (bt_ledger t) ?p = Some pl" "apply_ledger P pl b (bt_data_contributor t) ?J = Inr led"
    by blast
  with that pb pw validate_block_cases [OF v] at show thesis by blast
qed

subsection \<open>Attaching a block keeps the invariant\<close>

lemma core_of_recorded: "core_of (recorded P b w led m ck t) = (core_of t)(hash_of P b \<mapsto> core b)"
  by (rule ext) (simp add: core_of_def recorded_def update_conv')

lemma core_of_head [simp]: "core_of (t\<lparr>bt_head := k\<rparr>) = core_of t"
  by (rule ext) (simp add: core_of_def)

lemma attach_cases:
  assumes "attach P b w led m t = Inr (r, t')"
  obtains cw chead hd' where "map_of (bt_cum_work t) (h_prev_hash (b_header b)) = Some cw"
    "map_of (bt_cum_work (recorded P b w led m (cw + max 1 (h_work (b_header b))) t)) (bt_head t) = Some chead"
    "r \<longleftrightarrow> heavier t (hash_of P b) (cw + max 1 (h_work (b_header b))) chead"
    "hd' = (if r then hash_of P b else bt_head t)"
    "prune_deep P ((recorded P b w led m (cw + max 1 (h_work (b_header b))) t)\<lparr>bt_head := hd'\<rparr>) = Inr t'"
proof -
  from assms obtain cw where cw: "map_of (bt_cum_work t) (h_prev_hash (b_header b)) = Some cw"
    by (auto simp: attach_def Let_def dict_at_def split: option.splits)
  let ?ck = "cw + max 1 (h_work (b_header b))" and ?k = "hash_of P b"
  let ?r = "recorded P b w led m ?ck t"
  have hd: "bt_head ?r = bt_head t" by (simp add: recorded_def)
  have at: "bindE (dict_at (bt_cum_work ?r) (bt_head t)) (\<lambda>chead.
      if heavier ?r ?k ?ck chead then bindE (prune_deep P (?r\<lparr>bt_head := ?k\<rparr>)) (\<lambda>t. Inr (True, t))
      else bindE (prune_deep P ?r) (\<lambda>t. Inr (False, t))) = Inr (r, t')"
    using assms unfolding attach_def Let_def dict_at_def [of "bt_cum_work t"] by (simp add: cw hd)
  then obtain ch where ch: "map_of (bt_cum_work ?r) (bt_head t) = Some ch"
    by (auto simp: dict_at_def split: option.splits)
  have hv: "heavier ?r = heavier t" by (intro ext) (simp add: heavier_def recorded_def)
  have same: "?r\<lparr>bt_head := bt_head t\<rparr> = ?r" by (simp flip: hd)
  have at': "(if heavier t ?k ?ck ch then bindE (prune_deep P (?r\<lparr>bt_head := ?k\<rparr>)) (\<lambda>t. Inr (True, t))
      else bindE (prune_deep P ?r) (\<lambda>t. Inr (False, t))) = Inr (r, t')"
    using at ch by (simp add: dict_at_def hv)
  then have "r \<longleftrightarrow> heavier t ?k ?ck ch" by (auto simp: res_simps split: if_splits)
  moreover have "prune_deep P (?r\<lparr>bt_head := (if r then ?k else bt_head t)\<rparr>) = Inr t'"
    using at' same by (auto simp: res_simps split: if_splits)
  ultimately show thesis using that [OF cw ch] by blast
qed

text \<open>What attaching changes: one new entry per dictionary, and the head.\<close>

lemma attach_effect:
  assumes "attach P b w led m t = Inr (r, t')"
  obtains cw chead where "map_of (bt_cum_work t) (h_prev_hash (b_header b)) = Some cw"
    and "core_of t' = (core_of t)(hash_of P b \<mapsto> core b)"
    and "map_of (bt_cum_work t') = (map_of (bt_cum_work t))(hash_of P b \<mapsto> cw + max 1 (h_work (b_header b)))"
    and "map_of (bt_ledger t') = (map_of (bt_ledger t))(hash_of P b \<mapsto> led)"
    and "map_of (bt_model t') = (map_of (bt_model t))(hash_of P b \<mapsto> m)"
    and "map_of (bt_state t') \<subseteq>\<^sub>m (map_of (bt_state t))(hash_of P b \<mapsto> w)"
    and "bt_genesis t' = bt_genesis t" "bt_data_contributor t' = bt_data_contributor t" "bt_params t' = bt_params t"
      "bt_genesis_w t' = bt_genesis_w t" "bt_prune_depth t' = bt_prune_depth t"
    and "((map_of (bt_cum_work t))(hash_of P b \<mapsto> cw + max 1 (h_work (b_header b)))) (bt_head t) = Some chead"
    and "r \<longleftrightarrow> heavier t (hash_of P b) (cw + max 1 (h_work (b_header b))) chead"
    and "bt_head t' = (if r then hash_of P b else bt_head t)"
    and "bt_prune_depth t = None \<longrightarrow> map_of (bt_state t') = (map_of (bt_state t))(hash_of P b \<mapsto> w)
      \<and> map_of (bt_blocks t') = (map_of (bt_blocks t))(hash_of P b \<mapsto> b)"
proof -
  obtain cw chead hd' where cw: "map_of (bt_cum_work t) (h_prev_hash (b_header b)) = Some cw"
    and ch: "map_of (bt_cum_work (recorded P b w led m (cw + max 1 (h_work (b_header b))) t)) (bt_head t) = Some chead"
    and r: "r \<longleftrightarrow> heavier t (hash_of P b) (cw + max 1 (h_work (b_header b))) chead"
    and hd': "hd' = (if r then hash_of P b else bt_head t)"
    and pr: "prune_deep P ((recorded P b w led m (cw + max 1 (h_work (b_header b))) t)\<lparr>bt_head := hd'\<rparr>) = Inr t'"
    by (rule attach_cases [OF assms])
  let ?r = "(recorded P b w led m (cw + max 1 (h_work (b_header b))) t)\<lparr>bt_head := hd'\<rparr>"
  note p = prune_deep_ok [OF pr]
  then obtain bs st where t': "t' = ?r\<lparr>bt_blocks := bs, bt_state := st\<rparr>" by blast
  have c: "core_of t' = (core_of t)(hash_of P b \<mapsto> core b)" using p by (simp add: core_of_recorded)
  have st: "map_of (bt_state t') \<subseteq>\<^sub>m (map_of (bt_state t))(hash_of P b \<mapsto> w)"
    using p by (simp add: recorded_def update_conv')
  have "bt_prune_depth t = None \<longrightarrow> t' = ?r" using p by (simp add: recorded_def)
  then have un: "bt_prune_depth t = None \<longrightarrow> map_of (bt_state t') = (map_of (bt_state t))(hash_of P b \<mapsto> w)
      \<and> map_of (bt_blocks t') = (map_of (bt_blocks t))(hash_of P b \<mapsto> b)"
    by (auto simp: recorded_def update_conv')
  have ch': "((map_of (bt_cum_work t))(hash_of P b \<mapsto> cw + max 1 (h_work (b_header b)))) (bt_head t) = Some chead"
    using ch by (simp add: recorded_def update_conv')
  show thesis
    by (rule that [OF cw c _ _ _ st _ _ _ _ _ ch' r _ un]) (simp_all add: t' recorded_def update_conv' hd')
qed

lemma tree_le_attach:
  assumes "attach P b w led m t = Inr (r, t')" and "core_of t (hash_of P b) = None"
    and "dom (map_of (bt_cum_work t)) = dom (core_of t)" "dom (map_of (bt_ledger t)) = dom (core_of t)"
    and "map_of (bt_model t) (hash_of P b) = None"
  shows "tree_le t t'"
proof -
  have "map_of (bt_cum_work t) (hash_of P b) = None" "map_of (bt_ledger t) (hash_of P b) = None"
    using assms(2-4) by (auto simp: domIff)
  with assms(2,5) show ?thesis
    using attach_effect [OF assms(1)] unfolding tree_le_def by (metis map_le_upd_new)
qed

lemma heaviest_attach:
  assumes "heaviest t" and at: "attach P b w led m t = Inr (r, t')"
    and new: "map_of (bt_cum_work t) (hash_of P b) = None"
  shows "heaviest t'"
proof -
  obtain cw chead where cw': "map_of (bt_cum_work t') = (map_of (bt_cum_work t))(hash_of P b \<mapsto> cw + max 1 (h_work (b_header b)))"
    and ch: "((map_of (bt_cum_work t))(hash_of P b \<mapsto> cw + max 1 (h_work (b_header b)))) (bt_head t) = Some chead"
    and r: "r \<longleftrightarrow> heavier t (hash_of P b) (cw + max 1 (h_work (b_header b))) chead"
    and hd: "bt_head t' = (if r then hash_of P b else bt_head t)"
    by (rule attach_effect [OF at])
  let ?k = "hash_of P b" and ?ck = "cw + max 1 (h_work (b_header b))"
  have ne: "bt_head t \<noteq> ?k" using assms(1) new by (auto simp: heaviest_def)
  then have old: "map_of (bt_cum_work t) (bt_head t) = Some chead" using ch by simp
  then have best: "c < chead \<or> c = chead \<and> bt_head t \<le> k" if "map_of (bt_cum_work t) k = Some c" for k c
    using assms(1) that by (auto simp: heaviest_def)
  show ?thesis
  proof (cases r)
    case True
    then have "chead < ?ck \<or> ?ck = chead \<and> ?k < bt_head t" using r by (auto simp: heavier_def)
    then show ?thesis using True hd cw' best by (fastforce simp: heaviest_def)
  next
    case False
    then have "?ck < chead \<or> ?ck = chead \<and> bt_head t \<le> ?k" using r by (auto simp: heavier_def)
    then show ?thesis using False hd cw' best old ne by (fastforce simp: heaviest_def)
  qed
qed

lemma tree_inv_fields:
  assumes "tree_inv P t"
  shows "dom (map_of (bt_cum_work t)) = dom (core_of t)" "dom (map_of (bt_ledger t)) = dom (core_of t)"
    "dom (map_of (bt_model t)) = dom (core_of t)" "heaviest t"
    "core_of t k = Some b \<Longrightarrow> hash_of P b = k \<and> 0 \<le> h_height (b_header b)"
    "core_of t k = Some b \<Longrightarrow> k \<noteq> genesis_hash P t \<Longrightarrow> linked P t k b"
  using assms by (auto simp: tree_inv_def)

lemma add_block_known:
  "add_block P b t = Inr (r, t') \<Longrightarrow> hash_of P b \<in> dom (map_of (bt_blocks t)) \<Longrightarrow> t' = t \<and> \<not> r"
  by (auto simp: add_block_def dom_map_of_conv_image_fst)

lemma dom_core_of: "dom (core_of t) = dom (map_of (bt_blocks t))"
  by (auto simp: core_of_def dom_def)

lemma add_block_inv:
  assumes inv: "tree_inv P t" and add: "add_block P b t = Inr (r, t')"
  shows "tree_inv P t' \<and> tree_le t t'"
proof (cases "hash_of P b \<in> dom (map_of (bt_blocks t))")
  case True
  with add_block_known [OF add] inv show ?thesis by (simp add: tree_le_refl)
next
  case False
  let ?k = "hash_of P b" and ?p = "h_prev_hash (b_header b)"
  obtain pb pw w led m pl J where pb: "map_of (bt_blocks t) ?p = Some pb"
    and hh: "h_height (b_header b) = h_height (b_header pb) + 1" and sc: "scores_nonneg b"
    and pl: "map_of (bt_ledger t) ?p = Some pl"
    and al: "apply_ledger P pl b (bt_data_contributor t) J = Inr led"
    and at: "attach P b w led m t = Inr (r, t')"
    by (rule add_block_new [OF add False])
  note f = tree_inv_fields [OF inv]
  have cpb: "core_of t ?p = Some (core pb)" by (simp add: core_of_def pb)
  have none: "core_of t ?k = None" using False by (simp add: core_of_def domIff)
  then have nones: "map_of (bt_cum_work t) ?k = None" "map_of (bt_ledger t) ?k = None" "map_of (bt_model t) ?k = None"
    using f(1-3) by blast+
  have le: "tree_le t t'" by (rule tree_le_attach [OF at none f(1,2) nones(3)])
  obtain cw where cw: "map_of (bt_cum_work t) ?p = Some cw"
    and c': "core_of t' = (core_of t)(?k \<mapsto> core b)"
    and w': "map_of (bt_cum_work t') = (map_of (bt_cum_work t))(?k \<mapsto> cw + max 1 (h_work (b_header b)))"
    and l': "map_of (bt_ledger t') = (map_of (bt_ledger t))(?k \<mapsto> led)"
    and m': "map_of (bt_model t') = (map_of (bt_model t))(?k \<mapsto> m)"
    and g': "bt_genesis t' = bt_genesis t" "bt_data_contributor t' = bt_data_contributor t"
    by (rule attach_effect [OF at])
  have gk: "genesis_hash P t \<noteq> ?k" and pk: "?p \<noteq> ?k" using inv none cpb by (auto simp: tree_inv_def)
  have new: "linked P t' ?k (core b)"
    unfolding linked_def using cpb hh cw pl al sc pk by (auto simp: c' w' l' g')
  have each: "hash_of P x = k \<and> 0 \<le> h_height (b_header x) \<and> (k \<noteq> genesis_hash P t' \<longrightarrow> linked P t' k x)"
    if "core_of t' k = Some x" for k x
  proof (cases "k = ?k")
    case True
    then have "x = core b" using that c' by simp
    then show ?thesis using True new hh f(5) [OF cpb] by simp
  next
    case False
    then have "core_of t k = Some x" using that c' by simp
    then show ?thesis using f(5,6) linked_mono [OF _ le] by (auto simp: g')
  qed
  have hv: "heaviest t'" by (rule heaviest_attach [OF f(4) at nones(1)])
  have gen: "(\<exists>g. core_of t (genesis_hash P t) = Some g \<and> h_height (b_header g) = 0)"
    "map_of (bt_cum_work t) (genesis_hash P t) = Some 0"
    "map_of (bt_ledger t) (genesis_hash P t) = Some (genesis_ledger (bt_data_contributor t))"
    using inv by (simp_all add: tree_inv_def)
  have d: "dom (map_of (bt_cum_work t')) = dom (core_of t')" "dom (map_of (bt_ledger t')) = dom (core_of t')"
    "dom (map_of (bt_model t')) = dom (core_of t')"
    by (simp_all add: c' w' l' m' f(1-3))
  have gen': "\<exists>g. core_of t' (genesis_hash P t') = Some g \<and> h_height (b_header g) = 0"
    "map_of (bt_cum_work t') (genesis_hash P t') = Some 0"
    "map_of (bt_ledger t') (genesis_hash P t') = Some (genesis_ledger (bt_data_contributor t'))"
    using gen gk by (simp_all add: g' c' w' l')
  have "tree_inv P t'" unfolding tree_inv_def using each hv gen' d by blast
  then show ?thesis using le by (rule conjI)
qed

subsection \<open>Reachable trees\<close>

inductive tree_reach ::
  "prims \<Rightarrow> weights \<Rightarrow> int option \<Rightarrow> string option \<Rightarrow> genesis_params option \<Rightarrow> tree \<Rightarrow> bool"
  for P w pd dc params where
  reach_new: "new_tree P w pd dc params = Inr t \<Longrightarrow> tree_reach P w pd dc params t"
| reach_add: "tree_reach P w pd dc params t \<Longrightarrow> add_block P b t = Inr (r, t') \<Longrightarrow> tree_reach P w pd dc params t'"

lemma new_tree_fields:
  "new_tree P w pd dc params = Inr t \<Longrightarrow> bt_params t = params \<and> bt_data_contributor t = dc \<and> bt_genesis_w t = w \<and> bt_prune_depth t = pd"
  by (auto simp: new_tree_def tree_of_def Let_def res_simps split: option.splits)

lemma tree_reach_inv:
  "tree_reach P w pd dc params t \<Longrightarrow> tree_inv P t \<and> bt_params t = params \<and> bt_data_contributor t = dc
     \<and> bt_genesis_w t = w \<and> bt_prune_depth t = pd"
proof (induction rule: tree_reach.induct)
  case (reach_add t b r t')
  then show ?case using add_block_inv [of P t b r t'] by (auto simp: tree_le_def)
qed (use new_tree_inv new_tree_fields in blast)

subsection \<open>What the invariant gives\<close>

text \<open>Induction along parents: from genesis to any known block.\<close>

lemma chain_induct:
  assumes inv: "tree_inv P t" and k: "core_of t k = Some b"
    and base: "\<And>g. core_of t (genesis_hash P t) = Some g \<Longrightarrow> Q (genesis_hash P t) g"
    and step: "\<And>k b pb. core_of t k = Some b \<Longrightarrow> k \<noteq> genesis_hash P t \<Longrightarrow> linked P t k b \<Longrightarrow>
      core_of t (h_prev_hash (b_header b)) = Some pb \<Longrightarrow> h_height (b_header b) = h_height (b_header pb) + 1 \<Longrightarrow>
      Q (h_prev_hash (b_header b)) pb \<Longrightarrow> Q k b"
  shows "Q k b"
  using k
proof (induction "nat (h_height (b_header b))" arbitrary: k b rule: less_induct)
  case less
  show ?case
  proof (cases "k = genesis_hash P t")
    case True
    with less.prems base show ?thesis by simp
  next
    case False
    from tree_inv_fields(6) [OF inv less.prems False] have l: "linked P t k b" .
    then obtain pb where pb: "core_of t (h_prev_hash (b_header b)) = Some pb"
      and h: "h_height (b_header b) = h_height (b_header pb) + 1" by (auto simp: linked_def)
    have "0 \<le> h_height (b_header pb)" using tree_inv_fields(5) [OF inv pb] by simp
    then have "Q (h_prev_hash (b_header b)) pb" using h by (intro less.hyps [OF _ pb]) simp
    from step [OF less.prems False l pb h this] show ?thesis .
  qed
qed

lemma core_of_blocks: "core_of t k = Some c \<Longrightarrow> \<exists>b. map_of (bt_blocks t) k = Some b \<and> c = core b"
  by (auto simp: core_of_def)

lemma genesis_ledger_ok: "ledger_wf (genesis_ledger dc) \<and> ledger_total (genesis_ledger dc) = 0"
  by (auto simp: genesis_ledger_def empty_ledger_def seed_genesis_data_def ledger_wf_def nonneg_dict_def
      wf_market_def wf_bonds_def total_defs dict_wf_def split: list.splits)

lemma genesis_ledger_nonces: "nonces (genesis_ledger dc) = []"
  by (auto simp: genesis_ledger_def empty_ledger_def seed_genesis_data_def split: list.splits)

definition minted :: "int \<Rightarrow> int" where
  "minted h = (\<Sum>i\<leftarrow>[1..h]. emission i)"

lemma minted_step: "0 \<le> h \<Longrightarrow> minted (h + 1) = minted h + emission (h + 1)"
  by (simp add: minted_def upto_rec2)

lemma tree_inv_supply:
  assumes inv: "tree_inv P t" and "core_of t k = Some b" and "map_of (bt_ledger t) k = Some led"
  shows "ledger_wf led \<and> ledger_total led \<le> minted (h_height (b_header b))"
proof -
  have "\<forall>led. map_of (bt_ledger t) k = Some led \<longrightarrow>
      ledger_wf led \<and> ledger_total led \<le> minted (h_height (b_header b))"
  proof (rule chain_induct [OF inv assms(2)])
    fix g assume "core_of t (genesis_hash P t) = Some g"
    then show "\<forall>led. map_of (bt_ledger t) (genesis_hash P t) = Some led \<longrightarrow>
        ledger_wf led \<and> ledger_total led \<le> minted (h_height (b_header g))"
      using inv genesis_ledger_ok by (auto simp: tree_inv_def minted_def)
  next
    fix k b pb
    assume l: "linked P t k b" and pb: "core_of t (h_prev_hash (b_header b)) = Some pb"
      and h: "h_height (b_header b) = h_height (b_header pb) + 1"
      and IH: "\<forall>led. map_of (bt_ledger t) (h_prev_hash (b_header b)) = Some led \<longrightarrow>
        ledger_wf led \<and> ledger_total led \<le> minted (h_height (b_header pb))"
    from l obtain pl led J where pl: "map_of (bt_ledger t) (h_prev_hash (b_header b)) = Some pl"
      and led: "map_of (bt_ledger t) k = Some led"
      and al: "apply_ledger P pl b (bt_data_contributor t) J = Inr led" and sc: "scores_nonneg b"
      by (auto simp: linked_def)
    have "ledger_wf pl" "ledger_total pl \<le> minted (h_height (b_header pb))" using IH pl by auto
    moreover have "0 \<le> h_height (b_header pb)" using tree_inv_fields(5) [OF inv pb] by simp
    ultimately show "\<forall>led. map_of (bt_ledger t) k = Some led \<longrightarrow>
        ledger_wf led \<and> ledger_total led \<le> minted (h_height (b_header b))"
      using apply_ledger_ok [OF al _ sc] led h minted_step [of "h_height (b_header pb)"] by auto
  qed
  with assms(3) show ?thesis by blast
qed

lemma chain_back_genesis: "chain_back P t (genesis_hash P t) = Some (Inr [])"
  by (simp add: chain_back.simps)

lemma chain_back_block:
  "k \<noteq> genesis_hash P t \<Longrightarrow> map_of (bt_blocks t) k = Some b \<Longrightarrow>
     chain_back P t (h_prev_hash (b_header b)) = Some (Inr bs) \<Longrightarrow> chain_back P t k = Some (Inr (bs @ [b]))"
  by (simp add: chain_back.simps [of P t k])

text \<open>The nonces used by each sender along a chain are \<open>0, 1, 2, \<dots>\<close> without gap or repetition.\<close>

lemma tree_inv_chain:
  assumes inv: "tree_inv P t" and "core_of t k = Some b"
  shows "\<exists>bs txss. chain_back P t k = Some (Inr bs) \<and> int (length bs) = h_height (b_header b) \<and>
     list_all2 (\<lambda>x txs. canonical_account_txs P (b_data_txs x) (b_transfers x) = Inr txs) bs txss \<and>
     (\<forall>led a. map_of (bt_ledger t) k = Some led \<longrightarrow> nonces_of P a (concat txss) = [0..nonce_at led a - 1] \<and> 0 \<le> nonce_at led a)"
proof (rule chain_induct [OF inv assms(2)])
  fix g assume "core_of t (genesis_hash P t) = Some g"
  then have "h_height (b_header g) = 0" "map_of (bt_ledger t) (genesis_hash P t) = Some (genesis_ledger (bt_data_contributor t))"
    using inv by (auto simp: tree_inv_def)
  then show "\<exists>bs txss. chain_back P t (genesis_hash P t) = Some (Inr bs) \<and> int (length bs) = h_height (b_header g) \<and>
     list_all2 (\<lambda>x txs. canonical_account_txs P (b_data_txs x) (b_transfers x) = Inr txs) bs txss \<and>
     (\<forall>led a. map_of (bt_ledger t) (genesis_hash P t) = Some led \<longrightarrow>
        nonces_of P a (concat txss) = [0..nonce_at led a - 1] \<and> 0 \<le> nonce_at led a)"
    by (auto simp: chain_back_genesis nonces_of_def nonce_at_def genesis_ledger_nonces dict_get_def intro!: exI [of _ "[]"])
next
  fix k b pb
  assume kb: "core_of t k = Some b" and ng: "k \<noteq> genesis_hash P t" and l: "linked P t k b"
    and pb: "core_of t (h_prev_hash (b_header b)) = Some pb" and h: "h_height (b_header b) = h_height (b_header pb) + 1"
    and "\<exists>bs txss. chain_back P t (h_prev_hash (b_header b)) = Some (Inr bs) \<and> int (length bs) = h_height (b_header pb) \<and>
     list_all2 (\<lambda>x txs. canonical_account_txs P (b_data_txs x) (b_transfers x) = Inr txs) bs txss \<and>
     (\<forall>led a. map_of (bt_ledger t) (h_prev_hash (b_header b)) = Some led \<longrightarrow>
        nonces_of P a (concat txss) = [0..nonce_at led a - 1] \<and> 0 \<le> nonce_at led a)"
  then obtain bs txss where cb: "chain_back P t (h_prev_hash (b_header b)) = Some (Inr bs)"
    and len: "int (length bs) = h_height (b_header pb)"
    and all: "list_all2 (\<lambda>x txs. canonical_account_txs P (b_data_txs x) (b_transfers x) = Inr txs) bs txss"
    and IH: "\<And>led a. map_of (bt_ledger t) (h_prev_hash (b_header b)) = Some led \<Longrightarrow>
        nonces_of P a (concat txss) = [0..nonce_at led a - 1] \<and> 0 \<le> nonce_at led a" by blast
  from core_of_blocks [OF kb] obtain b0 where b0: "map_of (bt_blocks t) k = Some b0" "b = core b0" by blast
  from l obtain pl led J where pl: "map_of (bt_ledger t) (h_prev_hash (b_header b)) = Some pl"
    and led: "map_of (bt_ledger t) k = Some led"
    and al: "apply_ledger P pl b (bt_data_contributor t) J = Inr led" and sc: "scores_nonneg b"
    by (auto simp: linked_def)
  have wf: "ledger_wf pl" using tree_inv_supply [OF inv pb pl] by simp
  obtain txs where txs: "canonical_account_txs P (b_data_txs b) (b_transfers b) = Inr txs"
    using apply_ledger_nonces [OF al wf sc] by blast
  have seq: "nonces_of P a (concat (txss @ [txs])) = [0..nonce_at led a - 1] \<and> 0 \<le> nonce_at led a" for a
  proof -
    have one: "nonces_of P a txs = [nonce_at pl a..nonce_at led a - 1]" "nonce_at pl a \<le> nonce_at led a"
      using apply_ledger_nonces [OF al wf sc, of a] txs by auto
    then show ?thesis using IH [OF pl, of a] upto_split1 [of 0 "nonce_at pl a" "nonce_at led a - 1"]
      by (cases "nonce_at pl a \<le> nonce_at led a - 1") (auto simp: nonces_of_append upto.simps)
  qed
  have "chain_back P t k = Some (Inr (bs @ [b0]))"
    using chain_back_block [OF ng b0(1)] cb by (simp add: b0(2))
  moreover have "list_all2 (\<lambda>x txs. canonical_account_txs P (b_data_txs x) (b_transfers x) = Inr txs) (bs @ [b0]) (txss @ [txs])"
    using all txs by (simp add: b0(2) list_all2_appendI)
  ultimately show "\<exists>bs txss. chain_back P t k = Some (Inr bs) \<and> int (length bs) = h_height (b_header b) \<and>
     list_all2 (\<lambda>x txs. canonical_account_txs P (b_data_txs x) (b_transfers x) = Inr txs) bs txss \<and>
     (\<forall>led a. map_of (bt_ledger t) k = Some led \<longrightarrow>
        nonces_of P a (concat txss) = [0..nonce_at led a - 1] \<and> 0 \<le> nonce_at led a)"
    using len h led seq by (intro exI [of _ "bs @ [b0]"] exI [of _ "txss @ [txs]"]) auto
qed

subsection \<open>Two nodes with the same headers choose the same head\<close>

definition same_headers :: "prims \<Rightarrow> tree \<Rightarrow> tree \<Rightarrow> bool" where
  "same_headers P t t' \<longleftrightarrow> genesis_hash P t = genesis_hash P t' \<and>
     (\<forall>k. map_option b_header (map_of (bt_blocks t) k) = map_option b_header (map_of (bt_blocks t') k))"

lemma same_headers_core:
  assumes "same_headers P t t'" "core_of t k = Some b"
  shows "\<exists>b'. core_of t' k = Some b' \<and> b_header b' = b_header b"
proof -
  from assms(2) obtain x where x: "map_of (bt_blocks t) k = Some x" "b = core x" by (auto simp: core_of_def)
  have "map_option b_header (map_of (bt_blocks t') k) = Some (b_header x)"
    using assms(1) x(1) by (metis same_headers_def option.simps(9))
  then show ?thesis by (auto simp: core_of_def x(2))
qed

lemma cum_work_determined:
  assumes inv: "tree_inv P t" "tree_inv P t'" and same: "same_headers P t t'" and k: "core_of t k = Some b"
  shows "map_of (bt_cum_work t') k = map_of (bt_cum_work t) k"
proof (rule chain_induct [OF inv(1) k])
  show "map_of (bt_cum_work t') (genesis_hash P t) = map_of (bt_cum_work t) (genesis_hash P t)"
    using inv same by (simp add: tree_inv_def same_headers_def)
next
  fix k b pb
  assume kb: "core_of t k = Some b" and ng: "k \<noteq> genesis_hash P t" and l: "linked P t k b"
    and IH: "map_of (bt_cum_work t') (h_prev_hash (b_header b)) = map_of (bt_cum_work t) (h_prev_hash (b_header b))"
  obtain b' where b': "core_of t' k = Some b'" "b_header b' = b_header b"
    using same_headers_core [OF same kb] by blast
  have "k \<noteq> genesis_hash P t'" using ng same by (simp add: same_headers_def)
  from tree_inv_fields(6) [OF inv(2) b'(1) this] l IH show "map_of (bt_cum_work t') k = map_of (bt_cum_work t) k"
    by (auto simp: linked_def b'(2))
qed

lemma same_headers_sym: "same_headers P t t' \<Longrightarrow> same_headers P t' t"
  by (simp add: same_headers_def)

lemma heads_agree:
  assumes inv: "tree_inv P t" "tree_inv P t'" and same: "same_headers P t t'"
  shows "bt_head t = bt_head t'"
proof -
  have "map_of (bt_cum_work t) = map_of (bt_cum_work t')"
  proof
    fix k
    show "map_of (bt_cum_work t) k = map_of (bt_cum_work t') k"
    proof (cases "core_of t k")
      case None
      then have "core_of t' k = None" using same_headers_core [OF same_headers_sym [OF same], of k] by (cases "core_of t' k") auto
      with None have "k \<notin> dom (map_of (bt_cum_work t))" "k \<notin> dom (map_of (bt_cum_work t'))"
        using tree_inv_fields(1) [OF inv(1)] tree_inv_fields(1) [OF inv(2)] by auto
      then show ?thesis by (simp add: domIff)
    next
      case (Some b)
      from cum_work_determined [OF inv same this] show ?thesis by simp
    qed
  qed
  then show ?thesis
    using tree_inv_fields(4) [OF inv(1)] tree_inv_fields(4) [OF inv(2)]
    unfolding heaviest_def by (metis order_antisym_conv option.inject order_less_imp_not_less less_irrefl)
qed

end
