(* ===== verification/Tree_Replay.thy ===== *)
theory Tree_Replay
  imports Tree_Props
begin

section \<open>Replay from genesis, and the size of the weight vector\<close>

text \<open>
  On a tree that keeps its bodies, \<open>replay_head\<close> recomputes exactly the weights stored for the
  head. On every tree, pruned or not, a stored weight vector has the length of the page table
  stored beside it.
\<close>

subsection \<open>One block's transition, without the root checks\<close>

definition transition_of ::
  "prims \<Rightarrow> genesis_params option \<Rightarrow> block \<Rightarrow> weights \<times> model_state option \<Rightarrow> (weights \<times> model_state option) res" where
  "transition_of P params b st = (let (w, model) = st in
     case model of
       Some m \<Rightarrow>
         (case params of
            None \<Rightarrow> Inl AttributeError
          | Some gp \<Rightarrow> bindE (paged_post P gp (block_fold_input P b) (b_txs b) (b_bodies b) w m) (\<lambda>(w, m). Inr (w, Some m)))
     | None \<Rightarrow> bindE (dense_post (b_txs b) (b_bodies b) w) (\<lambda>w. Inr (w, None)))"

lemma check_transition_of:
  "check_transition P b pw pm params = Inr r \<Longrightarrow> transition_of P params b (pw, pm) = Inr r"
  by (auto simp: check_transition_def transition_of_def Let_def res_simps split: option.splits)

definition genesis_point :: "tree \<Rightarrow> weights \<times> model_state option" where
  "genesis_point t = (bt_genesis_w t, map_option (\<lambda>gp. genesis_model (gp_spec gp)) (bt_params t))"

definition point :: "tree \<Rightarrow> string \<Rightarrow> (weights \<times> model_state option) option" where
  "point t k = (case (map_of (bt_state t) k, map_of (bt_model t) k) of (Some w, Some m) \<Rightarrow> Some (w, m) | _ \<Rightarrow> None)"

definition replay_inv :: "prims \<Rightarrow> tree \<Rightarrow> bool" where
  "replay_inv P t \<longleftrightarrow> point t (genesis_hash P t) = Some (genesis_point t) \<and>
     (\<forall>k b. map_of (bt_blocks t) k = Some b \<longrightarrow> k \<noteq> genesis_hash P t \<longrightarrow>
        (\<exists>p r. point t (h_prev_hash (b_header b)) = Some p \<and> point t k = Some r \<and>
           transition_of P (bt_params t) b p = Inr r))"

lemma new_tree_replay: "new_tree P w pd dc params = Inr t \<Longrightarrow> replay_inv P t"
  by (auto simp: new_tree_def tree_of_def Let_def res_simps replay_inv_def point_def genesis_point_def
      split: option.splits if_splits)

lemma add_block_replay:
  assumes inv: "tree_inv P t" and rep: "replay_inv P t" and add: "add_block P b t = Inr (r, t')"
    and np: "bt_prune_depth t = None"
  shows "replay_inv P t'"
proof (cases "hash_of P b \<in> dom (map_of (bt_blocks t))")
  case True
  with add_block_known [OF add] rep show ?thesis by simp
next
  case False
  let ?k = "hash_of P b" and ?p = "h_prev_hash (b_header b)"
  obtain pb pw w led m where pb: "map_of (bt_blocks t) ?p = Some pb"
    and pw: "map_of (bt_state t) ?p = Some pw"
    and ct: "check_transition P b pw (parent_model t ?p) (bt_params t) = Inr (w, m)"
    and at: "attach P b w led m t = Inr (r, t')"
    by (rule add_block_new [OF add False])
  have m': "map_of (bt_model t') = (map_of (bt_model t))(?k \<mapsto> m)"
    and g': "bt_genesis t' = bt_genesis t" "bt_params t' = bt_params t" "bt_genesis_w t' = bt_genesis_w t"
    and u: "bt_prune_depth t = None \<longrightarrow> map_of (bt_state t') = (map_of (bt_state t))(?k \<mapsto> w)
      \<and> map_of (bt_blocks t') = (map_of (bt_blocks t))(?k \<mapsto> b)"
    using attach_effect [OF at] by metis+
  have p': "point t' k = (if k = ?k then Some (w, m) else point t k)" for k
    using u np m' by (simp add: point_def)
  have "core_of t (genesis_hash P t) \<noteq> None" using inv by (auto simp: tree_inv_def)
  then have gk: "genesis_hash P t \<noteq> ?k" using False by (auto simp: core_of_def domIff)
  have pk: "?p \<noteq> ?k" using pb False by auto
  have "?p \<in> dom (map_of (bt_model t))"
    using pb dom_core_of [of t] tree_inv_fields(3) [OF inv] by auto
  then have pp: "point t ?p = Some (pw, parent_model t ?p)"
    using pw by (auto simp: point_def parent_model_def)
  have old: "\<exists>p r. point t' (h_prev_hash (b_header x)) = Some p \<and> point t' k = Some r \<and> transition_of P (bt_params t') x p = Inr r"
    if "map_of (bt_blocks t') k = Some x" "k \<noteq> genesis_hash P t'" for k x
  proof (cases "k = ?k")
    case True
    then have "x = b" using that u np by simp
    then show ?thesis using True pp pk check_transition_of [OF ct] by (simp add: p' g')
  next
    case False
    then have x: "map_of (bt_blocks t) k = Some x" using that(1) u np by simp
    with rep that(2) obtain p r where pr: "point t (h_prev_hash (b_header x)) = Some p" "point t k = Some r"
      "transition_of P (bt_params t) x p = Inr r" unfolding replay_inv_def g' by blast
    have "h_prev_hash (b_header x) \<noteq> ?k"
    proof -
      have "linked P t k (core x)" using tree_inv_fields(6) [OF inv, of k "core x"] x that(2) by (simp add: core_of_def g')
      then have "h_prev_hash (b_header x) \<in> dom (core_of t)" by (auto simp: linked_def)
      then show ?thesis using \<open>?k \<notin> dom (map_of (bt_blocks t))\<close> dom_core_of by auto
    qed
    then show ?thesis using pr False by (simp add: p' g')
  qed
  have "point t' (genesis_hash P t') = Some (genesis_point t')"
    using rep gk by (simp add: replay_inv_def p' g' genesis_point_def)
  then show ?thesis unfolding replay_inv_def using old by blast
qed

lemma tree_reach_replay: "tree_reach P w None dc params t \<Longrightarrow> replay_inv P t"
proof (induction rule: tree_reach.induct)
  case (reach_add t b r t')
  from tree_reach_inv [OF reach_add.hyps(1)] show ?case
    by (intro add_block_replay [OF _ reach_add.IH reach_add.hyps(2)]) simp_all
qed (rule new_tree_replay)

lemma replay_chain:
  assumes inv: "tree_inv P t" and rep: "replay_inv P t" and "core_of t k = Some b"
  shows "\<exists>bs r. chain_back P t k = Some (Inr bs) \<and> point t k = Some r \<and>
     foldE (transition_of P (bt_params t)) bs (genesis_point t) = Inr r"
proof (rule chain_induct [OF inv assms(3)])
  show "\<exists>bs r. chain_back P t (genesis_hash P t) = Some (Inr bs) \<and> point t (genesis_hash P t) = Some r \<and>
     foldE (transition_of P (bt_params t)) bs (genesis_point t) = Inr r"
    using rep by (intro exI [of _ "[]"]) (auto simp: chain_back_genesis replay_inv_def)
next
  fix k b pb
  assume kb: "core_of t k = Some b" and ng: "k \<noteq> genesis_hash P t"
    and "\<exists>bs r. chain_back P t (h_prev_hash (b_header b)) = Some (Inr bs) \<and> point t (h_prev_hash (b_header b)) = Some r \<and>
     foldE (transition_of P (bt_params t)) bs (genesis_point t) = Inr r"
  then obtain bs p where cb: "chain_back P t (h_prev_hash (b_header b)) = Some (Inr bs)"
    and p: "point t (h_prev_hash (b_header b)) = Some p"
    and f: "foldE (transition_of P (bt_params t)) bs (genesis_point t) = Inr p" by blast
  from core_of_blocks [OF kb] obtain b0 where b0: "map_of (bt_blocks t) k = Some b0" "b = core b0" by blast
  with rep ng obtain p' r where "point t (h_prev_hash (b_header b0)) = Some p'" "point t k = Some r"
    "transition_of P (bt_params t) b0 p' = Inr r" unfolding replay_inv_def by blast
  then show "\<exists>bs r. chain_back P t k = Some (Inr bs) \<and> point t k = Some r \<and>
     foldE (transition_of P (bt_params t)) bs (genesis_point t) = Inr r"
    using chain_back_block [OF ng b0(1)] cb p f by (intro exI [of _ "bs @ [b0]"]) (auto simp: b0(2) foldE_append)
qed

text \<open>The two branches of \<open>replay_head\<close> are that fold.\<close>

lemma transition_dense: "transition_of P None b (w, None) = bindE (replay_dense b w) (\<lambda>w. Inr (w, None))"
  by (simp add: transition_of_def replay_dense_def)

lemma transition_paged:
  "transition_of P (Some gp) b (w, Some m) = bindE (replay_paged P gp b (w, m)) (\<lambda>(w, m). Inr (w, Some m))"
  by (simp add: transition_of_def replay_paged_def)

lemma foldE_dense:
  "foldE (transition_of P None) bs (w, None) = bindE (foldE replay_dense bs w) (\<lambda>w. Inr (w, None))"
  by (induction bs arbitrary: w) (auto simp: transition_dense bindE_assoc cong: bindE_cong)

lemma foldE_paged:
  "foldE (transition_of P (Some gp)) bs (w, Some m) =
     bindE (foldE (replay_paged P gp) bs (w, m)) (\<lambda>(w, m). Inr (w, Some m))"
proof (induction bs arbitrary: w m)
  case (Cons b bs)
  show ?case
    by (cases "replay_paged P gp b (w, m)") (auto simp: transition_paged Cons.IH)
qed simp

lemma replay_head_ok:
  assumes "tree_reach P w None dc params t"
  shows "\<exists>v. replay_head P t = Some (Inr v) \<and> head_state t = Inr v"
proof -
  note inv = conjunct1 [OF tree_reach_inv [OF assms]] and rep = tree_reach_replay [OF assms]
  have "bt_head t \<in> dom (map_of (bt_cum_work t))" using tree_inv_fields(4) [OF inv] by (auto simp: heaviest_def)
  then obtain b where hb: "core_of t (bt_head t) = Some b" using tree_inv_fields(1) [OF inv] by auto
  from replay_chain [OF inv rep hb] obtain bs v m where cb: "chain_back P t (bt_head t) = Some (Inr bs)"
    and pt: "point t (bt_head t) = Some (v, m)"
    and f: "foldE (transition_of P (bt_params t)) bs (genesis_point t) = Inr (v, m)" by auto
  have "head_state t = Inr v" using pt by (auto simp: head_state_def dict_at_def point_def split: option.splits)
  moreover have "replay_head P t = Some (Inr v)"
  proof (cases "bt_params t")
    case None
    then have "foldE replay_dense bs (bt_genesis_w t) = Inr v"
      using f by (auto simp: genesis_point_def foldE_dense res_simps)
    then show ?thesis using None cb by (simp add: replay_head_def chain_from_genesis_def)
  next
    case (Some gp)
    then have "\<exists>m. foldE (replay_paged P gp) bs (bt_genesis_w t, genesis_model (gp_spec gp)) = Inr (v, m)"
      using f by (auto simp: genesis_point_def foldE_paged res_simps)
    then show ?thesis using Some cb by (auto simp: replay_head_def chain_from_genesis_def)
  qed
  ultimately show ?thesis by blast
qed

subsection \<open>Weights and page table agree in size\<close>

lemma slice_index_le: "slice_index n i \<le> n"
  by (auto simp: slice_index_def)

lemma set_slice_length: "set_slice xs s e v = Inr ys \<Longrightarrow> length ys = length xs"
  using slice_index_le [of "length xs" s] slice_index_le [of "length xs" e]
  by (auto simp: set_slice_def Let_def split: if_splits)

interpretation page_loop: inv_step "page_step bodies claims" "\<lambda>_. True" "\<lambda>w. length w = n" for bodies claims n
  by unfold_locales (auto simp: page_step_def Let_def res_simps dest: set_slice_length split: if_splits)

lemma paged_transition_length: "paged_transition w bodies claims sps = Inr w' \<Longrightarrow> length w' = length w"
  using page_loop.foldE_inv [OF _ refl] by (auto simp: paged_transition_def)

lemma append_pages_length:
  assumes "spec_ok sp" and "append_pages P sp acts w = Inr w'"
  shows "int (length w') = int (length w) + int (length acts) * expert_page_len sp"
  using assms(2)
proof (induction acts arbitrary: w)
  case (Cons a acts)
  obtain i l e tr where a: "a = (i, l, e, tr)" by (cases a)
  obtain nw where nw: "page_init P tr i sp = Inr nw" "int (length nw) = expert_page_len sp"
    using page_init_ok [OF assms(1)] by blast
  with Cons.prems have "append_pages P sp acts (w @ nw) = Inr w'" by (simp add: append_pages_def a)
  from Cons.IH [OF this] nw(2) show ?case by (simp add: algebra_simps)
qed (simp add: append_pages_def)

lemma tiles_last: "tiles a (ps @ [p]) \<Longrightarrow> ps \<noteq> [] \<Longrightarrow> pg_start p = pg_end (last ps)"
  by (simp add: tiles_append)

text \<open>The end of the last span grows by one page length per activation.\<close>

lemma layout_dim:
  assumes P: "params_ok gp" and ok: "model_ok gp s" "model_ok gp s'" and ext: "layout_extends gp s s' acts"
    and d: "dim s = Inr n"
  shows "dim s' = Inr (n + int (length acts) * expert_page_len (gp_spec gp))"
proof -
  have ne: "ms_pages s \<noteq> []" "ms_pages s' \<noteq> []" using ok pages_ok_neq_Nil [OF P] by (auto simp: model_ok_def)
  have n: "n = snd (last (spans s))" using d ne(1) by (simp add: dim_eq spans_def last_map)
  have d': "dim s' = Inr (snd (last (spans s')))" using ne(2) by (simp add: dim_eq spans_def last_map)
  from ext obtain new where new: "spans s' = spans s @ new" "length new = length acts" "length acts \<le> 1"
    "\<forall>sp\<in>set new. snd sp - fst sp = expert_page_len (gp_spec gp)" by (auto simp: layout_extends_def)
  show ?thesis
  proof (cases new)
    case Nil
    then show ?thesis using new d' n by simp
  next
    case (Cons x xs)
    with new(2,3) have "length xs = 0" "length acts = 1" unfolding Cons list.size by linarith+
    then have x: "new = [x]" "length acts = 1" using Cons by simp_all
    from new(1) obtain ps q where s': "ms_pages s' = ps @ [q]" "x = (pg_start q, pg_end q)"
      "map (\<lambda>p. (pg_start p, pg_end p)) ps = spans s"
      using x(1) by (cases "ms_pages s'" rule: rev_cases) (auto simp: spans_def)
    have psn: "ps \<noteq> []" using s'(3) ne(1) by (auto simp: spans_def)
    have "pg_start q = pg_end (last ps)"
      using ok(2) psn by (intro tiles_last [of 0]) (auto simp: model_ok_def pages_ok_def s'(1))
    moreover have "pg_end (last ps) = n" using psn by (simp add: n flip: s'(3)) (simp add: last_map)
    ultimately show ?thesis using d' new(1,4) x s'(2) by simp
  qed
qed

lemma paged_post_dim:
  assumes P: "params_ok gp" and ok: "model_ok gp m" and d: "dim m = Inr (int (length w))"
    and post: "paged_post P gp fi txs bodies w m = Inr (w', m')"
  shows "model_ok gp m' \<and> dim m' = Inr (int (length w'))"
proof -
  from post obtain bl w1 acts where 1: "paged_transition w bl (map canonical_pages txs) (model_spans m) = Inr w1"
    and 2: "model_fold gp fi m = Inr (m', acts)" and 3: "append_pages P (gp_spec gp) acts w1 = Inr w'"
    by (auto simp: paged_post_def res_simps)
  from model_fold_ok [OF P ok, of fi] 2 have ok': "model_ok gp m'" and ext: "layout_extends gp m m' acts" by auto
  have "spec_ok (gp_spec gp)" using P by (simp add: params_ok_def)
  from append_pages_length [OF this 3] paged_transition_length [OF 1] layout_dim [OF P ok ok' ext d] ok'
  show ?thesis by simp
qed

definition sized :: "genesis_params \<Rightarrow> tree \<Rightarrow> bool" where
  "sized gp t \<longleftrightarrow> (\<forall>k mo. map_of (bt_model t) k = Some mo \<longrightarrow>
     (\<exists>m. mo = Some m \<and> model_ok gp m \<and> (\<forall>w. map_of (bt_state t) k = Some w \<longrightarrow> dim m = Inr (int (length w)))))"

lemma new_tree_sized: "params_ok gp \<Longrightarrow> new_tree P w pd dc (Some gp) = Inr t \<Longrightarrow> sized gp t"
  using genesis_model_ok(1) [of gp]
  by (auto simp: new_tree_def tree_of_def Let_def res_simps sized_def split: if_splits)

lemma check_transition_sized:
  assumes "params_ok gp" "model_ok gp m" "dim m = Inr (int (length w))"
    and "check_transition P b w (Some m) (Some gp) = Inr (w', mo)"
  shows "\<exists>m'. mo = Some m' \<and> model_ok gp m' \<and> dim m' = Inr (int (length w'))"
  using assms(4) paged_post_dim [OF assms(1-3)] by (auto simp: check_transition_def Let_def res_simps)

lemma add_block_sized:
  assumes P: "params_ok gp" and inv: "tree_inv P t" and sz: "sized gp t" and pr: "bt_params t = Some gp"
    and add: "add_block P b t = Inr (r, t')"
  shows "sized gp t'"
proof (cases "hash_of P b \<in> dom (map_of (bt_blocks t))")
  case True
  with add_block_known [OF add] sz show ?thesis by simp
next
  case False
  let ?k = "hash_of P b" and ?p = "h_prev_hash (b_header b)"
  obtain pb pw w led mo where pb: "map_of (bt_blocks t) ?p = Some pb" and pw: "map_of (bt_state t) ?p = Some pw"
    and ct: "check_transition P b pw (parent_model t ?p) (bt_params t) = Inr (w, mo)"
    and at: "attach P b w led mo t = Inr (r, t')"
    by (rule add_block_new [OF add False])
  have "?p \<in> dom (map_of (bt_model t))" using pb dom_core_of [of t] tree_inv_fields(3) [OF inv] by auto
  then obtain pmo where pmo: "map_of (bt_model t) ?p = Some pmo" by blast
  with sz pw obtain pm where "pmo = Some pm" and ok: "model_ok gp pm" "dim pm = Inr (int (length pw))"
    unfolding sized_def by blast
  then have pm: "parent_model t ?p = Some pm" "model_ok gp pm" "dim pm = Inr (int (length pw))"
    using pmo by (simp_all add: parent_model_def)
  from check_transition_sized [OF P pm(2,3) ct [unfolded pm(1) pr]] obtain m' where
    m': "mo = Some m'" "model_ok gp m'" "dim m' = Inr (int (length w))" by blast
  have mm: "map_of (bt_model t') = (map_of (bt_model t))(?k \<mapsto> mo)"
    and ss: "map_of (bt_state t') \<subseteq>\<^sub>m (map_of (bt_state t))(?k \<mapsto> w)"
    using attach_effect [OF at] by metis+
  show ?thesis unfolding sized_def
  proof (intro allI impI)
    fix k x assume k: "map_of (bt_model t') k = Some x"
    have st: "v = (if k = ?k then w else the (map_of (bt_state t) k))" "k \<noteq> ?k \<Longrightarrow> map_of (bt_state t) k = Some v"
      if "map_of (bt_state t') k = Some v" for v
      using map_le_Some [OF ss that] by (auto split: if_splits)
    show "\<exists>m. x = Some m \<and> model_ok gp m \<and> (\<forall>w. map_of (bt_state t') k = Some w \<longrightarrow> dim m = Inr (int (length w)))"
    proof (cases "k = ?k")
      case True
      then show ?thesis using k mm m' st(1) by auto
    next
      case False
      then have "map_of (bt_model t) k = Some x" using k mm by simp
      with sz st(2) False show ?thesis unfolding sized_def by blast
    qed
  qed
qed

lemma tree_reach_sized: "tree_reach P w pd dc (Some gp) t \<Longrightarrow> params_ok gp \<Longrightarrow> sized gp t"
proof (induction rule: tree_reach.induct)
  case (reach_new t)
  then show ?case by (intro new_tree_sized)
next
  case (reach_add t b r t')
  from tree_reach_inv [OF reach_add.hyps(1)] reach_add show ?case
    by (intro add_block_sized [OF _ _ _ _ reach_add.hyps(2)]) simp_all
qed

end
