(* ===== verification/Producer.thy ===== *)
theory Producer
  imports Tree_Props
begin

section \<open>Producer and validator agree\<close>

text \<open>
  \<open>build_block\<close> repeats the transition of \<open>validate_block\<close>. The theory shows that a block it
  returns is accepted by the validator of the same tree, provided the deltas the proposer
  accepted are individually valid, its scores and sketches are in range, and it is eligible.
\<close>

subsection \<open>What the builder commits is what the validator reads\<close>

lemma keys_foldl_update:
  "set (map fst (foldl (\<lambda>d (k, v). AList.update k v d) d ps)) = set (map fst d) \<union> set (map fst ps)"
proof (induction ps arbitrary: d)
  case (Cons p ps)
  have "set (map fst (AList.update k v d)) = insert k (set (map fst d))" for k :: 'a and v :: 'b and d
    by (metis dom_fun_upd dom_map_of_conv_image_fst list.set_map option.distinct(1) update_conv')
  with Cons show ?case by (cases p) auto
qed simp

lemma keys_dict_of: "set (map fst (dict_of ps)) = set (map fst ps)"
  by (simp only: dict_of_def keys_foldl_update) simp

lemma map_of_functional:
  assumes "\<And>k v. (k, v) \<in> set ps \<Longrightarrow> v = f k" and "k \<in> set (map fst ps)"
  shows "map_of ps k = Some (f k)"
proof -
  from assms(2) obtain v where "map_of ps k = Some v" by (metis list.set_map map_of_eq_None_iff not_Some_eq)
  with assms(1) map_of_SomeD show ?thesis by fastforce
qed

lemma map_of_dict_comp:
  "k \<in> g ` set xs \<Longrightarrow> map_of (dict_of (map (\<lambda>x. (g x, f (g x))) xs)) k = Some (f k)"
  unfolding map_of_dict_of by (rule map_of_functional) (auto simp: image_image)

lemma dict_of_range:
  assumes "(k, v) \<in> set (dict_of ps)"
  shows "(k, v) \<in> set ps"
proof -
  have "map_of (dict_of ps) k = Some v"
    using assms dict_wf_of [of ps] by (intro map_of_is_SomeI) (auto simp: dict_wf_def)
  then show ?thesis by (auto simp: map_of_dict_of dest: map_of_SomeD)
qed

lemma lookup_built_bodies:
  assumes "mapE (\<lambda>t. bindE (lookup_body src t) (\<lambda>d. Inr (bp_da_pointer t, d))) txs = Inr ps"
    and "tx \<in> set txs"
  shows "lookup_body (dict_of ps) tx = lookup_body src tx"
proof -
  have l2: "list_all2 (\<lambda>t p. bindE (lookup_body src t) (\<lambda>d. Inr (bp_da_pointer t, d)) = Inr p) txs ps"
    using assms(1) by (simp add: mapE_eq_Inr)
  have each: "v = the (map_of src k)" if "(k, v) \<in> set ps" for k v
    using that l2 by (auto simp: list_all2_conv_all_nth in_set_conv_nth lookup_body_def res_simps split: option.splits)
  obtain i where i: "i < length txs" "txs ! i = tx" using assms(2) by (auto simp: in_set_conv_nth)
  then have "bindE (lookup_body src tx) (\<lambda>d. Inr (bp_da_pointer tx, d)) = Inr (ps ! i)" "i < length ps"
    using l2 by (auto simp: list_all2_conv_all_nth)
  then obtain d where d: "lookup_body src tx = Inr d" "ps ! i = (bp_da_pointer tx, d)" by (auto simp: res_simps)
  then have k: "bp_da_pointer tx \<in> set (map fst (rev ps))"
    using \<open>i < length ps\<close> nth_mem [of i ps] by force
  have "map_of (dict_of ps) (bp_da_pointer tx) = Some (the (map_of src (bp_da_pointer tx)))"
    unfolding map_of_dict_of by (rule map_of_functional [OF _ k]) (use each in auto)
  then show ?thesis using d(1) by (auto simp: lookup_body_def split: option.splits)
qed

lemma mapE_cong: "(\<And>x. x \<in> set xs \<Longrightarrow> f x = g x) \<Longrightarrow> mapE f xs = mapE g xs"
  by (induction xs) auto

lemma paged_post_bodies_cong:
  "(\<And>tx. tx \<in> set txs \<Longrightarrow> lookup_body bs tx = lookup_body bs' tx) \<Longrightarrow>
     paged_post P gp fi txs bs w m = paged_post P gp fi txs bs' w m"
  unfolding paged_post_def using mapE_cong [of txs "lookup_body bs" "lookup_body bs'"] by simp

lemma dense_post_bodies_cong:
  "(\<And>tx. tx \<in> set txs \<Longrightarrow> lookup_body bs tx = lookup_body bs' tx) \<Longrightarrow> dense_post txs bs w = dense_post txs bs' w"
  unfolding dense_post_def using mapE_cong [of txs "lookup_body bs" "lookup_body bs'"] by simp

text \<open>The token transition reads only the height and the proposer of the header.\<close>

lemma apply_ledger_header:
  assumes "h_height h = h_height (b_header b)" "h_proposer h = h_proposer (b_header b)"
  shows "apply_ledger P led (b\<lparr>b_header := h\<rparr>) dc J = apply_ledger P led b dc J"
proof -
  have "accrue_tx P (b\<lparr>b_header := h\<rparr>) = accrue_tx P b" by (intro ext) (simp add: accrue_tx_def)
  then have "accrue P (b\<lparr>b_header := h\<rparr>) = accrue P b" by (intro ext) (simp add: accrue_def)
  then show ?thesis using assms by (simp add: apply_ledger_def)
qed

lemma proof_bytes_hex: "proof_bytes (hex pf) = Inr pf"
proof (cases "hex pf = []")
  case True
  moreover have "hex [] = []" by (simp add: hex_def)
  ultimately have "pf = []" by (metis hex_inject)
  with True show ?thesis by (simp add: proof_bytes_def)
qed (simp add: proof_bytes_def fromhex_hex)

lemma foldE_unit: "(\<And>x. x \<in> set xs \<Longrightarrow> f x () = Inr ()) \<Longrightarrow> foldE f xs () = Inr ()"
  by (induction xs) auto

subsection \<open>The commitments of a built block\<close>

definition scores_in_range :: "(string, int) dict \<Rightarrow> bool" where
  "scores_in_range d \<longleftrightarrow> (\<forall>p\<in>set d. 0 \<le> snd p \<and> snd p \<le> SCORE_CAP)"

definition sketch_ok :: "int list \<Rightarrow> bool" where
  "sketch_ok v \<longleftrightarrow> length v = SKETCH_DIM \<and> (\<forall>x\<in>set v. - I32 \<le> x \<and> x < I32)"

definition sketches_in_range :: "(string, int list) dict \<Rightarrow> bool" where
  "sketches_in_range d \<longleftrightarrow> (\<forall>p\<in>set d. sketch_ok (snd p))"

lemma built_scores_range:
  assumes "scores_in_range (pr_scores pr)"
  shows "scores_in_range (built_scores P pr)"
proof -
  have "0 \<le> dict_get (pr_scores pr) k 0 \<and> dict_get (pr_scores pr) k 0 \<le> SCORE_CAP" for k
    using assms by (fastforce simp: scores_in_range_def dict_get_def SCORE_CAP_def dest: map_of_SomeD split: option.splits)
  then show ?thesis by (auto simp: scores_in_range_def built_scores_def dest!: dict_of_range)
qed

lemma built_sketches_range:
  assumes "sketches_in_range (pr_sketches pr)"
  shows "sketches_in_range (built_sketches P pr)"
proof -
  have "sketch_ok (replicate SKETCH_DIM 0)" by (auto simp: sketch_ok_def I32_def)
  then have "sketch_ok (dict_get (pr_sketches pr) k (replicate SKETCH_DIM 0))" for k
    using assms by (fastforce simp: sketches_in_range_def dict_get_def dest: map_of_SomeD split: option.splits)
  then show ?thesis by (auto simp: sketches_in_range_def built_sketches_def dest!: dict_of_range)
qed

lemma check_scores_ok:
  assumes "set (map fst (b_scores b)) = txids P b" "scores_in_range (b_scores b)"
    and "h_score_root (b_header b) = scores_root P (b_scores b)"
  shows "check_scores P b = Inr ()"
proof -
  have "foldE (\<lambda>(k, v) u. raise_if (\<not> (0 \<le> v \<and> v \<le> SCORE_CAP)) (verr (''score out of range for '' @ short k)))
      (b_scores b) () = Inr ()"
    by (rule foldE_unit) (use assms(2) in \<open>auto simp: scores_in_range_def\<close>)
  then show ?thesis unfolding check_scores_def using assms(1,3) by simp
qed

lemma check_sketches_ok:
  assumes "set (map fst (b_sketches b)) = txids P b" "sketches_in_range (b_sketches b)"
    and "h_sketch_root (b_header b) = sketch_root P (b_sketches b)"
  shows "check_sketches P b = Inr ()"
proof -
  have "foldE (\<lambda>(k, v) u. raise_if (length v \<noteq> SKETCH_DIM \<or> (\<exists>x\<in>set v. \<not> (- I32 \<le> x \<and> x < I32)))
      (verr (''sketch malformed for '' @ short k))) (b_sketches b) () = Inr ()"
    by (rule foldE_unit) (use assms(2) in \<open>auto simp: sketches_in_range_def sketch_ok_def\<close>)
  then show ?thesis unfolding check_sketches_def using assms(1,3) by simp
qed

lemma keys_built:
  "set (map fst (built_scores P pr)) = bp_txid P ` set (pr_accepted pr)"
  "set (map fst (built_sketches P pr)) = bp_txid P ` set (pr_accepted pr)"
  unfolding built_scores_def built_sketches_def keys_dict_of by (simp_all add: image_image)

lemma zero_count_agrees:
  "filter (\<lambda>t. the (map_of (built_scores P pr) (bp_txid P t)) = 0) (pr_accepted pr) =
   filter (\<lambda>t. dict_get (built_scores P pr) (bp_txid P t) 0 = 0) (pr_accepted pr)"
proof (rule filter_cong [OF refl])
  fix t assume "t \<in> set (pr_accepted pr)"
  then have "map_of (built_scores P pr) (bp_txid P t) = Some (dict_get (pr_scores pr) (bp_txid P t) 0)"
    unfolding built_scores_def by (intro map_of_dict_comp) auto
  then show "(the (map_of (built_scores P pr) (bp_txid P t)) = 0) = (dict_get (built_scores P pr) (bp_txid P t) 0 = 0)"
    by (simp add: dict_get_def)
qed

subsection \<open>The block the builder returns\<close>

text \<open>The pieces a successful \<open>build_block\<close> has computed.\<close>

lemma build_block_cases:
  assumes "build_block P t parent pr = Inr b"
  obtains pw pb s_root m_root pf work ps pl led where
    "map_of (bt_state t) parent = Some pw" "map_of (bt_blocks t) parent = Some pb"
    "build_transition P t parent (h_height (b_header pb) + 1) pw pr = Inr (s_root, m_root, pf, work)"
    "mapE (\<lambda>t. bindE (lookup_body (pr_bodies pr) t) (\<lambda>d. Inr (bp_da_pointer t, d))) (pr_accepted pr) = Inr ps"
    "map_of (bt_ledger t) parent = Some pl"
    "apply_ledger P pl b (bt_data_contributor t) (recent_proposers P t parent) = Inr led"
    "b = \<lparr>b_header = \<lparr>h_height = h_height (b_header pb) + 1, h_prev_hash = parent, h_state_root = s_root,
              h_txset_root = txset_root P (pr_accepted pr), h_n_txs = int (length (pr_accepted pr)),
              h_work = work, h_proposer = pub (pr_key pr), h_transfer_root = transfer_root P (pr_transfers pr),
              h_ledger_root = ledger_root P led, h_data_root = data_root P (pr_data_txs pr), h_vrf_proof = hex pf,
              h_score_root = scores_root P (built_scores P pr), h_sketch_root = sketch_root P (built_sketches P pr),
              h_model_root = m_root, h_vrf_attempt = pr_attempt pr,
              h_version = expected_version (h_height (b_header pb) + 1) (bt_params t)\<rparr>,
            b_txs = pr_accepted pr, b_bodies = dict_of ps, b_transfers = pr_transfers pr,
            b_data_txs = pr_data_txs pr, b_scores = built_scores P pr, b_sketches = built_sketches P pr\<rparr>"
proof -
  from assms obtain pw where pw: "map_of (bt_state t) parent = Some pw"
    by (auto simp: build_block_def dict_at_def split: option.splits)
  with assms obtain pb where pb: "map_of (bt_blocks t) parent = Some pb"
    by (auto simp: build_block_def dict_at_def split: option.splits)
  let ?h = "h_height (b_header pb) + 1"
  from assms pw pb obtain s_root m_root pf work where
    tr: "build_transition P t parent ?h pw pr = Inr (s_root, m_root, pf, work)"
    by (auto simp: build_block_def dict_at_def Let_def res_simps)
  with assms pw pb obtain ps where
    ps: "mapE (\<lambda>t. bindE (lookup_body (pr_bodies pr) t) (\<lambda>d. Inr (bp_da_pointer t, d))) (pr_accepted pr) = Inr ps"
    by (auto simp: build_block_def dict_at_def Let_def res_simps)
  from assms pw pb tr ps obtain pl where pl: "map_of (bt_ledger t) parent = Some pl"
    by (auto simp: build_block_def dict_at_def Let_def split: option.splits)
  define h1 where "h1 = \<lparr>h_height = ?h, h_prev_hash = parent, h_state_root = s_root,
      h_txset_root = txset_root P (pr_accepted pr), h_n_txs = int (length (pr_accepted pr)),
      h_work = work, h_proposer = pub (pr_key pr), h_transfer_root = transfer_root P (pr_transfers pr),
      h_ledger_root = [], h_data_root = data_root P (pr_data_txs pr), h_vrf_proof = hex pf,
      h_score_root = scores_root P (built_scores P pr), h_sketch_root = sketch_root P (built_sketches P pr),
      h_model_root = m_root, h_vrf_attempt = pr_attempt pr, h_version = expected_version ?h (bt_params t)\<rparr>"
  define b1 where "b1 = \<lparr>b_header = h1, b_txs = pr_accepted pr, b_bodies = dict_of ps, b_transfers = pr_transfers pr,
      b_data_txs = pr_data_txs pr, b_scores = built_scores P pr, b_sketches = built_sketches P pr\<rparr>"
  have "bindE (apply_ledger P pl b1 (bt_data_contributor t) (recent_proposers P t parent)) (\<lambda>led.
      Inr (b1\<lparr>b_header := h1\<lparr>h_ledger_root := ledger_root P led\<rparr>\<rparr>)) = Inr b"
    using assms unfolding b1_def h1_def build_block_def by (simp add: dict_at_def Let_def pw pb tr ps pl)
  then obtain led where led: "apply_ledger P pl b1 (bt_data_contributor t) (recent_proposers P t parent) = Inr led"
    and b: "b = b1\<lparr>b_header := h1\<lparr>h_ledger_root := ledger_root P led\<rparr>\<rparr>" by (auto simp: res_simps)
  have "apply_ledger P pl b (bt_data_contributor t) (recent_proposers P t parent) = Inr led"
    unfolding b led [symmetric] by (rule apply_ledger_header) (simp_all add: b1_def)
  from that [OF pw pb tr ps pl this] show thesis by (simp add: b b1_def h1_def)
qed

lemma build_block_fields:
  assumes "build_block P t parent pr = Inr b"
  shows "\<exists>pb led. map_of (bt_blocks t) parent = Some pb \<and> h_height (b_header b) = h_height (b_header pb) + 1
     \<and> h_prev_hash (b_header b) = parent \<and> h_proposer (b_header b) = pub (pr_key pr)
     \<and> h_ledger_root (b_header b) = ledger_root P led \<and> b_txs b = pr_accepted pr
     \<and> b_transfers b = pr_transfers pr \<and> b_data_txs b = pr_data_txs pr
     \<and> b_scores b = built_scores P pr \<and> b_sketches b = built_sketches P pr"
  by (rule build_block_cases [OF assms]) auto

text \<open>The conditions under which the proposer may publish: a sound key, values in range, valid
  deltas, and, under protocol v1, eligibility.\<close>

definition proposal_ok :: "prims \<Rightarrow> tree \<Rightarrow> string \<Rightarrow> proposal \<Rightarrow> block \<Rightarrow> bool" where
  "proposal_ok P t parent pr b \<longleftrightarrow>
     sig_correct P \<and> key_pk (pr_key pr) = ed_pub P (key_sk (pr_key pr))
     \<and> scores_in_range (pr_scores pr) \<and> sketches_in_range (pr_sketches pr)
     \<and> (\<forall>pw. map_of (bt_state t) parent = Some pw \<longrightarrow>
          (\<forall>tx\<in>set (pr_accepted pr). check_tx P b (parent_model t parent) (bt_params t) (length pw) tx () = Inr ()))"

definition proposer_eligible :: "prims \<Rightarrow> tree \<Rightarrow> string \<Rightarrow> proposal \<Rightarrow> block \<Rightarrow> bool" where
  "proposer_eligible P t parent pr b \<longleftrightarrow>
     (parent_model t parent \<noteq> None \<longrightarrow>
        (\<forall>pl a. map_of (bt_ledger t) parent = Some pl \<longrightarrow> address P (pub (pr_key pr)) = Inr a \<longrightarrow>
           eligible P (pub (pr_key pr)) (vrf_prove P (pr_key pr) parent (h_height (b_header b)) (pr_attempt pr))
             parent (h_height (b_header b)) (pr_attempt pr) (balance pl a) (ledger_supply pl)))"

lemma address_pub: "\<exists>a. address P (pub k) = Inr a"
  by (simp add: address_def pub_def fromhex_hex)

lemma build_lottery_ok:
  assumes tr: "build_transition P t parent h pw pr = Inr (s_root, m_root, pf, work)"
    and hd: "h_proposer hdr = pub (pr_key pr)" "h_vrf_proof hdr = hex pf" "h_vrf_attempt hdr = pr_attempt pr"
      "h_prev_hash hdr = parent" "h_height hdr = h" "h_work hdr = work"
    and sg: "sig_correct P" "key_pk (pr_key pr) = ed_pub P (key_sk (pr_key pr))"
    and el: "\<And>a. parent_model t parent \<noteq> None \<Longrightarrow> address P (pub (pr_key pr)) = Inr a \<Longrightarrow>
      eligible P (pub (pr_key pr)) (vrf_prove P (pr_key pr) parent h (pr_attempt pr)) parent h (pr_attempt pr)
        (balance pl a) (ledger_supply pl)"
  shows "check_lottery P hdr (parent_model t parent \<noteq> None) (Some pl) = Inr ()"
proof (cases "parent_model t parent")
  case None
  then have "pf = vrf_prove P (pr_key pr) parent h 0" "work = vrf_work P pf"
    using tr by (auto simp: build_transition_def Let_def res_simps)
  then show ?thesis
    using None verify_vrf_prove [OF sg] by (simp add: check_lottery_def hd proof_bytes_hex)
next
  case (Some m)
  then obtain gp where gp: "bt_params t = Some gp"
    using tr by (auto simp: build_transition_def Let_def split: option.splits)
  from tr Some gp have pf: "pf = vrf_prove P (pr_key pr) parent h (pr_attempt pr)"
    and wk: "attempt_work P pf (pr_attempt pr) = Inr work"
    by (auto simp: build_transition_def Let_def res_simps)
  obtain a where a: "address P (pub (pr_key pr)) = Inr a" using address_pub by blast
  from el [OF _ a] Some have e: "eligible P (pub (pr_key pr)) pf parent h (pr_attempt pr) (balance pl a) (ledger_supply pl)"
    by (simp add: pf)
  from eligible_verifies [OF e] have "0 \<le> pr_attempt pr" "pr_attempt pr \<le> ATTEMPT_MAX" by auto
  then show ?thesis using Some a e wk by (simp add: check_lottery_def hd proof_bytes_hex)
qed

lemma build_transition_ok:
  assumes tr: "build_transition P t parent h pw pr = Inr (s_root, m_root, pf, work)"
    and bd: "mapE (\<lambda>t. bindE (lookup_body (pr_bodies pr) t) (\<lambda>d. Inr (bp_da_pointer t, d))) (pr_accepted pr) = Inr ps"
    and b: "b_txs b = pr_accepted pr" "b_bodies b = dict_of ps" "b_scores b = built_scores P pr"
      "h_height (b_header b) = h" "h_prev_hash (b_header b) = parent" "h_proposer (b_header b) = pub (pr_key pr)"
      "h_state_root (b_header b) = s_root" "h_model_root (b_header b) = m_root"
  shows "\<exists>w m. check_transition P b pw (parent_model t parent) (bt_params t) = Inr (w, m)"
proof -
  have look: "\<And>tx. tx \<in> set (pr_accepted pr) \<Longrightarrow> lookup_body (dict_of ps) tx = lookup_body (pr_bodies pr) tx"
    by (rule lookup_built_bodies [OF bd])
  show ?thesis
  proof (cases "parent_model t parent")
    case None
    from tr None obtain w where w: "dense_post (pr_accepted pr) (pr_bodies pr) pw = Inr w" "s_root = state_root P w"
      by (auto simp: build_transition_def Let_def res_simps)
    have "dense_post (pr_accepted pr) (dict_of ps) pw = Inr w"
      using dense_post_bodies_cong [OF look] w(1) by simp
    then show ?thesis using None w(2) by (simp add: check_transition_def b Let_def)
  next
    case (Some m)
    then obtain gp where gp: "bt_params t = Some gp"
      using tr by (auto simp: build_transition_def Let_def split: option.splits)
    let ?fi = "\<lparr>fi_height = h, fi_n_txs = int (length (pr_accepted pr)),
        fi_zero_scored = int (length (filter (\<lambda>t. the (map_of (built_scores P pr) (bp_txid P t)) = 0) (pr_accepted pr))),
        fi_prev_hash = parent, fi_score_sum = dict_sum id (built_scores P pr), fi_proposer = pub (pr_key pr)\<rparr>"
    from tr Some gp obtain w post where w: "paged_post P gp ?fi (pr_accepted pr) (pr_bodies pr) pw m = Inr (w, post)"
      "page_state_root P w post = Inr s_root" "m_root = model_root P post"
      by (auto simp: build_transition_def Let_def res_simps)
    have fi: "block_fold_input P b = ?fi" unfolding zero_count_agrees by (simp add: block_fold_input_def b Let_def)
    have "paged_post P gp (block_fold_input P b) (pr_accepted pr) (dict_of ps) pw m = Inr (w, post)"
      unfolding fi using paged_post_bodies_cong [OF look] w(1) by simp
    then show ?thesis using Some gp w(2,3) by (simp add: check_transition_def b Let_def)
  qed
qed

lemma build_block_valid:
  assumes build: "build_block P t parent pr = Inr b" and ok: "proposal_ok P t parent pr b"
    and el: "proposer_eligible P t parent pr b"
  shows "\<exists>pw pb pl w led m. map_of (bt_state t) parent = Some pw \<and> map_of (bt_blocks t) parent = Some pb \<and>
     map_of (bt_ledger t) parent = Some pl \<and>
     validate_block P b pw (h_height (b_header pb)) (Some pl) (bt_data_contributor t) (recent_proposers P t parent)
       (parent_model t parent) (bt_params t) = Inr (w, Some led, m)"
proof -
  obtain pw pb s_root m_root pf work ps pl led where
    pw: "map_of (bt_state t) parent = Some pw" and pb: "map_of (bt_blocks t) parent = Some pb"
    and tr: "build_transition P t parent (h_height (b_header pb) + 1) pw pr = Inr (s_root, m_root, pf, work)"
    and ps: "mapE (\<lambda>t. bindE (lookup_body (pr_bodies pr) t) (\<lambda>d. Inr (bp_da_pointer t, d))) (pr_accepted pr) = Inr ps"
    and pl: "map_of (bt_ledger t) parent = Some pl"
    and al: "apply_ledger P pl b (bt_data_contributor t) (recent_proposers P t parent) = Inr led"
    and b: "b = \<lparr>b_header = \<lparr>h_height = h_height (b_header pb) + 1, h_prev_hash = parent, h_state_root = s_root,
              h_txset_root = txset_root P (pr_accepted pr), h_n_txs = int (length (pr_accepted pr)),
              h_work = work, h_proposer = pub (pr_key pr), h_transfer_root = transfer_root P (pr_transfers pr),
              h_ledger_root = ledger_root P led, h_data_root = data_root P (pr_data_txs pr), h_vrf_proof = hex pf,
              h_score_root = scores_root P (built_scores P pr), h_sketch_root = sketch_root P (built_sketches P pr),
              h_model_root = m_root, h_vrf_attempt = pr_attempt pr,
              h_version = expected_version (h_height (b_header pb) + 1) (bt_params t)\<rparr>,
            b_txs = pr_accepted pr, b_bodies = dict_of ps, b_transfers = pr_transfers pr,
            b_data_txs = pr_data_txs pr, b_scores = built_scores P pr, b_sketches = built_sketches P pr\<rparr>"
    by (rule build_block_cases [OF build])
  note m = ok [unfolded proposal_ok_def]
  have st: "check_structure b (h_height (b_header pb)) (parent_model t parent \<noteq> None) (bt_params t) = Inr ()"
    unfolding b by (simp add: check_structure_def)
  have lo: "check_lottery P (b_header b) (parent_model t parent \<noteq> None) (Some pl) = Inr ()"
    by (rule build_lottery_ok [OF tr]) (use m pl el [unfolded proposer_eligible_def] in \<open>auto simp: b\<close>)
  have tx: "foldE (check_tx P b (parent_model t parent) (bt_params t) (length pw)) (b_txs b) () = Inr ()"
    by (rule foldE_unit) (use m pw in \<open>simp add: b\<close>)
  have sc: "check_scores P b = Inr ()" "check_sketches P b = Inr ()"
    using m built_scores_range [of pr P] built_sketches_range [of pr P] keys_built [of P pr]
    by (auto intro!: check_scores_ok check_sketches_ok simp: b txids_def)
  obtain w mo where ct: "check_transition P b pw (parent_model t parent) (bt_params t) = Inr (w, mo)"
    using build_transition_ok [OF tr ps, of b] by (auto simp: b)
  have cl: "check_ledger P b (Some pl) (bt_data_contributor t) (recent_proposers P t parent) = Inr (Some led)"
    using al unfolding check_ledger_def by (simp add: b)
  have root: "h_txset_root (b_header b) = txset_root P (b_txs b)" by (simp add: b)
  have "validate_block P b pw (h_height (b_header pb)) (Some pl) (bt_data_contributor t) (recent_proposers P t parent)
       (parent_model t parent) (bt_params t) = Inr (w, Some led, mo)"
    unfolding validate_block_def by (simp only: st lo tx sc ct cl root) simp
  with pw pb pl show ?thesis by blast
qed

subsection \<open>A block that commits no ledger root\<close>

text \<open>
  \<open>add_block\<close> passes no parent ledger to the validator when \<^verbatim>\<open>ledger_root\<close> is empty, a provision for
  old blocks. The validator then checks the proof's signature and not its threshold.
\<close>

definition without_root :: "block \<Rightarrow> block" where
  "without_root b = b\<lparr>b_header := (b_header b)\<lparr>h_ledger_root := []\<rparr>\<rparr>"

lemma unstaked_lottery_ok:
  assumes tr: "build_transition P t parent h pw pr = Inr (s_root, m_root, pf, work)"
    and hd: "h_proposer hdr = pub (pr_key pr)" "h_vrf_proof hdr = hex pf" "h_vrf_attempt hdr = pr_attempt pr"
      "h_prev_hash hdr = parent" "h_height hdr = h" "h_work hdr = work"
    and sg: "sig_correct P" "key_pk (pr_key pr) = ed_pub P (key_sk (pr_key pr))"
    and att: "0 \<le> pr_attempt pr" "pr_attempt pr \<le> ATTEMPT_MAX"
  shows "check_lottery P hdr (parent_model t parent \<noteq> None) None = Inr ()"
proof (cases "parent_model t parent")
  case None
  then have "pf = vrf_prove P (pr_key pr) parent h 0" "work = vrf_work P pf"
    using tr by (auto simp: build_transition_def Let_def res_simps)
  then show ?thesis
    using None verify_vrf_prove [OF sg] by (simp add: check_lottery_def hd proof_bytes_hex)
next
  case (Some m)
  then obtain gp where gp: "bt_params t = Some gp"
    using tr by (auto simp: build_transition_def Let_def split: option.splits)
  from tr Some gp have pf: "pf = vrf_prove P (pr_key pr) parent h (pr_attempt pr)"
    and wk: "attempt_work P pf (pr_attempt pr) = Inr work"
    by (auto simp: build_transition_def Let_def res_simps)
  then show ?thesis
    using Some att verify_vrf_prove [OF sg] by (simp add: check_lottery_def hd proof_bytes_hex)
qed

lemma prune_deep_returns: "map_of (bt_blocks t) (bt_head t) \<noteq> None \<Longrightarrow> \<exists>t'. prune_deep P t = Inr t'"
  by (auto simp: prune_deep_def dict_at_def Let_def split: option.splits)

lemma attach_returns:
  assumes inv: "tree_inv P t" and "map_of (bt_cum_work t) (h_prev_hash (b_header b)) = Some cw"
    and ch: "map_of (bt_cum_work t) (bt_head t) = Some ch" and new: "hash_of P b \<notin> dom (map_of (bt_blocks t))"
  shows "\<exists>t'. attach P b w led m t = Inr (heavier t (hash_of P b) (cw + max 1 (h_work (b_header b))) ch, t')
     \<and> (heavier t (hash_of P b) (cw + max 1 (h_work (b_header b))) ch \<longrightarrow> bt_head t' = hash_of P b)"
proof -
  let ?k = "hash_of P b" and ?ck = "cw + max 1 (h_work (b_header b))"
  let ?r = "recorded P b w led m ?ck t"
  have "bt_head t \<in> dom (map_of (bt_blocks t))"
    using ch tree_inv_fields(1) [OF inv] dom_core_of [of t] by auto
  then have hb: "map_of (bt_blocks ?r) (bt_head t) \<noteq> None" and ne: "bt_head t \<noteq> ?k"
    using new by (auto simp: recorded_def update_conv')
  have hr: "bt_head ?r = bt_head t" by (simp add: recorded_def)
  obtain t1 where t1: "prune_deep P ?r = Inr t1" using prune_deep_returns [of ?r P] hb hr by auto
  obtain t2 where t2: "prune_deep P (?r\<lparr>bt_head := ?k\<rparr>) = Inr t2"
    using prune_deep_returns [of "?r\<lparr>bt_head := ?k\<rparr>" P] by (auto simp: recorded_def update_conv')
  have "bt_head t2 = ?k" using prune_deep_ok [OF t2] by auto
  moreover have "heavier ?r = heavier t" by (intro ext) (simp add: heavier_def hr)
  moreover have "map_of (bt_cum_work ?r) (bt_head t) = Some ch" using ch ne by (simp add: recorded_def update_conv')
  ultimately show ?thesis
    unfolding attach_def using assms(2) t1 t2 by (simp add: dict_at_def Let_def hr)
qed

lemma unstaked_block_accepted:
  assumes inv: "tree_inv P t" and build: "build_block P t parent pr = Inr b"
    and ok: "proposal_ok P t parent pr (without_root b)"
    and att: "0 \<le> pr_attempt pr" "pr_attempt pr \<le> ATTEMPT_MAX"
    and new: "hash_of P (without_root b) \<notin> dom (map_of (bt_blocks t))"
  shows "\<exists>r t'. add_block P (without_root b) t = Inr (r, t')"
proof -
  obtain pw pb s_root m_root pf work ps pl led where
    pw: "map_of (bt_state t) parent = Some pw" and pb: "map_of (bt_blocks t) parent = Some pb"
    and tr: "build_transition P t parent (h_height (b_header pb) + 1) pw pr = Inr (s_root, m_root, pf, work)"
    and ps: "mapE (\<lambda>t. bindE (lookup_body (pr_bodies pr) t) (\<lambda>d. Inr (bp_da_pointer t, d))) (pr_accepted pr) = Inr ps"
    and pl: "map_of (bt_ledger t) parent = Some pl"
    and al: "apply_ledger P pl b (bt_data_contributor t) (recent_proposers P t parent) = Inr led"
    and b: "b = \<lparr>b_header = \<lparr>h_height = h_height (b_header pb) + 1, h_prev_hash = parent, h_state_root = s_root,
              h_txset_root = txset_root P (pr_accepted pr), h_n_txs = int (length (pr_accepted pr)),
              h_work = work, h_proposer = pub (pr_key pr), h_transfer_root = transfer_root P (pr_transfers pr),
              h_ledger_root = ledger_root P led, h_data_root = data_root P (pr_data_txs pr), h_vrf_proof = hex pf,
              h_score_root = scores_root P (built_scores P pr), h_sketch_root = sketch_root P (built_sketches P pr),
              h_model_root = m_root, h_vrf_attempt = pr_attempt pr,
              h_version = expected_version (h_height (b_header pb) + 1) (bt_params t)\<rparr>,
            b_txs = pr_accepted pr, b_bodies = dict_of ps, b_transfers = pr_transfers pr,
            b_data_txs = pr_data_txs pr, b_scores = built_scores P pr, b_sketches = built_sketches P pr\<rparr>"
    by (rule build_block_cases [OF build])
  let ?b = "without_root b"
  note m = ok [unfolded proposal_ok_def]
  have st: "check_structure ?b (h_height (b_header pb)) (parent_model t parent \<noteq> None) (bt_params t) = Inr ()"
    unfolding b by (simp add: check_structure_def without_root_def)
  have lo: "check_lottery P (b_header ?b) (parent_model t parent \<noteq> None) None = Inr ()"
    by (rule unstaked_lottery_ok [OF tr]) (use m att in \<open>auto simp: b without_root_def\<close>)
  have tx: "foldE (check_tx P ?b (parent_model t parent) (bt_params t) (length pw)) (b_txs ?b) () = Inr ()"
    by (rule foldE_unit) (use m pw in \<open>simp add: b without_root_def\<close>)
  have sc: "check_scores P ?b = Inr ()" "check_sketches P ?b = Inr ()"
    using m built_scores_range [of pr P] built_sketches_range [of pr P] keys_built [of P pr]
    by (auto intro!: check_scores_ok check_sketches_ok simp: b txids_def without_root_def)
  obtain w mo where ct: "check_transition P ?b pw (parent_model t parent) (bt_params t) = Inr (w, mo)"
    using build_transition_ok [OF tr ps, of ?b] by (auto simp: b without_root_def)
  have root: "h_txset_root (b_header ?b) = txset_root P (b_txs ?b)" by (simp add: b without_root_def)
  have v: "validate_block P ?b pw (h_height (b_header pb)) None (bt_data_contributor t) (recent_proposers P t parent)
       (parent_model t parent) (bt_params t) = Inr (w, None, mo)"
    unfolding validate_block_def check_ledger_def by (simp only: st lo tx sc ct root) simp
  have al': "apply_ledger P pl ?b (bt_data_contributor t) (recent_proposers P t parent) = Inr led"
    unfolding without_root_def al [symmetric] by (rule apply_ledger_header) simp_all
  have hb: "h_prev_hash (b_header ?b) = parent" "h_ledger_root (b_header ?b) = []" by (simp_all add: b without_root_def)
  have "parent \<in> dom (core_of t)" using pb dom_core_of [of t] by auto
  then obtain cw where cw: "map_of (bt_cum_work t) (h_prev_hash (b_header ?b)) = Some cw"
    using tree_inv_fields(1) [OF inv] hb by auto
  obtain ch where ch: "map_of (bt_cum_work t) (bt_head t) = Some ch"
    using tree_inv_fields(4) [OF inv] by (auto simp: heaviest_def)
  obtain r t' where "attach P ?b w led mo t = Inr (r, t')" using attach_returns [OF inv cw ch new] by blast
  moreover have "hash_of P ?b \<notin> set (map fst (bt_blocks t))" using new by (simp add: dom_map_of_conv_image_fst)
  ultimately show ?thesis
    unfolding add_block_def by (simp add: hb pb pw pl v al' dict_at_def Let_def)
qed

subsection \<open>A block that names the proposer ``genesis''\<close>

lemma cum_work_nonneg:
  assumes inv: "tree_inv P t" and "core_of t k = Some b" "map_of (bt_cum_work t) k = Some c"
  shows "0 \<le> c"
proof -
  have "\<forall>c. map_of (bt_cum_work t) k = Some c \<longrightarrow> 0 \<le> c"
  proof (rule chain_induct [OF inv assms(2)])
    show "\<forall>c. map_of (bt_cum_work t) (genesis_hash P t) = Some c \<longrightarrow> 0 \<le> c" using inv by (simp add: tree_inv_def)
  next
    fix k b pb assume "linked P t k b" "\<forall>c. map_of (bt_cum_work t) (h_prev_hash (b_header b)) = Some c \<longrightarrow> 0 \<le> c"
    then show "\<forall>c. map_of (bt_cum_work t) k = Some c \<longrightarrow> 0 \<le> c" by (force simp: linked_def)
  qed
  with assms(3) show ?thesis by blast
qed

definition with_work :: "int \<Rightarrow> block \<Rightarrow> block" where
  "with_work x b = b\<lparr>b_header := (b_header b)\<lparr>h_work := x\<rparr>\<rparr>"

text \<open>No phase of the validation of such a block reads its work.\<close>

lemma validate_with_work:
  assumes "h_proposer (b_header b) = ''genesis''"
  shows "validate_block P (with_work x b) pw ph pl dc J pm params = validate_block P b pw ph pl dc J pm params"
proof -
  let ?b = "with_work x b"
  have f: "b_txs ?b = b_txs b" "b_bodies ?b = b_bodies b" "b_scores ?b = b_scores b" "b_sketches ?b = b_sketches b"
    "h_txset_root (b_header ?b) = h_txset_root (b_header b)" "h_height (b_header ?b) = h_height (b_header b)"
    by (simp_all add: with_work_def)
  have cc: "check_claims P (b_header ?b) = check_claims P (b_header b)"
    by (intro ext) (simp only: check_claims_def f)
  have "check_structure ?b = check_structure b" by (intro ext) (simp add: check_structure_def with_work_def Let_def)
  moreover have "check_lottery P (b_header ?b) = check_lottery P (b_header b)"
    using assms by (intro ext) (simp add: check_lottery_def with_work_def)
  moreover have "check_tx P ?b = check_tx P b" by (intro ext) (simp only: check_tx_def Let_def cc f)
  moreover have "check_scores P ?b = check_scores P b" "check_sketches P ?b = check_sketches P b"
    by (simp_all add: check_scores_def check_sketches_def with_work_def txids_def)
  moreover have "block_fold_input P ?b = block_fold_input P b" by (simp add: block_fold_input_def with_work_def Let_def)
  then have "check_transition P ?b = check_transition P b"
    by (intro ext) (simp add: check_transition_def with_work_def Let_def cong: option.case_cong)
  moreover have "apply_ledger P l ?b dc J = apply_ledger P l b dc J" for l
    unfolding with_work_def by (rule apply_ledger_header) simp_all
  then have "check_ledger P ?b pl dc J = check_ledger P b pl dc J"
    by (simp add: check_ledger_def with_work_def cong: option.case_cong)
  ultimately show ?thesis unfolding validate_block_def f by simp
qed

lemma genesis_proposer_takes_head:
  assumes inv: "tree_inv P t" and gen: "h_proposer (b_header b) = ''genesis''"
    and add: "add_block P b t = Inr (r, t1)"
    and new: "hash_of P b \<notin> dom (map_of (bt_blocks t))" "hash_of P (with_work x b) \<notin> dom (map_of (bt_blocks t))"
    and ch: "map_of (bt_cum_work t) (bt_head t) = Some ch" and big: "ch < x"
  shows "\<exists>t'. add_block P (with_work x b) t = Inr (True, t') \<and> bt_head t' = hash_of P (with_work x b)"
proof -
  let ?b = "with_work x b" and ?p = "h_prev_hash (b_header b)"
  have hb: "h_prev_hash (b_header ?b) = ?p" "h_ledger_root (b_header ?b) = h_ledger_root (b_header b)" "h_work (b_header ?b) = x"
    by (simp_all add: with_work_def)
  obtain pb where pb: "map_of (bt_blocks t) ?p = Some pb" by (rule add_block_new [OF add new(1)])
  have "?p \<in> dom (core_of t)" using pb dom_core_of [of t] by auto
  then obtain cp where cp: "core_of t ?p = Some cp" by blast
  obtain cw where cw: "map_of (bt_cum_work t) ?p = Some cw"
    using tree_inv_fields(1) [OF inv] \<open>?p \<in> dom (core_of t)\<close> by blast
  from cum_work_nonneg [OF inv cp cw] have "0 \<le> cw" .
  then have hv: "heavier t (hash_of P ?b) (cw + max 1 x) ch" using big by (auto simp: heavier_def max_def)
  have al: "apply_ledger P l ?b dc J = apply_ledger P l b dc J" for l dc J
    unfolding with_work_def by (rule apply_ledger_header) simp_all
  have at: "\<exists>t'. attach P ?b w led m t = Inr (True, t') \<and> bt_head t' = hash_of P ?b" for w led m
    using attach_returns [OF inv, of ?b cw ch] cw ch new(2) hv hb by auto
  have nk: "hash_of P b \<notin> set (map fst (bt_blocks t))" "hash_of P ?b \<notin> set (map fst (bt_blocks t))"
    using new by (simp_all add: dom_map_of_conv_image_fst)
  let ?pled = "if h_ledger_root (b_header b) \<noteq> [] then map_of (bt_ledger t) ?p else None"
  let ?J = "recent_proposers P t ?p"
  from add nk(1) pb obtain pw w lo m led where pw: "dict_at (bt_state t) ?p = Inr pw"
    and v: "validate_block P b pw (h_height (b_header pb)) ?pled (bt_data_contributor t) ?J
              (parent_model t ?p) (bt_params t) = Inr (w, lo, m)"
    and led: "(case lo of Some l \<Rightarrow> Inr l
        | None \<Rightarrow> bindE (dict_at (bt_ledger t) ?p) (\<lambda>pl. apply_ledger P pl b (bt_data_contributor t) ?J)) = Inr led"
    unfolding add_block_def Let_def by (auto simp: bindE_eq_Inr)
  have "add_block P ?b t = attach P ?b w led m t"
    unfolding add_block_def Let_def hb validate_with_work [OF gen] al using nk(2) by (simp add: pb pw v led)
  with at show ?thesis by metis
qed

end
