(* ===== verification/Commitments.thy ===== *)
theory Commitments
  imports Blockchain Token_Props
begin

section \<open>What the identifiers and roots commit to\<close>

text \<open>
  Transaction identifiers, the ledger root and the block hash are digests of framed fields or of
  canonical JSON. Each of them determines what it names, or two different inputs with the
  same digest are at hand.
\<close>

subsection \<open>Transactions\<close>

fun unsig_data :: "data_tx \<Rightarrow> data_tx" where
  "unsig_data (DataSubmit t) = DataSubmit (t\<lparr>ds_sig := []\<rparr>)"
| "unsig_data (DataChallenge t) = DataChallenge (t\<lparr>dc_sig := []\<rparr>)"
| "unsig_data (DataVote t) = DataVote (t\<lparr>dv_sig := []\<rparr>)"
| "unsig_data (InferenceReceipt t) = InferenceReceipt (t\<lparr>ir_sig := []\<rparr>)"

fun unsig :: "account_tx \<Rightarrow> account_tx" where
  "unsig (DataTx t) = DataTx (unsig_data t)"
| "unsig (Transfer t) = Transfer (t\<lparr>tr_sig := []\<rparr>)"

lemmas field_defs = tr_fields_def ds_fields_def dc_fields_def dv_fields_def ir_fields_def

lemma sketch_text_inject:
  "dumps_compact (JList (map JInt a)) = dumps_compact (JList (map JInt b)) \<Longrightarrow> a = b"
proof -
  assume "dumps_compact (JList (map JInt a)) = dumps_compact (JList (map JInt b))"
  then have "map JInt a = map JInt b" by (simp add: dumps_compact_inject comp_def)
  then show ?thesis by (simp add: inj_map_eq_map inj_def)
qed

lemma data_fields_inject: "data_fields t = data_fields u \<Longrightarrow> unsig_data t = unsig_data u"
  by (cases t; cases u)
     (auto simp: field_defs encode_inject dest!: sketch_text_inject split: if_splits intro!: inference_tx.equality)

lemma data_not_transfer: "data_fields t \<noteq> tr_fields u"
  by (cases t) (auto simp: field_defs encode_inject)

lemma tx_fields_inject: "tx_fields t = tx_fields u \<Longrightarrow> unsig t = unsig u"
  using data_not_transfer data_not_transfer [symmetric]
  by (cases t; cases u) (auto simp: tr_fields_def encode_inject dest: data_fields_inject)

text \<open>Fields of less than 4 GiB, the range of the length prefix.\<close>

definition small_fields :: "account_tx \<Rightarrow> bool" where
  "small_fields t \<longleftrightarrow> (\<forall>p\<in>set (tx_fields t). length p < 2 ^ 32)"

lemma txid_frame: "txid P t = sha_hex P (frame (tx_fields t))"
proof (cases t)
  case (DataTx d)
  then show ?thesis by (cases d) (simp_all add: ds_txid_def dc_txid_def dv_txid_def ir_txid_def
        ds_signing_bytes_def dc_signing_bytes_def dv_signing_bytes_def ir_signing_bytes_def)
qed (simp add: tr_txid_def tr_signing_bytes_def)

lemma txid_inject:
  assumes "txid P t = txid P u" "small_fields t" "small_fields u"
  shows "unsig t = unsig u \<or> collides_on P {frame (tx_fields t), frame (tx_fields u)}"
proof -
  from assms(1) have "frame (tx_fields t) = frame (tx_fields u) \<or> collides_on P {frame (tx_fields t), frame (tx_fields u)}"
    unfolding txid_frame by (rule sha_hex_collision)
  then show ?thesis
    using frame_inject [OF assms(2,3) [unfolded small_fields_def]] tx_fields_inject by blast
qed

subsection \<open>Canonical JSON objects as maps\<close>

lemma map_of_sort_key: "distinct (map fst xs) \<Longrightarrow> map_of (sort_key fst xs) = map_of xs"
  by (intro map_of_eqI) (auto simp: distinct_map inj_on_def map_of_eq_Some_iff intro!: map_of_is_SomeI)

lemma canon_obj_lookup:
  assumes "canon (JObj a) = canon (JObj b)" and "distinct (map fst a)" "distinct (map fst b)"
  shows "map_option canon (map_of a k) = map_option canon (map_of b k)"
proof -
  let ?c = "\<lambda>xs. map (\<lambda>(k, v). (k, canon v)) xs"
  have keys: "map fst (?c xs) = map fst xs" for xs :: "(string \<times> json) list" by (simp add: case_prod_beta comp_def)
  have "map_of (?c a) = map_of (?c b)"
    using assms(1) map_of_sort_key [of "?c a", unfolded keys, OF assms(2)]
      map_of_sort_key [of "?c b", unfolded keys, OF assms(3)] by simp
  moreover have "map_of (?c xs) k = map_option canon (map_of xs k)" for xs :: "(string \<times> json) list"
    by (induction xs) auto
  ultimately show ?thesis by metis
qed

lemma dict_json_inject:
  assumes "canon (dict_json f d) = canon (dict_json f e)" and "dict_wf d" "dict_wf e"
    and inj: "\<And>x y. canon (f x) = canon (f y) \<Longrightarrow> x = y"
  shows "map_of d = map_of e"
proof
  fix k
  have m: "map_of (map (\<lambda>(k, v). (k, f v)) xs) k = map_option f (map_of xs k)" for xs :: "(string, 'a) dict"
    by (induction xs) auto
  have "map_option canon (map_option f (map_of d k)) = map_option canon (map_option f (map_of e k))"
    using canon_obj_lookup [of "map (\<lambda>(k, v). (k, f v)) d" "map (\<lambda>(k, v). (k, f v)) e" k] assms(1-3)
    by (simp add: dict_json_def dict_wf_def m case_prod_beta comp_def)
  then show "map_of d k = map_of e k" using inj by (cases "map_of d k"; cases "map_of e k") auto
qed

subsection \<open>The ledger root\<close>

text \<open>A ledger as the maps it denotes: the order of insertion is not committed.\<close>

definition ledger_view :: "ledger \<Rightarrow> (string \<rightharpoonup> int) \<times> (string \<rightharpoonup> int) \<times> (string \<rightharpoonup> entry) \<times>
    (string \<rightharpoonup> challenge) \<times> (string \<rightharpoonup> bond) \<times> int \<times> int" where
  "ledger_view l = (map_of (balances l), map_of (nonces l), map_of (registry l), map_of (challenges l),
     map_of (bonds l), fee_data_pool l, fee_train_pool l)"

lemma JInt_list_canon: "map canon (map JInt xs) = map JInt xs" "map canon (map JStr ys) = map JStr ys"
  by simp_all

lemma entry_json_inject:
  assumes "canon (entry_json x) = canon (entry_json y)"
  shows "x = y"
proof -
  let ?kv = "\<lambda>e. [(''owner'', JStr (ent_owner e)), (''data_hash'', JStr (ent_data_hash e)),
      (''size'', JInt (ent_size e)), (''media_type'', JStr (ent_media_type e)),
      (''stake'', JInt (ent_stake e))] @
     (case ent_da_root e of None \<Rightarrow> [] | Some r \<Rightarrow> [(''da_root'', JStr r)]) @
     [(''weight'', JInt (ent_weight e)), (''status'', JStr (ent_status e))] @
     (case ent_sketch e of None \<Rightarrow> [] | Some sk \<Rightarrow> [(''sketch'', JList (map JInt sk))])"
  have d: "distinct (map fst (?kv e))" for e by (auto split: option.splits)
  have l: "map_option canon (map_of (?kv x) k) = map_option canon (map_of (?kv y) k)" for k
    by (rule canon_obj_lookup [OF _ d d]) (use assms in \<open>simp only: entry_json_def\<close>)
  have "ent_owner x = ent_owner y" "ent_data_hash x = ent_data_hash y" "ent_size x = ent_size y"
    "ent_media_type x = ent_media_type y" "ent_stake x = ent_stake y"
    using l [of "''owner''"] l [of "''data_hash''"] l [of "''size''"] l [of "''media_type''"] l [of "''stake''"]
    by simp_all
  moreover have "ent_weight x = ent_weight y" "ent_status x = ent_status y"
    using l [of "''weight''"] l [of "''status''"] by (auto split: option.splits)
  moreover have "ent_da_root x = ent_da_root y"
    using l [of "''da_root''"] by (cases "ent_da_root x"; cases "ent_da_root y"; cases "ent_sketch x"; cases "ent_sketch y") auto
  moreover have "ent_sketch x = ent_sketch y"
    using l [of "''sketch''"]
    by (cases "ent_da_root x"; cases "ent_da_root y"; cases "ent_sketch x"; cases "ent_sketch y")
       (auto simp: comp_def inj_map_eq_map inj_def)
  ultimately show ?thesis by simp
qed

lemma JStr_map_inject: "map (canon \<circ> JStr) xs = map (canon \<circ> JStr) ys \<Longrightarrow> xs = ys"
  by (simp add: comp_def inj_map_eq_map inj_def)

lemma challenge_json_inject:
  assumes "canon (challenge_json x) = canon (challenge_json y)"
  shows "x = y"
proof -
  let ?kv = "\<lambda>c. [(''data_id'', JStr (ch_data_id c)), (''challenger'', JStr (ch_challenger c)),
      (''stake'', JInt (ch_stake c)), (''reason'', JStr (ch_reason c)),
      (''expiry'', JInt (ch_expiry c)), (''votes_for'', JList (map JStr (ch_votes_for c))),
      (''votes_against'', JList (map JStr (ch_votes_against c)))]"
  have d: "distinct (map fst (?kv e))" for e by simp
  have l: "map_option canon (map_of (?kv x) k) = map_option canon (map_of (?kv y) k)" for k
    by (rule canon_obj_lookup [OF _ d d]) (use assms in \<open>simp only: challenge_json_def\<close>)
  show ?thesis
    using l [of "''data_id''"] l [of "''challenger''"] l [of "''stake''"] l [of "''reason''"] l [of "''expiry''"]
      l [of "''votes_for''"] l [of "''votes_against''"] by (auto dest!: JStr_map_inject intro!: challenge.equality)
qed

lemma bond_json_inject:
  assumes "canon (bond_json x) = canon (bond_json y)"
  shows "x = y"
proof -
  let ?kv = "\<lambda>b. [(''miner'', JStr (bd_miner b)), (''amount'', JInt (bd_amount b)), (''expiry'', JInt (bd_expiry b))]"
  have d: "distinct (map fst (?kv e))" for e by simp
  have l: "map_option canon (map_of (?kv x) k) = map_option canon (map_of (?kv y) k)" for k
    by (rule canon_obj_lookup [OF _ d d]) (use assms in \<open>simp only: bond_json_def\<close>)
  show ?thesis using l [of "''miner''"] l [of "''amount''"] l [of "''expiry''"] by simp
qed

lemma ledger_json_inject:
  assumes eq: "canon (ledger_json a) = canon (ledger_json b)" and wf: "ledger_wf a" "ledger_wf b"
  shows "ledger_view a = ledger_view b"
proof -
  let ?kv = "\<lambda>led. [(''balances'', dict_json JInt (balances led)), (''bonds'', dict_json bond_json (bonds led)),
      (''challenges'', dict_json challenge_json (challenges led)),
      (''fee_data_pool'', JInt (fee_data_pool led)), (''fee_train_pool'', JInt (fee_train_pool led)),
      (''nonces'', dict_json JInt (nonces led)), (''registry'', dict_json entry_json (registry led))]"
  have d: "distinct (map fst (?kv e))" for e by simp
  have l: "map_option canon (map_of (?kv a) k) = map_option canon (map_of (?kv b) k)" for k
    by (rule canon_obj_lookup [OF _ d d]) (use eq in \<open>simp only: ledger_json_def\<close>)
  have w: "dict_wf (balances x) \<and> dict_wf (nonces x) \<and> dict_wf (registry x) \<and> dict_wf (challenges x) \<and> dict_wf (bonds x)"
    if "ledger_wf x" for x
    using that by (simp add: ledger_wf_def nonneg_dict_def wf_market_def wf_bonds_def)
  note w = w [OF wf(1)] w [OF wf(2)]
  have "map_of (balances a) = map_of (balances b)" "map_of (nonces a) = map_of (nonces b)"
    by (rule dict_json_inject [where f = JInt]; use l [of "''balances''"] l [of "''nonces''"] w in simp)+
  moreover have "map_of (registry a) = map_of (registry b)"
    by (rule dict_json_inject [where f = entry_json]; use l [of "''registry''"] w entry_json_inject in simp)
  moreover have "map_of (challenges a) = map_of (challenges b)"
    by (rule dict_json_inject [where f = challenge_json]; use l [of "''challenges''"] w challenge_json_inject in simp)
  moreover have "map_of (bonds a) = map_of (bonds b)"
    by (rule dict_json_inject [where f = bond_json]; use l [of "''bonds''"] w bond_json_inject in simp)
  moreover have "fee_data_pool a = fee_data_pool b" "fee_train_pool a = fee_train_pool b"
    using l [of "''fee_data_pool''"] l [of "''fee_train_pool''"] by simp_all
  ultimately show ?thesis by (simp add: ledger_view_def)
qed

lemma ledger_root_inject:
  assumes "ledger_root P a = ledger_root P b" "ledger_wf a" "ledger_wf b"
  shows "ledger_view a = ledger_view b \<or>
    collides_on P {encode (dumps_compact (ledger_json a)), encode (dumps_compact (ledger_json b))}"
proof -
  from assms(1) have "encode (dumps_compact (ledger_json a)) = encode (dumps_compact (ledger_json b)) \<or>
      collides_on P {encode (dumps_compact (ledger_json a)), encode (dumps_compact (ledger_json b))}"
    unfolding ledger_root_def by (rule sha_hex_collision)
  then show ?thesis using ledger_json_inject [OF _ assms(2,3)] by (auto simp: encode_inject dumps_compact_inject)
qed

subsection \<open>The block hash\<close>

lemma header_json_inject:
  assumes "canon (header_json x) = canon (header_json y)"
  shows "x = y"
proof -
  let ?kv = "\<lambda>h. [(''height'', JInt (h_height h)), (''prev_hash'', JStr (h_prev_hash h)),
      (''state_root'', JStr (h_state_root h)), (''txset_root'', JStr (h_txset_root h)),
      (''n_txs'', JInt (h_n_txs h)), (''work'', JInt (h_work h)), (''proposer'', JStr (h_proposer h)),
      (''transfer_root'', JStr (h_transfer_root h)), (''ledger_root'', JStr (h_ledger_root h)),
      (''data_root'', JStr (h_data_root h)), (''vrf_proof'', JStr (h_vrf_proof h)),
      (''score_root'', JStr (h_score_root h)), (''sketch_root'', JStr (h_sketch_root h)),
      (''model_root'', JStr (h_model_root h)), (''vrf_attempt'', JInt (h_vrf_attempt h)),
      (''version'', JInt (h_version h))]"
  have d: "distinct (map fst (?kv e))" for e by simp
  have l: "map_option canon (map_of (?kv x) k) = map_option canon (map_of (?kv y) k)" for k
    by (rule canon_obj_lookup [OF _ d d]) (use assms in \<open>simp only: header_json_def\<close>)
  have "h_height x = h_height y" "h_prev_hash x = h_prev_hash y" "h_state_root x = h_state_root y"
    "h_txset_root x = h_txset_root y" "h_n_txs x = h_n_txs y" "h_work x = h_work y" "h_proposer x = h_proposer y"
    "h_transfer_root x = h_transfer_root y"
    using l [of "''height''"] l [of "''prev_hash''"] l [of "''state_root''"] l [of "''txset_root''"] l [of "''n_txs''"]
      l [of "''work''"] l [of "''proposer''"] l [of "''transfer_root''"] by simp_all
  moreover have "h_ledger_root x = h_ledger_root y" "h_data_root x = h_data_root y" "h_vrf_proof x = h_vrf_proof y"
    "h_score_root x = h_score_root y" "h_sketch_root x = h_sketch_root y" "h_model_root x = h_model_root y"
    "h_vrf_attempt x = h_vrf_attempt y" "h_version x = h_version y"
    using l [of "''ledger_root''"] l [of "''data_root''"] l [of "''vrf_proof''"] l [of "''score_root''"]
      l [of "''sketch_root''"] l [of "''model_root''"] l [of "''vrf_attempt''"] l [of "''version''"] by simp_all
  ultimately show ?thesis by simp
qed

lemma block_hash_inject:
  assumes "block_hash P x = block_hash P y"
  shows "x = y \<or> collides_on P {encode (dumps_default (header_json x)), encode (dumps_default (header_json y))}"
proof -
  from assms have "encode (dumps_default (header_json x)) = encode (dumps_default (header_json y)) \<or>
      collides_on P {encode (dumps_default (header_json x)), encode (dumps_default (header_json y))}"
    unfolding block_hash_def by (rule sha_hex_collision)
  then show ?thesis using header_json_inject by (auto simp: encode_inject dumps_default_inject)
qed

end
