(* ===== verification/Example.thy ===== *)
theory Example
  imports Tree_Replay Producer Commitments
begin

section \<open>A small chain\<close>

text \<open>
  One concrete node: a digest that keeps its input, signatures that always verify, a one-weight
  dense model, genesis and one block built by the node itself. The chain is used to
  exercise the theorems about trees on an input where all their hypotheses hold.
\<close>

definition toy_prims :: prims where
  "toy_prims = \<lparr>sha256 = (\<lambda>b. b), ed_pub = (\<lambda>s. s), ed_sign = (\<lambda>s m. []), ed_ok = (\<lambda>p m s. True)\<rparr>"

definition toy_tree0 :: tree where
  "toy_tree0 = tree_of toy_prims [5] None None None None (genesis_header toy_prims (state_root toy_prims [5]) [])"

definition toy_proposal :: proposal where
  "toy_proposal = \<lparr>pr_accepted = [], pr_bodies = [], pr_key = \<lparr>key_sk = [1], key_pk = [1]\<rparr>,
     pr_transfers = [], pr_data_txs = [], pr_scores = [], pr_sketches = [], pr_attempt = 0\<rparr>"

definition toy_block :: block where
  "toy_block = projr (build_block toy_prims toy_tree0 (bt_head toy_tree0) toy_proposal)"

definition toy_tree1 :: tree where
  "toy_tree1 = snd (projr (add_block toy_prims toy_block toy_tree0))"

lemma toy_no_collision: "\<not> collides_on toy_prims S"
  by (simp add: collides_on_def toy_prims_def)

lemma toy_sig: "sig_correct toy_prims"
  by (simp add: sig_correct_def toy_prims_def)

lemma toy_new: "new_tree toy_prims [5] None None None = Inr toy_tree0"
  by (simp add: new_tree_def toy_tree0_def)

lemmas toy_reach0 = reach_new [OF toy_new]

lemma toy_tree0_fields:
  "bt_head toy_tree0 = genesis_hash toy_prims toy_tree0"
  "bt_blocks toy_tree0 = [(genesis_hash toy_prims toy_tree0, bt_genesis toy_tree0)]"
  "bt_state toy_tree0 = [(genesis_hash toy_prims toy_tree0, [5])]"
  "bt_model toy_tree0 = [(genesis_hash toy_prims toy_tree0, None)]"
  "bt_ledger toy_tree0 = [(genesis_hash toy_prims toy_tree0, empty_ledger)]"
  "bt_cum_work toy_tree0 = [(genesis_hash toy_prims toy_tree0, 0)]"
  "bt_params toy_tree0 = None" "bt_data_contributor toy_tree0 = None" "bt_prune_depth toy_tree0 = None"
  "h_height (b_header (bt_genesis toy_tree0)) = 0"
  by (simp_all add: toy_tree0_def tree_of_def Let_def genesis_ledger_def truthy_def genesis_header_def)

lemma toy_ledger_step:
  assumes "h_height (b_header b) = 1" "h_proposer (b_header b) = pub (pr_key toy_proposal)"
    and "b_txs b = []" "b_transfers b = []" "b_data_txs b = []" "b_scores b = []" "b_sketches b = []"
  shows "apply_ledger toy_prims empty_ledger b None J =
    Inr (credit (take 40 (hex [1])) 5000000000 empty_ledger)"
proof -
  have e: "emission 1 = 50000000000"
    by (simp add: emission_def HALVING_BLOCKS_def BASE_REWARD_def GRAIN_def TAIL_REWARD_def TAIL_EPOCH_def)
  have g: "hex [1] \<noteq> ''genesis'' \<and> hex [1] \<noteq> []" by (simp add: hex_def hex_byte_def hex_digits_def)
  have a: "address toy_prims (hex [1]) = Inr (take 40 (hex [1]))"
    by (simp add: address_def fromhex_hex sha_hex_def toy_prims_def)
  show ?thesis
    using assms e g a
    by (simp add: apply_ledger_def resolve_expired_challenges_def resolve_expired_bonds_def accrue_def
        apply_reward_def empty_ledger_def reward_data_def paid_hashes_def truthy_def Let_def
        canonical_account_txs_def sorted_by_def credit_pub_def pub_def toy_proposal_def SHARE_PROPOSER_def)
qed

lemma toy_built: "\<exists>b. build_block toy_prims toy_tree0 (bt_head toy_tree0) toy_proposal = Inr b"
proof -
  have "\<exists>r. build_transition toy_prims toy_tree0 (bt_head toy_tree0) 1 [5] toy_proposal = Inr r"
    by (simp add: build_transition_def toy_tree0_fields parent_model_def dense_post_def toy_proposal_def Let_def)
  then obtain s m pf work where "build_transition toy_prims toy_tree0 (bt_head toy_tree0) 1 [5] toy_proposal = Inr (s, m, pf, work)"
    by (metis prod.exhaust)
  then show ?thesis
    unfolding build_block_def toy_tree0_fields
    by (simp add: dict_at_def toy_tree0_fields Let_def toy_ledger_step built_scores_def built_sketches_def dict_of_def
        toy_proposal_def)
qed

lemma toy_block_built: "build_block toy_prims toy_tree0 (bt_head toy_tree0) toy_proposal = Inr toy_block"
  using toy_built by (auto simp: toy_block_def)

lemma toy_block_fields:
  "h_height (b_header toy_block) = 1" "h_prev_hash (b_header toy_block) = bt_head toy_tree0"
  "b_txs toy_block = []" "b_transfers toy_block = []" "b_data_txs toy_block = []"
  "b_scores toy_block = []" "b_sketches toy_block = []" "h_proposer (b_header toy_block) = pub (pr_key toy_proposal)"
  using build_block_fields [OF toy_block_built]
  by (auto simp: toy_tree0_fields toy_proposal_def built_scores_def built_sketches_def dict_of_def)

lemma toy_proposal_ok: "proposal_ok toy_prims toy_tree0 (bt_head toy_tree0) toy_proposal b"
proof -
  have "ed_pub toy_prims s = s" for s by (simp add: toy_prims_def)
  then show ?thesis
    by (simp add: proposal_ok_def toy_sig toy_proposal_def scores_in_range_def sketches_in_range_def)
qed

lemma toy_eligible: "proposer_eligible toy_prims toy_tree0 (bt_head toy_tree0) toy_proposal b"
  by (simp add: proposer_eligible_def parent_model_def toy_tree0_fields)

lemma hash_new_height:
  "h_height (b_header b) \<noteq> h_height (b_header b') \<Longrightarrow> hash_of toy_prims b \<noteq> hash_of toy_prims b'"
  using block_hash_inject [of toy_prims "b_header b" "b_header b'"] toy_no_collision by (auto simp: hash_of_def)

lemma toy_block_new: "hash_of toy_prims toy_block \<notin> dom (map_of (bt_blocks toy_tree0))"
  using hash_new_height [of toy_block "bt_genesis toy_tree0"] by (simp add: toy_tree0_fields toy_block_fields)

lemma toy_inv0: "tree_inv toy_prims toy_tree0"
  using tree_reach_inv [OF toy_reach0] by simp

lemma toy_added: "add_block toy_prims toy_block toy_tree0 = Inr (True, toy_tree1)"
proof -
  let ?t = toy_tree0 and ?b = toy_block and ?h = "bt_head toy_tree0"
  obtain pw pb pl w led m where pw: "map_of (bt_state ?t) ?h = Some pw" and pb: "map_of (bt_blocks ?t) ?h = Some pb"
    and pl: "map_of (bt_ledger ?t) ?h = Some pl"
    and v: "validate_block toy_prims ?b pw (h_height (b_header pb)) (Some pl) (bt_data_contributor ?t)
        (recent_proposers toy_prims ?t ?h) (parent_model ?t ?h) (bt_params ?t) = Inr (w, Some led, m)"
    using build_block_valid [OF toy_block_built toy_proposal_ok toy_eligible] by blast
  have root: "h_ledger_root (b_header ?b) \<noteq> []"
  proof -
    obtain led where "h_ledger_root (b_header ?b) = ledger_root toy_prims led"
      using build_block_fields [OF toy_block_built] by blast
    then show ?thesis
      by (auto simp: ledger_root_def sha_hex_def toy_prims_def dumps_compact_def ledger_json_def hex_def encode_def
          utf8_char_def hex_byte_def split: if_splits)
  qed
  have cw: "map_of (bt_cum_work ?t) (h_prev_hash (b_header ?b)) = Some 0" "map_of (bt_cum_work ?t) ?h = Some 0"
    by (simp_all add: toy_tree0_fields toy_block_fields)
  have "heavier ?t (hash_of toy_prims ?b) (0 + max 1 (h_work (b_header ?b))) 0" by (auto simp: heavier_def max_def)
  then obtain t' where at: "attach toy_prims ?b w led m ?t = Inr (True, t')"
    using attach_returns [OF toy_inv0 cw toy_block_new, of w led m] by auto
  have "hash_of toy_prims ?b \<notin> set (map fst (bt_blocks ?t))" using toy_block_new by (simp add: dom_map_of_conv_image_fst)
  then have "add_block toy_prims ?b ?t = Inr (True, t')"
    unfolding add_block_def Let_def toy_block_fields(2) using root pw pb pl v at by (simp add: dict_at_def)
  then show ?thesis by (simp add: toy_tree1_def)
qed

lemma toy_reach1: "tree_reach toy_prims [5] None None None toy_tree1"
  by (rule reach_add [OF toy_reach0 toy_added])

lemma toy_core: "core_of toy_tree1 (hash_of toy_prims toy_block) = Some (core toy_block)"
proof -
  obtain w led m where at: "attach toy_prims toy_block w led m toy_tree0 = Inr (True, toy_tree1)"
    by (rule add_block_new [OF toy_added toy_block_new])
  show ?thesis by (rule attach_effect [OF at]) simp
qed

subsection \<open>A forged block\<close>

text \<open>An empty block on top of genesis whose header names the proposer ``genesis''; it carries no
  proof and an arbitrary work.\<close>

definition toy_forged :: block where
  "toy_forged = \<lparr>b_header = (genesis_header toy_prims (state_root toy_prims [5]) [])
       \<lparr>h_height := 1, h_prev_hash := bt_head toy_tree0, h_txset_root := txset_root toy_prims [],
        h_score_root := scores_root toy_prims [], h_sketch_root := sketch_root toy_prims []\<rparr>,
     b_txs = [], b_bodies = [], b_transfers = [], b_data_txs = [], b_scores = [], b_sketches = []\<rparr>"

lemma toy_forged_fields:
  "h_proposer (b_header toy_forged) = ''genesis''" "h_height (b_header toy_forged) = 1"
  "h_prev_hash (b_header toy_forged) = bt_head toy_tree0" "h_ledger_root (b_header toy_forged) = []"
  by (simp_all add: toy_forged_def genesis_header_def)

lemma toy_forged_new: "hash_of toy_prims toy_forged \<notin> dom (map_of (bt_blocks toy_tree0))"
  using hash_new_height [of toy_forged "bt_genesis toy_tree0"] by (simp add: toy_tree0_fields toy_forged_fields)

lemma toy_forged_new_work: "hash_of toy_prims (with_work x toy_forged) \<notin> dom (map_of (bt_blocks toy_tree0))"
  using hash_new_height [of "with_work x toy_forged" "bt_genesis toy_tree0"]
  by (simp add: toy_tree0_fields toy_forged_fields with_work_def)

lemma toy_forged_valid:
  "validate_block toy_prims toy_forged [5] 0 None None J None None = Inr ([5], None, None)"
proof -
  have "check_structure toy_forged 0 False None = Inr ()"
    by (simp add: check_structure_def toy_forged_def genesis_header_def)
  moreover have "check_lottery toy_prims (b_header toy_forged) False None = Inr ()"
    by (simp add: check_lottery_def toy_forged_fields)
  moreover have "check_scores toy_prims toy_forged = Inr ()" "check_sketches toy_prims toy_forged = Inr ()"
    by (simp_all add: check_scores_def check_sketches_def toy_forged_def txids_def)
  moreover have "check_transition toy_prims toy_forged [5] None None = Inr ([5], None)"
    by (simp add: check_transition_def dense_post_def toy_forged_def genesis_header_def)
  moreover have "h_txset_root (b_header toy_forged) = txset_root toy_prims (b_txs toy_forged)" "b_txs toy_forged = []"
    by (simp_all add: toy_forged_def)
  ultimately show ?thesis unfolding validate_block_def check_ledger_def by simp
qed

lemma toy_forged_ledger: "apply_ledger toy_prims empty_ledger toy_forged None J = Inr empty_ledger"
  by (simp add: apply_ledger_def resolve_expired_challenges_def resolve_expired_bonds_def accrue_def
      apply_reward_def empty_ledger_def reward_data_def paid_hashes_def truthy_def Let_def
      canonical_account_txs_def sorted_by_def toy_forged_def genesis_header_def)

lemma toy_forged_added:
  "\<exists>r t1. add_block toy_prims toy_forged toy_tree0 = Inr (r, t1)"
proof -
  let ?h = "bt_head toy_tree0"
  have cw: "map_of (bt_cum_work toy_tree0) (h_prev_hash (b_header toy_forged)) = Some 0"
    "map_of (bt_cum_work toy_tree0) ?h = Some 0"
    by (simp_all add: toy_tree0_fields toy_forged_fields)
  obtain r t1 where at: "attach toy_prims toy_forged [5] empty_ledger None toy_tree0 = Inr (r, t1)"
    using attach_returns [OF toy_inv0 cw toy_forged_new] by blast
  have "hash_of toy_prims toy_forged \<notin> set (map fst (bt_blocks toy_tree0))"
    using toy_forged_new by (simp add: dom_map_of_conv_image_fst)
  moreover have "map_of (bt_state toy_tree0) ?h = Some [5]" "map_of (bt_ledger toy_tree0) ?h = Some empty_ledger"
    "map_of (bt_blocks toy_tree0) ?h = Some (bt_genesis toy_tree0)" "parent_model toy_tree0 ?h = None"
    by (simp_all add: toy_tree0_fields parent_model_def)
  ultimately have "add_block toy_prims toy_forged toy_tree0 = Inr (r, t1)"
    unfolding add_block_def Let_def toy_forged_fields using at
    by (simp add: dict_at_def toy_forged_valid toy_forged_ledger toy_tree0_fields(7,8,10))
  then show ?thesis by blast
qed

end
