(* ===== verification/Field256.thy ===== *)
theory Field256
  imports Prelude
begin

section \<open>The field GF(256) (rig/da.py)\<close>

text \<open>
  The exponential and logarithm tables as the module builds them at import time, the table
  lookups \<^verbatim>\<open>_mul\<close> and \<^verbatim>\<open>_inv\<close>, and the proof that on the numbers below 256 they are
  the multiplication and inverse of a field whose addition is exclusive or. The proof rests on one
  evaluation (the 255 powers of the generator are distinct and the next one is 1) and on the
  linearity of one table step.
\<close>

unbundle bit_operations_syntax

subsection \<open>The tables\<close>

definition gf_step :: "nat \<Rightarrow> nat" where
  "gf_step x = (let y = x XOR push_bit 1 x in if y AND 0x100 \<noteq> 0 then y XOR 0x11b else y)"

definition table_step :: "nat \<Rightarrow> nat list \<times> nat list \<times> nat \<Rightarrow> nat list \<times> nat list \<times> nat" where
  "table_step i st = (let (e, l, x) = st in (e[i := x], l[x := i], gf_step x))"

definition tables :: "nat list \<times> nat list \<times> nat" where
  "tables = fold table_step [0..<255] (replicate 512 0, replicate 256 0, 1)"

definition exp_copy :: "nat \<Rightarrow> nat list \<Rightarrow> nat list" where
  "exp_copy i e = e[i := e ! (i - 255)]"

definition EXP :: "nat list" where
  "EXP = fold exp_copy [255..<512] (fst tables)"

definition LOG :: "nat list" where
  "LOG = fst (snd tables)"

definition gf_mul :: "nat \<Rightarrow> nat \<Rightarrow> nat" where
  "gf_mul a b = (if a = 0 \<or> b = 0 then 0 else EXP ! (LOG ! a + LOG ! b))"

definition gf_inv :: "nat \<Rightarrow> nat" where
  "gf_inv a = EXP ! (255 - LOG ! a)"

text \<open>An entry of the multiplication table \<^verbatim>\<open>MUL\<close>, which reduces the exponent first.\<close>

definition MUL :: "nat \<Rightarrow> nat \<Rightarrow> nat" where
  "MUL a b = (if a = 0 \<or> b = 0 then 0 else EXP ! ((LOG ! a + LOG ! b) mod 255))"

subsection \<open>The powers of the generator\<close>

definition gen :: "nat \<Rightarrow> nat" where
  "gen i = (gf_step ^^ i) 1"

lemma gen_0 [simp]: "gen 0 = 1"
  by (simp add: gen_def)

lemma gen_Suc: "gen (Suc i) = gf_step (gen i)"
  by (simp add: gen_def)

lemma gen_add: "gen (i + j) = (gf_step ^^ i) (gen j)"
  by (simp add: gen_def funpow_add)

primrec powers :: "nat \<Rightarrow> nat \<Rightarrow> nat list" where
  "powers 0 x = []"
| "powers (Suc n) x = x # powers n (gf_step x)"

lemma powers_numeral: "powers (numeral k) x = x # powers (pred_numeral k) (gf_step x)"
  by (simp add: numeral_eq_Suc)

lemma powers_eq: "powers n x = map (\<lambda>i. (gf_step ^^ i) x) [0..<n]"
  by (induction n arbitrary: x) (simp_all add: map_upt_Suc funpow_Suc_right del: funpow.simps(2) upt.simps(2))

lemma powers_facts: "distinct (powers 255 1) \<and> last (powers 256 1) = 1 \<and> (\<forall>x\<in>set (powers 255 1). 0 < x \<and> x < 256)"
proof -
  obtain xs where xs: "powers 255 1 = xs" by simp
  obtain ys where ys: "last (powers 256 1) = ys" by simp
  have "distinct xs \<and> (\<forall>x\<in>set xs. 0 < x \<and> x < 256)"
    using xs by (simp add: powers_numeral gf_step_def push_bit_eq_mult Let_def) (hypsubst, simp)
  moreover have "ys = 1" using ys by (simp add: powers_numeral gf_step_def push_bit_eq_mult Let_def)
  ultimately show ?thesis using xs ys by simp
qed

lemma gen_inj: "i < 255 \<Longrightarrow> j < 255 \<Longrightarrow> gen i = gen j \<Longrightarrow> i = j"
  using powers_facts by (simp add: powers_eq distinct_map inj_on_def gen_def)

lemma gen_range: "i < 255 \<Longrightarrow> 0 < gen i \<and> gen i < 256"
  using powers_facts by (simp add: powers_eq gen_def)

lemma gen_255: "gen 255 = 1"
  using powers_facts unfolding powers_eq by (simp add: last_map gen_def)

lemma gen_add_255: "gen (i + 255) = gen i"
  using gen_add [of i 0] by (simp add: gen_add gen_255)

lemma gen_mod: "gen (i mod 255) = gen i"
proof (induction i rule: less_induct)
  case (less i)
  show ?case
  proof (cases "i < 255")
    case False
    then obtain j where j: "i = j + 255" by (metis add.commute le_Suc_ex not_le)
    then have "gen (j mod 255) = gen j" using less by simp
    then show ?thesis using j gen_add_255 [of j] by simp
  qed simp
qed

lemma gen_surj: "0 < x \<Longrightarrow> x < 256 \<Longrightarrow> \<exists>i<255. x = gen i"
proof -
  assume x: "0 < x" "x < 256"
  have "gen ` {..<255} \<subseteq> {1..<256}" using gen_range by force
  moreover have "card (gen ` {..<255}) = 255" by (subst card_image) (auto simp: inj_on_def dest: gen_inj)
  ultimately have "gen ` {..<255} = {1..<256}" by (intro card_subset_eq) auto
  then have "x \<in> gen ` {..<255}" using x by auto
  then show ?thesis by auto
qed

subsection \<open>What the tables hold\<close>

definition table_inv :: "nat \<Rightarrow> nat list \<times> nat list \<times> nat \<Rightarrow> bool" where
  "table_inv n st \<longleftrightarrow> (let (e, l, x) = st in
     length e = 512 \<and> length l = 256 \<and> x = gen n \<and> (\<forall>i<n. e ! i = gen i \<and> l ! gen i = i))"

lemma table_step_inv:
  assumes "table_inv n st" and "n < 255"
  shows "table_inv (Suc n) (table_step n st)"
proof -
  obtain e l where st: "st = (e, l, gen n)" and len: "length e = 512" "length l = 256"
    and old: "i < n \<Longrightarrow> e ! i = gen i \<and> l ! gen i = i" for i
    using assms(1) by (cases st) (auto simp: table_inv_def)
  have "l[gen n := n] ! gen i = i" if "i < Suc n" for i
  proof (cases "i = n")
    case False
    then have "gen n \<noteq> gen i" using that gen_inj [of n i] assms(2) by auto
    then show ?thesis using that False old [of i] by simp
  qed (use len gen_range [OF assms(2)] in simp)
  then show ?thesis
    using len old assms(2) by (auto simp: table_inv_def table_step_def st gen_Suc nth_list_update)
qed

lemma tables_inv: "table_inv 255 tables"
proof -
  have "n \<le> 255 \<Longrightarrow> table_inv n (fold table_step [0..<n] (replicate 512 0, replicate 256 0, 1))" for n
    by (induction n) (simp_all add: table_step_inv, simp add: table_inv_def)
  then show ?thesis by (simp add: tables_def)
qed

lemma tables_facts:
  "length (fst tables) = 512" "i < 255 \<Longrightarrow> fst tables ! i = gen i" "i < 255 \<Longrightarrow> LOG ! gen i = i"
proof -
  obtain e l x where t: "tables = (e, l, x)" by (cases tables)
  show "length (fst tables) = 512" "i < 255 \<Longrightarrow> fst tables ! i = gen i" "i < 255 \<Longrightarrow> LOG ! gen i = i"
    using tables_inv unfolding table_inv_def LOG_def t by auto
qed

lemma exp_copy_fold:
  "m \<le> 257 \<Longrightarrow> length (fold exp_copy [255..<255 + m] (fst tables)) = 512 \<and>
     (\<forall>i<255 + m. fold exp_copy [255..<255 + m] (fst tables) ! i = gen i)"
proof (induction m)
  case 0
  then show ?case by (simp add: tables_facts)
next
  case (Suc m)
  let ?e = "fold exp_copy [255..<255 + m] (fst tables)"
  have IH: "length ?e = 512" "i < 255 + m \<Longrightarrow> ?e ! i = gen i" for i using Suc by auto
  have step: "fold exp_copy [255..<255 + Suc m] (fst tables) = exp_copy (255 + m) ?e"
    using upt_Suc_append [of 255 "255 + m"] by (simp del: upt_Suc)
  have "exp_copy (255 + m) ?e ! i = gen i" if "i < 255 + Suc m" for i
  proof (cases "i = 255 + m")
    case True
    then show ?thesis using IH Suc.prems gen_add_255 [of m] by (simp add: exp_copy_def add.commute)
  next
    case False
    then show ?thesis using that IH(2) [of i] by (simp add: exp_copy_def)
  qed
  moreover have "length (exp_copy (255 + m) ?e) = 512" using IH(1) by (simp add: exp_copy_def)
  ultimately show ?case unfolding step by blast
qed

lemma EXP_gen: "i < 512 \<Longrightarrow> EXP ! i = gen i"
  using exp_copy_fold [of 257] by (simp add: EXP_def)

subsection \<open>Multiplication is iteration of a linear step\<close>

lemma gf_step_bit: "gf_step x = (x XOR push_bit 1 x) XOR (if bit (x XOR push_bit 1 x) 8 then 0x11b else 0)"
proof -
  have b: "(z AND 0x100 \<noteq> 0) = bit z 8" for z :: nat using and_exp_eq_0_iff_not_bit [of z 8] by simp
  show ?thesis unfolding gf_step_def Let_def b by simp
qed

lemma gf_step_linear: "gf_step (x XOR y) = gf_step x XOR gf_step y"
proof -
  have "(x XOR y) XOR push_bit 1 (x XOR y) = (x XOR push_bit 1 x) XOR (y XOR push_bit 1 y)"
    by (simp add: push_bit_xor ac_simps)
  moreover have "(if bit (a XOR b) 8 then c else 0) = (if bit a 8 then c else 0) XOR (if bit b 8 then c else 0)"
    for a b c :: nat by (auto simp: bit_xor_iff)
  ultimately show ?thesis unfolding gf_step_bit by (simp add: ac_simps)
qed

lemma gf_step_0 [simp]: "gf_step 0 = 0"
  by (simp add: gf_step_def)

lemma iter_linear: "(gf_step ^^ i) (x XOR y) = (gf_step ^^ i) x XOR (gf_step ^^ i) y"
  by (induction i) (simp_all add: gf_step_linear)

lemma iter_0 [simp]: "(gf_step ^^ i) 0 = 0"
  by (induction i) simp_all

lemma gf_mul_gen: "i < 255 \<Longrightarrow> j < 255 \<Longrightarrow> gf_mul (gen i) (gen j) = gen (i + j)"
  using gen_range [of i] gen_range [of j] by (simp add: gf_mul_def tables_facts(3) EXP_gen)

lemma gf_mul_iter: "i < 255 \<Longrightarrow> y < 256 \<Longrightarrow> gf_mul (gen i) y = (gf_step ^^ i) y"
proof (cases "y = 0")
  case False
  assume "i < 255" "y < 256"
  with False obtain j where "j < 255" "y = gen j" using gen_surj [of y] by auto
  then show ?thesis using gf_mul_gen [OF \<open>i < 255\<close>] by (simp add: gen_add)
qed (simp add: gf_mul_def)

lemma gen_lt: "gen i < 256"
  using gen_range [of "i mod 255"] gen_mod [of i] by simp

lemma gf_mul_lt:
  assumes "a < 256" "b < 256"
  shows "gf_mul a b < 256"
proof (cases "a = 0 \<or> b = 0")
  case False
  with assms obtain i j where "i < 255" "a = gen i" "j < 255" "b = gen j"
    using gen_surj [of a] gen_surj [of b] by auto
  then show ?thesis using gf_mul_gen [of i j] gen_lt by simp
qed (auto simp: gf_mul_def)

lemma MUL_gf_mul: "a < 256 \<Longrightarrow> b < 256 \<Longrightarrow> MUL a b = gf_mul a b"
proof (cases "a = 0 \<or> b = 0")
  case False
  assume "a < 256" "b < 256"
  with False obtain i j where "i < 255" "a = gen i" "j < 255" "b = gen j"
    using gen_surj [of a] gen_surj [of b] by auto
  then show ?thesis using False gf_mul_gen [of i j] gen_mod [of "i + j"] by (simp add: MUL_def tables_facts(3) EXP_gen)
qed (auto simp: MUL_def gf_mul_def)

lemma gf_inv_gen: "i < 255 \<Longrightarrow> gf_inv (gen i) = gen (255 - i)"
  by (simp add: gf_inv_def tables_facts(3) EXP_gen)

lemma xor_lt: "a < 256 \<Longrightarrow> b < 256 \<Longrightarrow> a XOR b < (256 :: nat)"
proof -
  assume "a < 256" "b < 256"
  then have "take_bit 8 a = a" "take_bit 8 b = b" by (simp_all add: take_bit_nat_eq_self)
  then have "take_bit 8 (a XOR b) = a XOR b" by simp
  then show ?thesis using take_bit_nat_less_exp [of 8 "a XOR b"] by simp
qed

subsection \<open>The field\<close>

typedef gf = "{x :: nat. x < 256}"
  morphisms gf_nat Gf
  by (rule exI [of _ 0]) simp

setup_lifting type_definition_gf

lemma gf_cases: "a = 0 \<or> (\<exists>i<255. a = gen i)" if "a < 256"
  using gen_surj that by blast

instantiation gf :: field
begin

lift_definition zero_gf :: gf is 0 by simp
lift_definition one_gf :: gf is 1 by simp
lift_definition plus_gf :: "gf \<Rightarrow> gf \<Rightarrow> gf" is "\<lambda>a b. a XOR b" by (rule xor_lt)
lift_definition minus_gf :: "gf \<Rightarrow> gf \<Rightarrow> gf" is "\<lambda>a b. a XOR b" by (rule xor_lt)
lift_definition uminus_gf :: "gf \<Rightarrow> gf" is "\<lambda>a. a" .
lift_definition times_gf :: "gf \<Rightarrow> gf \<Rightarrow> gf" is gf_mul by (rule gf_mul_lt)
lift_definition inverse_gf :: "gf \<Rightarrow> gf" is "\<lambda>a. if a = 0 then 0 else gf_inv a"
proof -
  fix a :: nat assume a: "a < 256"
  show "(if a = 0 then 0 else gf_inv a) < 256"
  proof (cases "a = 0")
    case False
    then obtain i where "i < 255" "a = gen i" using gf_cases [OF a] by auto
    then show ?thesis using gen_lt by (simp add: gf_inv_gen)
  qed simp
qed
definition divide_gf :: "gf \<Rightarrow> gf \<Rightarrow> gf" where "divide_gf a b = a * inverse b"

instance
proof
  fix a b c :: gf
  have mul_comm: "gf_mul x y = gf_mul y x" for x y by (auto simp: gf_mul_def add.commute)
  have distrib: "gf_mul x (y XOR z) = gf_mul x y XOR gf_mul x z" if "x < 256" "y < 256" "z < 256" for x y z
    using gf_cases [OF that(1)] that xor_lt [of y z]
    by (auto simp: gf_mul_iter iter_linear gf_mul_def [of 0])
  show "a + b + c = a + (b + c)" "a + b = b + a" "0 + a = a" "- a + a = 0" "a - b = a + - b"
    by (transfer, simp add: ac_simps)+
  show "a * b = b * a" by transfer (rule mul_comm)
  show "a * b * c = a * (b * c)"
  proof transfer
    fix x y z :: nat assume lt: "x < 256" "y < 256" "z < 256"
    show "gf_mul (gf_mul x y) z = gf_mul x (gf_mul y z)"
    proof (cases "x = 0 \<or> y = 0 \<or> z = 0")
      case False
      with lt obtain i j k where i: "i < 255" "x = gen i" "j < 255" "y = gen j" "k < 255" "z = gen k"
        using gf_cases [of x] gf_cases [of y] gf_cases [of z] by auto
      have "gf_mul (gen ((i + j) mod 255)) z = gf_mul x (gen ((j + k) mod 255))"
        using i gf_mul_gen [of "(i + j) mod 255" k] gf_mul_gen [of i "(j + k) mod 255"]
          gen_mod [of "(i + j) mod 255 + k"] gen_mod [of "i + (j + k) mod 255"]
        by (simp add: mod_simps add.assoc)
      then show ?thesis using i gf_mul_gen [of i j] gf_mul_gen [of j k] by (simp add: gen_mod)
    qed (auto simp: gf_mul_def)
  qed
  show "(a + b) * c = a * c + b * c"
    by transfer (use distrib mul_comm in metis)
  show "1 * a = a"
    by transfer (use gf_mul_iter [of 0] in simp)
  show "(0 :: gf) \<noteq> 1" by transfer simp
  show "inverse a * a = 1" if "a \<noteq> 0" using that
  proof transfer
    fix x :: nat assume x: "x < 256" "x \<noteq> 0"
    then obtain i where i: "i < 255" "x = gen i" using gf_cases [OF x(1)] by auto
    have "gf_mul (gen ((255 - i) mod 255)) x = 1"
      using i gf_mul_gen [of "(255 - i) mod 255" i] gen_mod [of "(255 - i) mod 255 + i"]
      by (simp add: mod_simps gen_255)
    then show "gf_mul (if x = 0 then 0 else gf_inv x) x = 1"
      using x i by (simp add: gf_inv_gen gen_mod)
  qed
  show "a div b = a * inverse b" by (rule divide_gf_def)
  show "inverse (0 :: gf) = 0" by transfer simp
qed

end

lemma gf_double [simp]: "(a :: gf) + a = 0"
  by transfer simp

end
