(* ===== verification/Poly_Roots.thy ===== *)
theory Poly_Roots
  imports Prelude
begin

section \<open>Polynomials determined by their values\<close>

text \<open>
  The algebra behind the erasure code (\<^verbatim>\<open>rig/da.py\<close>) and the threshold beacon
  (\<^verbatim>\<open>rig/beacon.py\<close>): a polynomial with \<open>n\<close> coefficients that vanishes at
  \<open>n\<close> different points of a field is zero, and a function that is such a polynomial is
  recovered at 0 from \<open>n\<close> values by Lagrange's formula. Polynomials are coefficient functions
  with a bound. Over the integers the same holds modulo a prime, which is how the beacon shares its key.
\<close>

definition peval :: "nat \<Rightarrow> (nat \<Rightarrow> 'a::comm_ring_1) \<Rightarrow> 'a \<Rightarrow> 'a" where
  "peval n c x = (\<Sum>j<n. c j * x ^ j)"

lemma peval_Suc: "peval (Suc n) c x = peval n c x + c n * x ^ n"
  by (simp add: peval_def)

lemma peval_factor:
  "\<exists>d. (\<forall>x. peval (Suc n) c x - peval (Suc n) c a = (x - a) * peval n d x) \<and> (\<forall>m. n = Suc m \<longrightarrow> d m = c n)"
proof (induction n)
  case 0
  then show ?case by (simp add: peval_def)
next
  case (Suc n)
  then obtain d where d: "peval (Suc n) c x - peval (Suc n) c a = (x - a) * peval n d x" for x by blast
  let ?e = "\<lambda>j. (if j < n then d j else 0) + c (Suc n) * a ^ (n - j)"
  have "(\<Sum>j<Suc n. (if j < n then d j else 0) * x ^ j) = peval n d x" for x by (simp add: peval_def)
  then have e: "peval (Suc n) ?e x = peval n d x + c (Suc n) * (\<Sum>j<Suc n. a ^ (n - j) * x ^ j)" for x
    unfolding peval_def sum_distrib_left distrib_right sum.distrib by (simp add: mult.assoc)
  have pow: "x ^ Suc n - a ^ Suc n = (x - a) * (\<Sum>j<Suc n. a ^ (n - j) * x ^ j)" for x
    using diff_power_eq_sum [of x n a] by (simp add: mult.commute)
  have "peval (Suc (Suc n)) c x - peval (Suc (Suc n)) c a = (x - a) * peval (Suc n) ?e x" for x
  proof -
    have "peval (Suc (Suc n)) c x - peval (Suc (Suc n)) c a =
        (peval (Suc n) c x - peval (Suc n) c a) + c (Suc n) * (x ^ Suc n - a ^ Suc n)"
      unfolding peval_Suc [of "Suc n"] by (simp only: right_diff_distrib) (simp add: algebra_simps)
    then show ?thesis unfolding d pow e by (simp add: algebra_simps)
  qed
  moreover have "?e n = c (Suc n)" by simp
  ultimately show ?case by blast
qed

lemma peval_roots:
  fixes c :: "nat \<Rightarrow> 'a::field"
  shows "distinct xs \<Longrightarrow> length xs = n \<Longrightarrow> \<forall>x\<in>set xs. peval n c x = 0 \<Longrightarrow> j < n \<Longrightarrow> c j = 0"
proof (induction n arbitrary: xs c j)
  case (Suc n)
  then obtain a ys where xs: "xs = a # ys" by (cases xs) auto
  from peval_factor [of n c a] obtain d where
    d: "peval (Suc n) c x - peval (Suc n) c a = (x - a) * peval n d x" and top: "\<And>m. n = Suc m \<Longrightarrow> d m = c n" for x
    by blast
  have "peval n d y = 0" if "y \<in> set ys" for y
    using d [of y] that Suc.prems(1,3) by (auto simp: xs)
  then have zero: "d j = 0" if "j < n" for j using Suc.IH [of ys d j] Suc.prems(1,2) that by (auto simp: xs)
  have "c n = 0"
  proof (cases n)
    case 0
    then show ?thesis using Suc.prems(3) by (auto simp: xs peval_def)
  next
    case (Suc m)
    then show ?thesis using top [of m] zero [of m] by simp
  qed
  then have "\<forall>y\<in>set ys. peval n c y = 0" using Suc.prems(3) by (simp add: xs peval_Suc)
  then show ?case using Suc.IH [of ys c j] Suc.prems \<open>c n = 0\<close> by (cases "j = n") (auto simp: xs)
qed simp

subsection \<open>Functions that are polynomials\<close>

definition polyfun :: "nat \<Rightarrow> ('a::comm_ring_1 \<Rightarrow> 'a) \<Rightarrow> bool" where
  "polyfun n f \<longleftrightarrow> (\<exists>c. \<forall>x. f x = peval n c x)"

lemma polyfun_zero: "polyfun n (\<lambda>_. 0)"
  unfolding polyfun_def peval_def by (rule exI [of _ "\<lambda>_. 0"]) simp

lemma polyfun_add: "polyfun n f \<Longrightarrow> polyfun n g \<Longrightarrow> polyfun n (\<lambda>x. f x + g x)"
proof -
  assume "polyfun n f" "polyfun n g"
  then obtain c d where "\<forall>x. f x = peval n c x" "\<forall>x. g x = peval n d x" by (auto simp: polyfun_def)
  then have "\<forall>x. f x + g x = peval n (\<lambda>j. c j + d j) x" by (simp add: peval_def distrib_right sum.distrib)
  then show ?thesis unfolding polyfun_def by blast
qed

lemma polyfun_scale: "polyfun n f \<Longrightarrow> polyfun n (\<lambda>x. a * f x)"
proof -
  assume "polyfun n f"
  then obtain c where "\<forall>x. f x = peval n c x" by (auto simp: polyfun_def)
  then have "\<forall>x. a * f x = peval n (\<lambda>j. a * c j) x" by (simp add: peval_def sum_distrib_left mult.assoc)
  then show ?thesis unfolding polyfun_def by blast
qed

lemma polyfun_mono: "polyfun n f \<Longrightarrow> n \<le> m \<Longrightarrow> polyfun m f"
proof -
  assume "polyfun n f" "n \<le> m"
  then obtain c where c: "\<forall>x. f x = peval n c x" by (auto simp: polyfun_def)
  have "peval m (\<lambda>j. if j < n then c j else 0) x = peval n c x" for x
    using \<open>n \<le> m\<close> unfolding peval_def by (intro sum.mono_neutral_cong_right) auto
  then show ?thesis unfolding polyfun_def using c by (intro exI [of _ "\<lambda>j. if j < n then c j else 0"]) simp
qed

lemma polyfun_linear: "polyfun n f \<Longrightarrow> polyfun (Suc n) (\<lambda>x. (b - x) * f x)"
proof -
  assume "polyfun n f"
  then obtain c where c: "\<forall>x. f x = peval n c x" by (auto simp: polyfun_def)
  have "x * peval n c x = peval (Suc n) (\<lambda>j. case j of 0 \<Rightarrow> 0 | Suc i \<Rightarrow> c i) x" for x
    unfolding peval_def sum.lessThan_Suc_shift by (simp add: sum_distrib_left mult.assoc mult.left_commute)
  then have "polyfun (Suc n) (\<lambda>x. x * f x)" unfolding polyfun_def using c by metis
  moreover have "polyfun (Suc n) (\<lambda>x. b * f x)"
    using \<open>polyfun n f\<close> by (intro polyfun_mono [OF polyfun_scale]) auto
  ultimately have "polyfun (Suc n) (\<lambda>x. b * f x + (-1) * (x * f x))"
    using polyfun_add [OF _ polyfun_scale] by blast
  then show ?thesis by (simp add: algebra_simps)
qed

lemma polyfun_one: "polyfun (Suc n) (\<lambda>_. 1)"
proof -
  have "peval (Suc n) (\<lambda>j. if j = 0 then 1 else 0) x = 1" for x :: 'a
    unfolding peval_def sum.lessThan_Suc_shift by simp
  then show ?thesis unfolding polyfun_def by (intro exI [of _ "\<lambda>j. if j = 0 then 1 else 0"]) simp
qed

lemma polyfun_prod: "polyfun (Suc (length bs)) (\<lambda>x. \<Prod>b\<leftarrow>bs. b - x)"
  by (induction bs) (auto intro: polyfun_one polyfun_linear)

lemma polyfun_sum: "(\<And>i. i \<in> set is \<Longrightarrow> polyfun n (F i)) \<Longrightarrow> polyfun n (\<lambda>x. \<Sum>i\<leftarrow>is. F i x)"
  by (induction "is") (auto intro: polyfun_zero polyfun_add)

lemma polyfun_ext:
  fixes f :: "'a::field \<Rightarrow> 'a"
  assumes "polyfun n f" "polyfun n g" "distinct xs" "length xs = n" "\<forall>x\<in>set xs. f x = g x"
  shows "f y = g y"
proof -
  have "polyfun n (\<lambda>x. f x + (-1) * g x)" using assms by (intro polyfun_add polyfun_scale)
  then obtain c where c: "\<forall>x. f x - g x = peval n c x" by (auto simp: polyfun_def)
  have "c j = 0" if "j < n" for j using peval_roots [OF assms(3,4) _ that, of c] c assms(5) by (metis diff_self)
  then have "peval n c y = 0" by (simp add: peval_def)
  then show ?thesis using c by (metis eq_iff_diff_eq_0)
qed

subsection \<open>Lagrange's formula at zero\<close>

definition lagrange :: "'a::field list \<Rightarrow> 'a \<Rightarrow> 'a" where
  "lagrange xs i = (\<Prod>j\<leftarrow>filter (\<lambda>j. j \<noteq> i) xs. j) / (\<Prod>j\<leftarrow>filter (\<lambda>j. j \<noteq> i) xs. j - i)"

lemma lagrange_at_zero:
  fixes f :: "'a::field \<Rightarrow> 'a"
  assumes "distinct xs" "polyfun (length xs) f"
  shows "(\<Sum>i\<leftarrow>xs. lagrange xs i * f i) = f 0"
proof -
  let ?others = "\<lambda>i. filter (\<lambda>j. j \<noteq> i) xs"
  let ?L = "\<lambda>i x. (\<Prod>j\<leftarrow>?others i. j - x) / (\<Prod>j\<leftarrow>?others i. j - i)"
  let ?g = "\<lambda>x. \<Sum>i\<leftarrow>xs. f i * ?L i x"
  have nz: "(\<Prod>j\<leftarrow>?others i. j - i) \<noteq> 0" for i by (auto simp: prod_list_zero_iff)
  have pL: "polyfun (length xs) (?L i)" if "i \<in> set xs" for i
  proof -
    have "Suc (length (?others i)) = length xs"
      using distinct_card [of "?others i"] distinct_card [of xs] assms(1) that
        card_Suc_Diff1 [of "set xs" i] by (simp add: set_diff_eq)
    then have "polyfun (length xs) (\<lambda>x. \<Prod>j\<leftarrow>?others i. j - x)" using polyfun_prod [of "?others i"] by simp
    from polyfun_scale [OF this, of "inverse (\<Prod>j\<leftarrow>?others i. j - i)"] show ?thesis
      by (simp add: field_simps)
  qed
  have "polyfun (length xs) ?g" by (intro polyfun_sum polyfun_scale pL)
  moreover have "?g k = f k" if k: "k \<in> set xs" for k
  proof -
    have L: "?L i k = (if i = k then 1 else 0)" if "i \<in> set xs" for i
      using nz [of i] k that by (auto simp: prod_list_zero_iff)
    have "?g k = (\<Sum>i\<leftarrow>xs. if i = k then f k else 0)"
      by (rule arg_cong [of _ _ sum_list], rule map_cong) (auto simp: L)
    also have "\<dots> = f k" using assms(1) k by (simp add: sum_list_distinct_conv_sum_set sum.delta)
    finally show ?thesis .
  qed
  ultimately have "?g 0 = f 0" using polyfun_ext [OF _ assms(2) assms(1), of ?g 0] by blast
  then show ?thesis by (simp add: lagrange_def mult.commute)
qed

subsection \<open>The same modulo a prime\<close>

definition prime_order :: "int \<Rightarrow> bool" where
  "prime_order r \<longleftrightarrow> 1 < r \<and> (\<forall>a b. r dvd a * b \<longrightarrow> r dvd a \<or> r dvd b)"

lemma prime_order_prod: "prime_order r \<Longrightarrow> r dvd (\<Prod>x\<leftarrow>xs. f x) \<Longrightarrow> \<exists>x\<in>set xs. r dvd f x"
proof (induction xs)
  case Nil
  then show ?case by (simp add: prime_order_def)
next
  case (Cons x xs)
  then have "r dvd f x \<or> r dvd (\<Prod>x\<leftarrow>xs. f x)" unfolding prime_order_def by simp
  then show ?case using Cons by auto
qed

lemma peval_roots_mod:
  fixes c :: "nat \<Rightarrow> int"
  assumes r: "prime_order r"
  shows "distinct xs \<Longrightarrow> (\<forall>x\<in>set xs. \<forall>y\<in>set xs. x \<noteq> y \<longrightarrow> \<not> r dvd x - y) \<Longrightarrow> length xs = n \<Longrightarrow>
    \<forall>x\<in>set xs. r dvd peval n c x \<Longrightarrow> j < n \<Longrightarrow> r dvd c j"
proof (induction n arbitrary: xs c j)
  case (Suc n)
  then obtain a ys where xs: "xs = a # ys" by (cases xs) auto
  from peval_factor [of n c a] obtain d where
    d: "peval (Suc n) c x - peval (Suc n) c a = (x - a) * peval n d x" and top: "\<And>m. n = Suc m \<Longrightarrow> d m = c n" for x
    by blast
  have "r dvd peval n d y" if y: "y \<in> set ys" for y
  proof -
    have "r dvd peval (Suc n) c y" "r dvd peval (Suc n) c a" using Suc.prems(4) y by (auto simp: xs)
    then have "r dvd (y - a) * peval n d y" unfolding d [symmetric] by (rule dvd_diff)
    moreover have "y \<noteq> a" "a \<in> set xs" "y \<in> set xs" using Suc.prems(1) y by (auto simp: xs)
    then have "\<not> r dvd y - a" using Suc.prems(2) by blast
    ultimately show ?thesis using r unfolding prime_order_def by blast
  qed
  then have zero: "r dvd d j" if "j < n" for j using Suc.IH [of ys d j] Suc.prems(1-3) that by (auto simp: xs)
  have cn: "r dvd c n"
  proof (cases n)
    case 0
    then show ?thesis using Suc.prems(4) by (auto simp: xs peval_def)
  next
    case (Suc m)
    then show ?thesis using top [of m] zero [of m] by simp
  qed
  have "r dvd peval n c y" if "y \<in> set ys" for y
  proof -
    have "r dvd peval n c y + c n * y ^ n" using Suc.prems(4) that by (simp add: xs peval_Suc)
    then show ?thesis using cn by (metis dvd_add_left_iff dvd_mult2)
  qed
  then show ?case using Suc.IH [of ys c j] Suc.prems cn by (cases "j = n") (auto simp: xs)
qed simp

lemma lagrange_mod:
  fixes f :: "int \<Rightarrow> int"
  assumes r: "prime_order r" and xs: "distinct xs" "\<forall>x\<in>set xs. \<forall>y\<in>set xs. x \<noteq> y \<longrightarrow> \<not> r dvd x - y"
    and f: "polyfun (length xs) f"
    and v: "\<And>i. i \<in> set xs \<Longrightarrow> r dvd (\<Prod>j\<leftarrow>filter (\<lambda>j. j \<noteq> i) xs. j - i) * v i - 1"
  shows "r dvd (\<Sum>i\<leftarrow>xs. f i * ((\<Prod>j\<leftarrow>filter (\<lambda>j. j \<noteq> i) xs. j) * v i)) - f 0"
proof -
  let ?others = "\<lambda>i. filter (\<lambda>j. j \<noteq> i) xs"
  let ?L = "\<lambda>i x. (\<Prod>j\<leftarrow>?others i. j - x) * v i"
  let ?g = "\<lambda>x. (\<Sum>i\<leftarrow>xs. f i * ?L i x) + (-1) * f x"
  have pL: "polyfun (length xs) (?L i)" if "i \<in> set xs" for i
  proof -
    have "Suc (length (?others i)) = length xs"
      using distinct_card [of "?others i"] distinct_card [of xs] xs(1) that
        card_Suc_Diff1 [of "set xs" i] by (simp add: set_diff_eq)
    then have "polyfun (length xs) (\<lambda>x. \<Prod>j\<leftarrow>?others i. j - x)" using polyfun_prod [of "?others i"] by simp
    from polyfun_scale [OF this, of "v i"] show ?thesis by (simp add: mult.commute)
  qed
  have "polyfun (length xs) ?g" by (intro polyfun_add polyfun_sum polyfun_scale pL f)
  then obtain c where c: "\<forall>x. ?g x = peval (length xs) c x" unfolding polyfun_def by blast
  have root: "r dvd ?g k" if k: "k \<in> set xs" for k
  proof -
    have "(\<Sum>i\<leftarrow>xs. f i * ?L i k) = (\<Sum>i\<leftarrow>xs. if i = k then f k * ?L k k else 0)"
      by (rule arg_cong [of _ _ sum_list], rule map_cong) (use k in \<open>auto simp: prod_list_zero_iff\<close>)
    also have "\<dots> = f k * ?L k k" using xs(1) k by (simp add: sum_list_distinct_conv_sum_set sum.delta)
    finally have "?g k = f k * (?L k k - 1)" by (simp add: algebra_simps)
    then show ?thesis using v [OF k] by simp
  qed
  have "r dvd c j" if "j < length xs" for j
    by (rule peval_roots_mod [OF r xs refl _ that]) (use root c in auto)
  then have "r dvd peval (length xs) c 0" unfolding peval_def by (intro dvd_sum) auto
  moreover have "peval (length xs) c 0 = (\<Sum>i\<leftarrow>xs. f i * ((\<Prod>j\<leftarrow>?others i. j) * v i)) - f 0"
    unfolding c [rule_format, symmetric] by simp
  ultimately show ?thesis by simp
qed

end
