(* ===== verification/Matrix_Inverse.thy ===== *)
theory Matrix_Inverse
  imports Prelude
begin

section \<open>Gauss-Jordan inversion (rig/da.py)\<close>

text \<open>
  \<^verbatim>\<open>_mat_inv\<close> over any field: the matrix is augmented by the identity, each column gets a
  pivot row, the pivot row is scaled and the column cleared in every other row. The lemmas show that a returned
  matrix is a left inverse, and that a matrix with trivial kernel always gets one.
\<close>

definition augment :: "'a::field list list \<Rightarrow> 'a list list" where
  "augment m = map (\<lambda>(i, row). row @ map (\<lambda>j. if i = j then 1 else 0) [0..<length m]) (List.enumerate 0 m)"

definition find_pivot :: "'a::field list list \<Rightarrow> nat \<Rightarrow> nat option" where
  "find_pivot a col = List.find (\<lambda>r. a ! r ! col \<noteq> 0) [col..<length a]"

definition swap_rows :: "nat \<Rightarrow> nat \<Rightarrow> 'a list list \<Rightarrow> 'a list list" where
  "swap_rows i j a = a[i := a ! j, j := a ! i]"

definition scale_row :: "nat \<Rightarrow> 'a::field list list \<Rightarrow> 'a list list" where
  "scale_row col a = a[col := map (\<lambda>v. v * inverse (a ! col ! col)) (a ! col)]"

definition clear_col :: "nat \<Rightarrow> 'a::field list list \<Rightarrow> 'a list list" where
  "clear_col col a = map (\<lambda>(r, row).
     if r \<noteq> col \<and> row ! col \<noteq> 0 then map2 (\<lambda>x y. x - row ! col * y) row (a ! col) else row) (List.enumerate 0 a)"

definition gj_step :: "nat \<Rightarrow> 'a::field list list \<Rightarrow> 'a list list option" where
  "gj_step col a =
     (case find_pivot a col of
        None \<Rightarrow> None
      | Some piv \<Rightarrow> Some (clear_col col (scale_row col (swap_rows col piv a))))"

primrec gj_loop :: "nat list \<Rightarrow> 'a::field list list \<Rightarrow> 'a list list option" where
  "gj_loop [] a = Some a"
| "gj_loop (c # cs) a = (case gj_step c a of None \<Rightarrow> None | Some b \<Rightarrow> gj_loop cs b)"

definition mat_inv :: "'a::field list list \<Rightarrow> 'a list list option" where
  "mat_inv m =
     (case gj_loop [0..<length m] (augment m) of
        None \<Rightarrow> None
      | Some a \<Rightarrow> Some (map (drop (length m)) a))"

subsection \<open>The invariant\<close>

text \<open>Every row is its own right half applied to the matrix: row operations keep this.\<close>

definition row_ok :: "'a::field list list \<Rightarrow> 'a list \<Rightarrow> bool" where
  "row_ok m row \<longleftrightarrow> length row = 2 * length m \<and>
     (\<forall>j<length m. row ! j = (\<Sum>i<length m. row ! (length m + i) * m ! i ! j))"

definition kills :: "nat \<Rightarrow> 'a::field list \<Rightarrow> (nat \<Rightarrow> 'a) \<Rightarrow> bool" where
  "kills k row v \<longleftrightarrow> (\<Sum>j<k. row ! j * v j) = 0"

text \<open>The first \<open>c\<close> columns are those of the identity, and no kernel vector was added.\<close>

definition gj_inv :: "'a::field list list \<Rightarrow> nat \<Rightarrow> 'a list list \<Rightarrow> bool" where
  "gj_inv m c a \<longleftrightarrow> length a = length m \<and> (\<forall>row\<in>set a. row_ok m row) \<and>
     (\<forall>r<length m. \<forall>j<c. a ! r ! j = (if r = j then 1 else 0)) \<and>
     (\<forall>v. (\<forall>row\<in>set a. kills (length m) row v) \<longrightarrow> (\<forall>row\<in>set m. kills (length m) row v))"

lemma row_ok_scale: "row_ok m row \<Longrightarrow> row_ok m (map (\<lambda>v. v * s) row)"
  by (auto simp: row_ok_def sum_distrib_left mult_ac)

lemma row_ok_sub:
  assumes "row_ok m x" "row_ok m y"
  shows "row_ok m (map2 (\<lambda>a b. a - f * b) x y)"
  using assms by (auto simp: row_ok_def sum_subtractf left_diff_distrib sum_distrib_left mult.assoc)

lemma kills_sub:
  assumes "length x = length y" "k \<le> length x" "kills k y v" "kills k (map2 (\<lambda>a b. a - f * b) x y) v"
  shows "kills k x v"
proof -
  have "(\<Sum>j<k. map2 (\<lambda>a b. a - f * b) x y ! j * v j) = (\<Sum>j<k. x ! j * v j) - f * (\<Sum>j<k. y ! j * v j)"
    using assms(1,2) by (simp add: sum_distrib_left sum_subtractf [symmetric] left_diff_distrib mult.assoc)
  then show ?thesis using assms(3,4) by (simp add: kills_def)
qed

lemma kills_scale: "k \<le> length x \<Longrightarrow> s \<noteq> 0 \<Longrightarrow> kills k (map (\<lambda>v. v * s) x) v \<Longrightarrow> kills k x v"
proof -
  assume "k \<le> length x" "s \<noteq> 0" "kills k (map (\<lambda>v. v * s) x) v"
  moreover have "(\<Sum>j<k. map (\<lambda>v. v * s) x ! j * v j) = s * (\<Sum>j<k. x ! j * v j)"
    using \<open>k \<le> length x\<close> by (simp add: sum_distrib_left mult_ac)
  ultimately show ?thesis by (simp add: kills_def)
qed

lemma augment_inv:
  assumes "\<forall>row\<in>set m. length row = length m"
  shows "gj_inv m 0 (augment m)"
proof -
  let ?k = "length m"
  have len: "length (augment m) = ?k" by (simp add: augment_def)
  have nth: "augment m ! i = m ! i @ map (\<lambda>j. if i = j then 1 else 0) [0..<?k]" if "i < ?k" for i
    using that by (simp add: augment_def nth_enumerate_eq)
  have rl: "length (m ! i) = ?k" if "i < ?k" for i using assms that by simp
  have "row_ok m (augment m ! i)" if i: "i < ?k" for i
  proof -
    have "(\<Sum>x<?k. (if i = x then 1 else 0) * m ! x ! j) = m ! i ! j" for j
      using i sum.delta [of "{..<?k}" i "\<lambda>x. m ! x ! j"] by (simp add: if_distrib [of "\<lambda>b. b * _"] cong: if_cong)
    then show ?thesis using i rl [OF i] by (auto simp: row_ok_def nth nth_append)
  qed
  moreover have "kills ?k (m ! i) v" if "kills ?k (augment m ! i) v" "i < ?k" for v i
    using that rl [OF that(2)] by (simp add: kills_def nth nth_append)
  ultimately show ?thesis
    using len by (fastforce simp: gj_inv_def in_set_conv_nth)
qed

lemma clear_nth:
  "r < length a \<Longrightarrow> clear_col col a ! r =
     (if r \<noteq> col \<and> a ! r ! col \<noteq> 0 then map2 (\<lambda>x y. x - a ! r ! col * y) (a ! r) (a ! col) else a ! r)"
  by (simp add: clear_col_def nth_enumerate_eq)

lemma length_clear [simp]: "length (clear_col col a) = length a"
  by (simp add: clear_col_def)

lemma swap_inv:
  assumes "gj_inv m c a" "c \<le> i" "c \<le> j" "i < length m" "j < length m"
  shows "gj_inv m c (swap_rows i j a)"
proof -
  have len: "length a = length m" using assms(1) by (simp add: gj_inv_def)
  have s: "set (swap_rows i j a) = set a"
    using set_swap [of i a j] assms(4,5) len by (simp add: swap_rows_def)
  have "swap_rows i j a ! r ! q = (if r = q then 1 else 0)" if "r < length m" "q < c" for r q
    using that assms len by (auto simp: swap_rows_def nth_list_update gj_inv_def)
  then show ?thesis using assms(1) len s by (simp add: gj_inv_def swap_rows_def)
qed

lemma scale_inv:
  assumes inv: "gj_inv m c a" and c: "c < length m" and piv: "a ! c ! c \<noteq> 0"
  shows "gj_inv m c (scale_row c a) \<and> scale_row c a ! c ! c = 1"
proof -
  let ?k = "length m" and ?row = "map (\<lambda>v. v * inverse (a ! c ! c)) (a ! c)"
  have len: "length a = ?k" and rows: "\<And>row. row \<in> set a \<Longrightarrow> row_ok m row" using inv by (auto simp: gj_inv_def)
  have ac: "a ! c \<in> set a" using c len by simp
  have lc: "length (a ! c) = 2 * ?k" using rows [OF ac] by (simp add: row_ok_def)
  have "row_ok m row" if "row \<in> set (scale_row c a)" for row
    using that rows set_update_subset_insert [of a c ?row] row_ok_scale [OF rows [OF ac]] by (auto simp: scale_row_def)
  moreover have "\<forall>row\<in>set m. kills ?k row v" if "\<forall>row\<in>set (scale_row c a). kills ?k row v" for v
  proof -
    have "kills ?k (a ! r) v" if "r < ?k" for r
    proof (cases "r = c")
      case True
      have "?row \<in> set (scale_row c a)" using c len by (simp add: scale_row_def set_update_memI)
      with \<open>\<forall>row\<in>set (scale_row c a). _ row\<close> have "kills ?k ?row v" by blast
      then show ?thesis using kills_scale [of ?k "a ! c" "inverse (a ! c ! c)" v] lc piv True by simp
    next
      case False
      then have "a ! r = scale_row c a ! r" by (simp add: scale_row_def)
      then show ?thesis using \<open>\<forall>row\<in>set (scale_row c a). _ row\<close> that len by (simp add: scale_row_def)
    qed
    then have "\<forall>row\<in>set a. kills ?k row v" using len by (auto simp: in_set_conv_nth)
    then show ?thesis using inv unfolding gj_inv_def by blast
  qed
  moreover have "scale_row c a ! r ! j = (if r = j then 1 else 0)" if "r < ?k" "j < c" for r j
    using that inv c len lc by (auto simp: scale_row_def nth_list_update gj_inv_def)
  ultimately show ?thesis
    using len lc c piv by (simp add: gj_inv_def) (simp add: scale_row_def)
qed

lemma clear_inv:
  assumes inv: "gj_inv m c a" and c: "c < length m" and one: "a ! c ! c = 1"
  shows "gj_inv m (Suc c) (clear_col c a)"
proof -
  let ?k = "length m"
  have len: "length a = ?k" and rows: "\<And>r. r < ?k \<Longrightarrow> row_ok m (a ! r)" using inv by (auto simp: gj_inv_def)
  have lr: "length (a ! r) = 2 * ?k" if "r < ?k" for r using rows [OF that] by (simp add: row_ok_def)
  have unit: "a ! r ! j = (if r = j then 1 else 0)" if "r < ?k" "j < c" for r j
    using inv that by (simp add: gj_inv_def)
  have "row_ok m (clear_col c a ! r)" if "r < ?k" for r
    using that c len rows [OF that] row_ok_sub [OF rows [OF that] rows [OF c]] by (simp add: clear_nth)
  moreover have "clear_col c a ! r ! j = (if r = j then 1 else 0)" if "r < ?k" "j < Suc c" for r j
    using that c len lr [OF that(1)] lr [OF c] unit [of r j] unit [OF c, of j] one
    by (cases "j = c") (auto simp: clear_nth)
  moreover have "\<forall>row\<in>set m. kills ?k row v" if kill: "\<forall>row\<in>set (clear_col c a). kills ?k row v" for v
  proof -
    have k: "kills ?k (clear_col c a ! r) v" if "r < ?k" for r using kill that len by simp
    have kc: "kills ?k (a ! c) v" using k [OF c] c len by (simp add: clear_nth)
    have "kills ?k (a ! r) v" if "r < ?k" for r
      using k [OF that] kc kills_sub [of "a ! r" "a ! c" ?k v "a ! r ! c"] lr [OF that] lr [OF c] that len
      by (simp add: clear_nth split: if_splits)
    then have "\<forall>row\<in>set a. kills ?k row v" using len by (auto simp: in_set_conv_nth)
    then show ?thesis using inv unfolding gj_inv_def by blast
  qed
  ultimately show ?thesis using len by (auto simp: gj_inv_def in_set_conv_nth)
qed

lemma find_pivot_Some:
  "find_pivot a c = Some p \<Longrightarrow> c \<le> p \<and> p < length a \<and> a ! p ! c \<noteq> 0"
  by (auto simp: find_pivot_def find_Some_iff)

lemma find_pivot_None: "find_pivot a c = None \<Longrightarrow> c \<le> r \<Longrightarrow> r < length a \<Longrightarrow> a ! r ! c = 0"
  by (auto simp: find_pivot_def find_None_iff)

lemma gj_step_inv:
  assumes "gj_inv m c a" "c < length m" "gj_step c a = Some b"
  shows "gj_inv m (Suc c) b"
proof -
  from assms(3) obtain p where p: "find_pivot a c = Some p"
    and b: "b = clear_col c (scale_row c (swap_rows c p a))" by (auto simp: gj_step_def split: option.splits)
  have len: "length a = length m" using assms(1) by (simp add: gj_inv_def)
  have "gj_inv m c (swap_rows c p a)"
    using find_pivot_Some [OF p] assms(1,2) len by (intro swap_inv) auto
  moreover have "swap_rows c p a ! c ! c \<noteq> 0"
    using find_pivot_Some [OF p] assms(2) len by (auto simp: swap_rows_def nth_list_update)
  ultimately have "gj_inv m c (swap_rows c p a)" "swap_rows c p a ! c ! c \<noteq> 0" .
  with scale_inv [OF this(1) assms(2) this(2)] clear_inv assms(2) b show ?thesis by blast
qed

text \<open>Without a pivot the kernel has a nonzero vector.\<close>

lemma gj_step_stuck:
  assumes inv: "gj_inv m c a" and c: "c < length m" and stuck: "gj_step c a = None"
  shows "\<exists>v. (\<forall>row\<in>set m. kills (length m) row v) \<and> v c \<noteq> 0"
proof -
  let ?k = "length m"
  let ?v = "\<lambda>j. if j = c then 1 else if j < c then - a ! j ! c else (0 :: 'a)"
  have len: "length a = ?k" using inv by (simp add: gj_inv_def)
  have zero: "a ! r ! c = 0" if "c \<le> r" "r < ?k" for r
    using stuck find_pivot_None [of a c r] that len by (auto simp: gj_step_def split: option.splits)
  have unit: "a ! r ! j = (if r = j then 1 else 0)" if "r < ?k" "j < c" for r j
    using inv that by (simp add: gj_inv_def)
  have "kills ?k (a ! r) ?v" if r: "r < ?k" for r
  proof -
    have "(\<Sum>j<?k. a ! r ! j * ?v j) = (\<Sum>j<?k. (if j = c then a ! r ! c else 0) + (if j = r then (if r < c then - a ! r ! c else 0) else 0))"
      using r unit by (intro sum.cong) auto
    also have "\<dots> = a ! r ! c + (if r < c then - a ! r ! c else 0)"
      using c r by (simp add: sum.distrib sum.delta)
    also have "\<dots> = 0" using zero [of r] r by auto
    finally show ?thesis by (simp add: kills_def)
  qed
  then have "\<forall>row\<in>set a. kills ?k row ?v" using len by (auto simp: in_set_conv_nth)
  then have "\<forall>row\<in>set m. kills ?k row ?v" using inv unfolding gj_inv_def by blast
  then show ?thesis by (intro exI [of _ ?v]) simp
qed

subsection \<open>The inverse\<close>

definition trivial_kernel :: "'a::field list list \<Rightarrow> bool" where
  "trivial_kernel m \<longleftrightarrow> (\<forall>v. (\<forall>row\<in>set m. kills (length m) row v) \<longrightarrow> (\<forall>j<length m. v j = 0))"

lemma gj_loop_inv:
  "gj_inv m c a \<Longrightarrow> c \<le> length m \<Longrightarrow> gj_loop [c..<length m] a = Some b \<Longrightarrow> gj_inv m (length m) b"
proof (induction "length m - c" arbitrary: c a)
  case (Suc n)
  then have c: "c < length m" by simp
  then obtain a' where "gj_step c a = Some a'" "gj_loop [Suc c..<length m] a' = Some b"
    using Suc.prems(3) by (auto simp: upt_conv_Cons split: option.splits)
  then show ?case using Suc.hyps(1) [of "Suc c" a'] Suc.hyps(2) gj_step_inv [OF Suc.prems(1) c] c by simp
qed simp

lemma gj_loop_returns:
  "gj_inv m c a \<Longrightarrow> c \<le> length m \<Longrightarrow> trivial_kernel m \<Longrightarrow> \<exists>b. gj_loop [c..<length m] a = Some b"
proof (induction "length m - c" arbitrary: c a)
  case (Suc n)
  then have c: "c < length m" by simp
  with gj_step_stuck [OF Suc.prems(1) c] Suc.prems(3) obtain a' where a': "gj_step c a = Some a'"
    unfolding trivial_kernel_def by (cases "gj_step c a") auto
  from Suc.hyps(1) [OF _ gj_step_inv [OF Suc.prems(1) c a']] Suc.hyps(2) Suc.prems(3) c a' show ?case
    by (auto simp: upt_conv_Cons)
qed simp

lemma mat_inv_left:
  assumes sq: "\<forall>row\<in>set m. length row = length m" and inv: "mat_inv m = Some n"
  shows "length n = length m" and "\<forall>row\<in>set n. length row = length m"
    and "r < length m \<Longrightarrow> j < length m \<Longrightarrow> (\<Sum>i<length m. n ! r ! i * m ! i ! j) = (if r = j then 1 else 0)"
proof -
  from inv obtain a where a: "gj_loop [0..<length m] (augment m) = Some a" and n: "n = map (drop (length m)) a"
    by (auto simp: mat_inv_def split: option.splits)
  have fin: "gj_inv m (length m) a" by (rule gj_loop_inv [OF augment_inv [OF sq] _ a]) simp
  then have len: "length a = length m" and rows: "\<And>r. r < length m \<Longrightarrow> row_ok m (a ! r)" by (auto simp: gj_inv_def)
  show "length n = length m" using len n by simp
  show "\<forall>row\<in>set n. length row = length m" using fin n by (auto simp: gj_inv_def row_ok_def)
  assume "r < length m" "j < length m"
  then show "(\<Sum>i<length m. n ! r ! i * m ! i ! j) = (if r = j then 1 else 0)"
    using rows [of r] fin len n by (auto simp: row_ok_def gj_inv_def)
qed

lemma mat_inv_returns:
  assumes "\<forall>row\<in>set m. length row = length m" and "trivial_kernel m"
  shows "\<exists>n. mat_inv m = Some n"
  using gj_loop_returns [OF augment_inv [OF assms(1)] _ assms(2)] by (auto simp: mat_inv_def)

end
