(* ===== verification/Erasure.thy ===== *)
theory Erasure
  imports Field256 Poly_Roots Matrix_Inverse Merkle
begin

section \<open>Erasure-coded data availability (rig/da.py)\<close>

text \<open>
  Reed-Solomon dispersal of a body into shards, reconstruction from any of them, and the Merkle-committed
  blob with availability sampling. Coefficients are elements of the field of \<^verbatim>\<open>Field256\<close>, rows are
  bytes; numpy's shape errors are exceptions of the model. The main lemma is that any
  \<open>k\<close> different shards give the body back.
\<close>

subsection \<open>Bytes as field elements\<close>

lift_definition gf_byte :: "byte \<Rightarrow> gf" is unat
  by (rule less_le_trans [OF unsigned_less]) simp

definition byte_gf :: "gf \<Rightarrow> byte" where
  "byte_gf g = of_nat (gf_nat g)"

lift_definition gf_MUL :: "gf \<Rightarrow> gf \<Rightarrow> gf" is MUL
  by (simp add: MUL_gf_mul gf_mul_lt)

lemma gf_MUL_times: "gf_MUL a b = a * b"
  by transfer (rule MUL_gf_mul)

lemma gf_byte_inverse [simp]: "gf_byte (byte_gf g) = g"
  using gf_nat [of g] by (intro gf_nat_inject [THEN iffD1]) (simp add: gf_byte.rep_eq byte_gf_def unat_of_nat)

lemma byte_gf_inverse [simp]: "byte_gf (gf_byte b) = b"
  by (simp add: byte_gf_def gf_byte.rep_eq)

lemma gf_byte_xor: "gf_byte (a XOR b) = gf_byte a + gf_byte b"
  by (intro gf_nat_inject [THEN iffD1]) (simp add: gf_byte.rep_eq plus_gf.rep_eq unsigned_xor_eq)

lemma gf_byte_0 [simp]: "gf_byte 0 = 0"
  by transfer simp

subsection \<open>Encoding and reconstruction\<close>

definition vander_entry :: "nat \<Rightarrow> nat \<Rightarrow> gf" where
  "vander_entry i j = Gf (EXP ! ((LOG ! (i + 1) * j) mod 255))"

definition vandermonde :: "nat \<Rightarrow> nat \<Rightarrow> gf list list res" where
  "vandermonde n k =
     (if 255 < n \<and> 0 < k then Inl IndexError
      else Inr (map (\<lambda>i. map (vander_entry i) [0..<k]) [0..<n]))"

text \<open>\<^verbatim>\<open>acc ^= x\<close>: numpy broadcasts a single element and otherwise wants equal shapes.\<close>

definition xor_into :: "bytes \<Rightarrow> bytes \<Rightarrow> bytes res" where
  "xor_into acc x =
     (if length x = length acc then Inr (map2 (\<lambda>a b. a XOR b) acc x)
      else if length x = 1 then Inr (map (\<lambda>a. a XOR hd x) acc)
      else Inl ValueError)"

definition combine_step :: "gf \<times> bytes \<Rightarrow> bytes \<Rightarrow> bytes res" where
  "combine_step p acc =
     (let (c, row) = p
      in if c = 0 then Inr acc else xor_into acc (map (\<lambda>b. byte_gf (gf_MUL c (gf_byte b))) row))"

definition gf_combine :: "gf list \<Rightarrow> bytes list \<Rightarrow> bytes res" where
  "gf_combine coeffs byte_rows =
     (case byte_rows of
        [] \<Rightarrow> Inl IndexError
      | r # _ \<Rightarrow> foldE combine_step (zip coeffs byte_rows) (replicate (length r) 0))"

definition data_rows :: "bytes \<Rightarrow> nat \<Rightarrow> bytes list" where
  "data_rows body k =
     (let data = body @ replicate ((k - length body mod k) mod k) 0;
          L = length data div k
      in map (\<lambda>i. take L (drop (i * L) data)) [0..<k])"

definition rs_encode :: "bytes \<Rightarrow> nat \<Rightarrow> nat \<Rightarrow> bytes list res" where
  "rs_encode body k n =
     (if \<not> (0 < k \<and> k \<le> n \<and> n \<le> 255) then Inl AssertionError
      else bindE (vandermonde n k) (\<lambda>V.
           mapE (\<lambda>i. gf_combine (V ! i) (data_rows body k)) [0..<n]))"

definition reconstruct :: "(nat, bytes) dict \<Rightarrow> nat \<Rightarrow> nat \<Rightarrow> bytes res" where
  "reconstruct shards k orig_len =
     (if length shards < k then Inl ValueError
      else let idx = take k (sort (map fst shards))
      in if idx = [] then Inl ValueError
      else bindE (vandermonde (Max (set idx) + 1) k) (\<lambda>V.
           case mat_inv (map (\<lambda>i. V ! i) idx) of
             None \<Rightarrow> Inl ValueError
           | Some m \<Rightarrow>
               let cols = map (\<lambda>i. the (map_of shards i)) idx
               in bindE (mapE (\<lambda>r. gf_combine (m ! r) cols) [0..<k]) (\<lambda>rows.
                  Inr (take orig_len (concat rows)))))"

subsection \<open>The committed blob\<close>

record da_blob =
  db_shards :: "bytes list"
  db_orig_len :: nat
  db_k :: nat
  db_n :: nat
  db_levels :: "bytes list list"

definition blob_root :: "da_blob \<Rightarrow> bytes" where
  "blob_root b = hd (last (db_levels b))"

definition blob_proof :: "da_blob \<Rightarrow> int \<Rightarrow> path res" where
  "blob_proof b i = merkle_proof (db_levels b) i"

definition disperse :: "prims \<Rightarrow> bytes \<Rightarrow> nat \<Rightarrow> nat \<Rightarrow> da_blob res" where
  "disperse P body k n =
     bindE (rs_encode body k n) (\<lambda>shards.
     bindE (build P shards) (\<lambda>levels.
     Inr \<lparr>db_shards = shards, db_orig_len = length body, db_k = k, db_n = n, db_levels = levels\<rparr>))"

definition verify_shard :: "prims \<Rightarrow> bytes \<Rightarrow> int \<Rightarrow> path \<Rightarrow> bytes \<Rightarrow> bool" where
  "verify_shard P shard i pf r = merkle_verify P shard i pf r"

text \<open>The sampled indices are an argument: they come from a numpy generator.\<close>

primrec sample_available :: "prims \<Rightarrow> (nat, bytes) dict \<Rightarrow> da_blob \<Rightarrow> nat list \<Rightarrow> bool res" where
  "sample_available P available blob [] = Inr True"
| "sample_available P available blob (i # picks) =
     (case map_of available i of
        None \<Rightarrow> Inr False
      | Some shard \<Rightarrow>
          bindE (blob_proof blob (int i)) (\<lambda>pf.
          if \<not> verify_shard P shard (int i) pf (blob_root blob) then Inr False
          else sample_available P available blob picks))"

definition da_pointer :: "bytes \<Rightarrow> string" where
  "da_pointer r = ''da://'' @ take 32 (hex r)"

subsection \<open>One combined row\<close>

lemma combine_fold:
  assumes "\<forall>row\<in>set (map snd ps). length row = length acc"
  shows "foldE combine_step ps acc =
     Inr (map (\<lambda>p. byte_gf (gf_byte (acc ! p) + (\<Sum>(c, row)\<leftarrow>ps. c * gf_byte (row ! p)))) [0..<length acc])"
  using assms
proof (induction ps arbitrary: acc)
  case Nil
  then show ?case by (simp add: map_nth)
next
  case (Cons p ps)
  obtain c row where p: "p = (c, row)" by (cases p)
  have len: "length row = length acc" using Cons.prems by (simp add: p)
  let ?acc = "if c = 0 then acc else map2 (\<lambda>a b. a XOR byte_gf (c * gf_byte b)) acc row"
  have step: "combine_step p acc = Inr ?acc"
    using len by (simp add: combine_step_def p xor_into_def gf_MUL_times zip_map2 comp_def split_def)
  have nth: "gf_byte (?acc ! q) = gf_byte (acc ! q) + c * gf_byte (row ! q)" if "q < length acc" for q
    using that len by (simp add: gf_byte_xor)
  have l: "length ?acc = length acc" using len by simp
  have "foldE combine_step (p # ps) acc = foldE combine_step ps ?acc" using step by simp
  also have "\<dots> = Inr (map (\<lambda>q. byte_gf (gf_byte (?acc ! q) + (\<Sum>(c, row)\<leftarrow>ps. c * gf_byte (row ! q)))) [0..<length ?acc])"
    using Cons.prems l by (intro Cons.IH) (simp only: l, simp)
  also have "\<dots> = Inr (map (\<lambda>q. byte_gf (gf_byte (acc ! q) + (\<Sum>(c, row)\<leftarrow>p # ps. c * gf_byte (row ! q)))) [0..<length acc])"
    unfolding l using nth by (auto simp: p add.assoc)
  finally show ?case .
qed

lemma gf_combine_eq:
  assumes "rows \<noteq> []" "length cs = length rows" "\<forall>row\<in>set rows. length row = L"
  shows "gf_combine cs rows =
     Inr (map (\<lambda>p. byte_gf (\<Sum>j<length rows. cs ! j * gf_byte (rows ! j ! p))) [0..<L])"
proof -
  obtain r rs where rows: "rows = r # rs" using assms(1) by (cases rows) auto
  have "\<forall>row\<in>set (map snd (zip cs rows)). length row = length (replicate L (0 :: byte))"
    using assms(3) by (auto dest: set_zip_rightD)
  from combine_fold [OF this] have "gf_combine cs rows =
      Inr (map (\<lambda>p. byte_gf (\<Sum>(c, row)\<leftarrow>zip cs rows. c * gf_byte (row ! p))) [0..<L])"
    using assms(3) rows by (simp add: gf_combine_def)
  then show ?thesis
    using assms(2) by (simp add: sum_list_sum_nth atLeast0LessThan split_def)
qed

subsection \<open>The Vandermonde rows\<close>

lemma gf_mul_gen_all: "gf_mul (gen i) (gen j) = gen (i + j)"
  using gf_mul_gen [of "i mod 255" "j mod 255"] gen_mod [of i] gen_mod [of j] gen_mod [of "i + j"]
    gen_mod [of "i mod 255 + j mod 255"] by (simp add: mod_simps)

lemma Gf_gen_power: "Gf (gen e) ^ j = Gf (gen (e * j))"
proof (induction j)
  case 0
  then show ?case by (simp add: one_gf_def)
next
  case (Suc j)
  have "Gf (gen e) * Gf (gen (e * j)) = Gf (gf_mul (gen e) (gen (e * j)))"
    using gen_lt by (simp add: times_gf_def Gf_inverse)
  then show ?case using Suc by (simp add: gf_mul_gen_all)
qed

lemma vander_power: "i < 255 \<Longrightarrow> vander_entry i j = Gf (i + 1) ^ j"
proof -
  assume "i < 255"
  then obtain e where e: "e < 255" "i + 1 = gen e" using gen_surj [of "i + 1"] by auto
  have "(LOG ! (i + 1) * j) mod 255 < 512" by (rule less_trans [OF mod_less_divisor]) simp_all
  then have "vander_entry i j = Gf (gen ((e * j) mod 255))"
    unfolding vander_entry_def e(2) using e(1) by (simp add: tables_facts(3) EXP_gen)
  also have "\<dots> = Gf (i + 1) ^ j" unfolding e(2) Gf_gen_power gen_mod ..
  finally show ?thesis .
qed

lemma vander_kernel:
  assumes "distinct idx" "\<forall>i\<in>set idx. i < 255"
  shows "trivial_kernel (map (\<lambda>i. map (vander_entry i) [0..<length idx]) idx)"
proof -
  let ?k = "length idx" and ?xs = "map (\<lambda>i. Gf (i + 1)) idx"
  have "inj_on (\<lambda>i. Gf (i + 1)) (set idx)"
    using assms(2) by (intro inj_onI) (auto simp: Gf_inject)
  then have d: "distinct ?xs" using assms(1) by (simp add: distinct_map)
  have "v j = 0" if kills: "\<forall>i\<in>set idx. kills ?k (map (vander_entry i) [0..<?k]) v" and "j < ?k" for v j
  proof -
    have "peval ?k v x = 0" if x: "x \<in> set ?xs" for x
    proof -
      from x obtain i where i: "i \<in> set idx" "x = Gf (i + 1)" by auto
      have "(\<Sum>j<?k. vander_entry i j * v j) = peval ?k v x"
        using i assms(2) by (simp add: peval_def vander_power mult.commute)
      then show ?thesis using kills i by (simp add: kills_def)
    qed
    then show ?thesis using peval_roots [OF d, of ?k v j] that(2) by simp
  qed
  then show ?thesis by (auto simp: trivial_kernel_def)
qed

subsection \<open>Any \<open>k\<close> shards give the body back\<close>

lemma data_rows_facts:
  assumes "0 < k"
  shows "length (data_rows body k) = k"
    and "\<exists>L. \<forall>row\<in>set (data_rows body k). length row = L"
    and "take (length body) (concat (data_rows body k)) = body"
proof -
  define data where "data = body @ replicate ((k - length body mod k) mod k) (0 :: byte)"
  define L where "L = length data div k"
  have rows: "data_rows body k = map (\<lambda>i. take L (drop (i * L) data)) [0..<k]"
    by (simp add: data_rows_def data_def L_def Let_def)
  have "length data mod k = 0"
  proof (cases "length body mod k = 0")
    case False
    then have "(k - length body mod k) mod k = k - length body mod k" using assms by (intro mod_less) auto
    then have "length data = length body - length body mod k + k"
      using mod_less_divisor [OF assms, of "length body"] mod_le_divisor [OF assms, of "length body"]
        mod_less_eq_dividend [of "length body" k] unfolding data_def by simp
    also have "\<dots> = k * (length body div k) + k" by (simp add: minus_mod_eq_mult_div)
    finally show ?thesis by simp
  qed (simp add: data_def)
  then have len: "length data = k * L" using mult_div_mod_eq [of k "length data"] by (simp add: L_def)
  show "length (data_rows body k) = k" by (simp add: rows)
  have "length row = L" if "row \<in> set (data_rows body k)" for row
  proof -
    from that obtain i where i: "i < k" "row = take L (drop (i * L) data)" by (auto simp: rows)
    then have "L + i * L \<le> k * L" using mult_le_mono1 [of "Suc i" k L] by simp
    then show ?thesis using i len by simp
  qed
  then show "\<exists>L. \<forall>row\<in>set (data_rows body k). length row = L" by blast
  have "concat (map (\<lambda>i. take L (drop (i * L) data)) [0..<m]) = take (m * L) data" for m
    by (induction m) (simp_all add: take_add [symmetric] add.commute)
  then have "concat (data_rows body k) = data" using len by (simp add: rows)
  then show "take (length body) (concat (data_rows body k)) = body" by (simp add: data_def)
qed

lemma mapE_Inr: "(\<And>x. x \<in> set xs \<Longrightarrow> f x = Inr (g x)) \<Longrightarrow> mapE f xs = Inr (map g xs)"
  by (induction xs) simp_all

text \<open>The shard of index \<open>i\<close>.\<close>

definition shard_of :: "bytes list \<Rightarrow> nat \<Rightarrow> bytes" where
  "shard_of rows i =
     map (\<lambda>p. byte_gf (\<Sum>j<length rows. vander_entry i j * gf_byte (rows ! j ! p))) [0..<length (hd rows)]"

lemma hd_row: "rows \<noteq> [] \<Longrightarrow> \<forall>row\<in>set rows. length row = L \<Longrightarrow> length (hd rows) = L"
  by (cases rows) auto

lemma sum_nth_map: "(\<Sum>x<k. map f [0..<k] ! x * g x) = (\<Sum>x<k. f x * g x)"
  by (intro sum.cong) simp_all

lemma rs_encode_shards:
  assumes k: "0 < k" "k \<le> n" "n \<le> 255"
  shows "rs_encode body k n = Inr (map (shard_of (data_rows body k)) [0..<n])"
proof -
  let ?rows = "data_rows body k"
  obtain L where L: "\<forall>row\<in>set ?rows. length row = L" using data_rows_facts(2) [OF k(1)] by blast
  have ne: "?rows \<noteq> []" using data_rows_facts(1) [OF k(1), of body] k(1) by auto
  let ?V = "map (\<lambda>i. map (vander_entry i) [0..<k]) [0..<n]"
  have "gf_combine (?V ! i) ?rows = Inr (shard_of ?rows i)" if "i < n" for i
    using gf_combine_eq [OF ne _ L, of "?V ! i"] hd_row [OF ne L] data_rows_facts(1) [OF k(1), of body] that
    by (simp add: shard_of_def sum_nth_map)
  then have "mapE (\<lambda>i. gf_combine (?V ! i) ?rows) [0..<n] = Inr (map (shard_of ?rows) [0..<n])"
    by (intro mapE_Inr) simp
  then show ?thesis using k by (simp add: rs_encode_def vandermonde_def)
qed

lemma rs_encode_eq:
  "rs_encode body k n = Inr shards \<longleftrightarrow>
     0 < k \<and> k \<le> n \<and> n \<le> 255 \<and> shards = map (shard_of (data_rows body k)) [0..<n]"
  using rs_encode_shards [of k n body] by (cases "0 < k \<and> k \<le> n \<and> n \<le> 255") (auto simp: rs_encode_def)

lemma solve_row:
  assumes inv: "mat_inv (map (\<lambda>i. map (vander_entry i) [0..<k]) idx) = Some m" and k: "length idx = k" "0 < k"
    and rows: "length rows = k" "\<forall>row\<in>set rows. length row = L" and r: "r < k"
  shows "gf_combine (m ! r) (map (shard_of rows) idx) = Inr (rows ! r)"
proof -
  let ?M = "map (\<lambda>i. map (vander_entry i) [0..<k]) idx"
  have sq: "\<forall>row\<in>set ?M. length row = length ?M" using k by auto
  have ne: "rows \<noteq> []" "idx \<noteq> []" using rows k by auto
  have sl: "\<forall>row\<in>set (map (shard_of rows) idx). length row = L" using hd_row [OF ne(1) rows(2)] by (auto simp: shard_of_def)
  have mr: "length (m ! r) = length (map (shard_of rows) idx)"
    using mat_inv_left(1,2) [OF sq inv] r k by simp
  have left: "(\<Sum>i<k. m ! r ! i * vander_entry (idx ! i) j) = (if r = j then 1 else 0)" if "j < k" for j
  proof -
    have "(\<Sum>i<k. m ! r ! i * ?M ! i ! j) = (if r = j then 1 else 0)"
      using mat_inv_left(3) [OF sq inv, of r j] r that k by simp
    moreover have "?M ! i ! j = vander_entry (idx ! i) j" if "i < k" for i using that \<open>j < k\<close> k by simp
    ultimately show ?thesis by simp
  qed
  have cell: "(\<Sum>i<k. m ! r ! i * gf_byte (shard_of rows (idx ! i) ! p)) = gf_byte (rows ! r ! p)" if p: "p < L" for p
  proof -
    have "(\<Sum>i<k. m ! r ! i * gf_byte (shard_of rows (idx ! i) ! p)) =
        (\<Sum>i<k. \<Sum>j<k. m ! r ! i * vander_entry (idx ! i) j * gf_byte (rows ! j ! p))"
      using p hd_row [OF ne(1) rows(2)] rows(1) by (simp add: shard_of_def sum_distrib_left mult.assoc)
    also have "\<dots> = (\<Sum>j<k. (\<Sum>i<k. m ! r ! i * vander_entry (idx ! i) j) * gf_byte (rows ! j ! p))"
      by (subst sum.swap) (simp add: sum_distrib_right)
    also have "\<dots> = (\<Sum>j<k. if j = r then gf_byte (rows ! j ! p) else 0)"
      using left by (intro sum.cong) auto
    also have "\<dots> = gf_byte (rows ! r ! p)" using r by (simp add: sum.delta)
    finally show ?thesis .
  qed
  have "(\<Sum>i<k. m ! r ! i * gf_byte (map (shard_of rows) idx ! i ! p)) =
      (\<Sum>i<k. m ! r ! i * gf_byte (shard_of rows (idx ! i) ! p))" for p
    using k(1) by (intro sum.cong) simp_all
  then have "gf_combine (m ! r) (map (shard_of rows) idx) =
      Inr (map (\<lambda>p. byte_gf (\<Sum>i<k. m ! r ! i * gf_byte (shard_of rows (idx ! i) ! p))) [0..<L])"
    using gf_combine_eq [OF _ mr sl] ne k by simp
  also have "\<dots> = Inr (map (\<lambda>p. rows ! r ! p) [0..<L])" using cell by simp
  also have "map (\<lambda>p. rows ! r ! p) [0..<L] = rows ! r"
    using rows r by (intro nth_equalityI) auto
  finally show ?thesis .
qed

lemma rs_roundtrip:
  assumes enc: "rs_encode body k n = Inr shards"
    and "distinct got" "\<forall>i\<in>set got. i < n" "k \<le> length got"
  shows "reconstruct (map (\<lambda>i. (i, shards ! i)) got) k (length body) = Inr body"
proof -
  let ?rows = "data_rows body k" and ?d = "map (\<lambda>i. (i, shards ! i)) got"
  from enc have k: "0 < k" "n \<le> 255" and sh: "shards = map (shard_of ?rows) [0..<n]" by (auto simp: rs_encode_eq)
  define idx where "idx = take k (sort got)"
  have idx: "length idx = k" "distinct idx" "set idx \<subseteq> set got"
    using assms(2,4) set_take_subset [of k "sort got"] by (auto simp: idx_def)
  have ne: "idx \<noteq> []" using idx(1) k(1) by auto
  have lt: "i < 255" "i < n" if "i \<in> set idx" for i using that idx(3) assms(3) k(2) by fastforce+
  have keys: "map fst ?d = got" by (simp add: comp_def)
  have mx: "Max (set idx) + 1 \<le> 255" using lt(1) ne by (simp add: Suc_le_eq)
  have V: "vandermonde (Max (set idx) + 1) k = Inr (map (\<lambda>i. map (vander_entry i) [0..<k]) [0..<Max (set idx) + 1])"
    using mx by (simp add: vandermonde_def del: upt_Suc)
  have sub: "map (\<lambda>i. map (\<lambda>i. map (vander_entry i) [0..<k]) [0..<Max (set idx) + 1] ! i) idx =
      map (\<lambda>i. map (vander_entry i) [0..<k]) idx"
    by (intro map_cong refl) (simp add: less_Suc_eq_le del: upt_Suc)
  have "trivial_kernel (map (\<lambda>i. map (vander_entry i) [0..<k]) idx)"
    using vander_kernel [OF idx(2)] lt(1) idx(1) by simp
  then obtain m where m: "mat_inv (map (\<lambda>i. map (vander_entry i) [0..<k]) idx) = Some m"
    using mat_inv_returns [of "map (\<lambda>i. map (vander_entry i) [0..<k]) idx"] idx(1) by auto
  have cols: "map (\<lambda>i. the (map_of ?d i)) idx = map (shard_of ?rows) idx"
    using idx(3) lt(2) sh by (intro map_cong refl) (auto simp: map_of_map_restrict)
  obtain L where L: "\<forall>row\<in>set ?rows. length row = L" using data_rows_facts(2) [OF k(1)] by blast
  have "mapE (\<lambda>r. gf_combine (m ! r) (map (shard_of ?rows) idx)) [0..<k] = Inr (map (\<lambda>r. ?rows ! r) [0..<k])"
    using solve_row [OF m idx(1) k(1) data_rows_facts(1) [OF k(1)] L] by (intro mapE_Inr) simp
  moreover have "map (\<lambda>r. ?rows ! r) [0..<k] = ?rows" using data_rows_facts(1) [OF k(1), of body] map_nth [of ?rows] by simp
  moreover have "\<not> length ?d < k" using assms(4) by simp
  ultimately show ?thesis
    by (simp only: reconstruct_def Let_def keys idx_def [symmetric] ne if_False V bindE_Inr sub m option.case cols
        data_rows_facts(3) [OF k(1)])
qed

subsection \<open>The blob\<close>

lemma disperse_facts:
  assumes "disperse P body k n = Inr b"
  shows "rs_encode body k n = Inr (db_shards b)" and "root P (db_shards b) = Inr (blob_root b)"
    and "length (db_shards b) = n" and "build P (db_shards b) = Inr (db_levels b)"
  using assms by (auto simp: disperse_def res_simps rs_encode_eq root_def blob_root_def)

lemma disperse_returns:
  assumes "0 < k" "k \<le> n" "n \<le> 255"
  shows "\<exists>b. disperse P body k n = Inr b"
  using rs_encode_shards [OF assms, of body] assms by (auto simp: disperse_def build_def)

lemma blob_open:
  assumes "disperse P body k n = Inr b" "i < n"
  shows "\<exists>pf. blob_proof b (int i) = Inr pf \<and> verify_shard P (db_shards b ! i) j pf (blob_root b)"
  using merkle_complete [of i "db_shards b" P j] disperse_facts [OF assms(1)] assms(2)
  by (auto simp: blob_proof_def verify_shard_def)

lemma sample_healthy:
  assumes "disperse P body k n = Inr b" "\<forall>i\<in>set picks. i < n \<and> map_of av i = Some (db_shards b ! i)"
  shows "sample_available P av b picks = Inr True"
  using assms(2)
proof (induction picks)
  case (Cons i picks)
  with blob_open [OF assms(1), of i "int i"] show ?case by auto
qed simp

lemma sample_sound:
  assumes "disperse P body k n = Inr b" "sample_available P av b picks = Inr True" "i \<in> set picks"
  shows "\<exists>s pf. map_of av i = Some s \<and>
     (s \<in> set (db_shards b) \<or> hash_broken P (tree_inputs P (db_shards b) \<union> path_inputs P s pf))"
  using assms(2,3)
proof (induction picks)
  case (Cons a picks)
  from Cons.prems(1) obtain s pf where s: "map_of av a = Some s" "verify_shard P s (int a) pf (blob_root b)"
    and rest: "sample_available P av b picks = Inr True"
    by (auto simp: res_simps split: option.splits if_splits)
  have "s \<in> set (db_shards b) \<or> hash_broken P (tree_inputs P (db_shards b) \<union> path_inputs P s pf)"
    using merkle_sound s(2) disperse_facts(2) [OF assms(1)] by (simp add: verify_shard_def)
  with s rest Cons show ?case by (cases "i = a") auto
qed simp

lemma reconstruct_few: "length shards < k \<Longrightarrow> reconstruct shards k l = Inl ValueError"
  by (simp add: reconstruct_def)

text \<open>Padding is not committed: a body and the body with one more zero byte may have the same shards.\<close>

lemma rs_encode_padding:
  assumes "length body mod k \<noteq> 0"
  shows "rs_encode (body @ [0]) k n = rs_encode body k n"
proof (cases "0 < k")
  case True
  then have lt: "length body mod k < k" by simp
  have "(k - Suc (length body) mod k) mod k = k - length body mod k - 1"
  proof (cases "Suc (length body mod k) = k")
    case True
    then have "Suc (length body) mod k = 0" by (simp add: mod_Suc)
    then show ?thesis using True by simp
  next
    case False
    then have "Suc (length body) mod k = Suc (length body mod k)" using lt by (simp add: mod_Suc)
    then show ?thesis using assms lt False by simp
  qed
  moreover have "(k - length body mod k) mod k = Suc (k - length body mod k - 1)"
    using assms Suc_diff_Suc [OF lt] by simp
  ultimately have "data_rows (body @ [0]) k = data_rows body k" by (simp add: data_rows_def Let_def)
  then show ?thesis by (simp add: rs_encode_def)
qed (simp add: rs_encode_def)

end
