(* ===== verification/Corpus.thy ===== *)
theory Corpus
  imports Erasure
begin

section \<open>Staked corpora (rig/corpus.py)\<close>

text \<open>
  A corpus is committed chunk by chunk: each chunk is dispersed like a delta body, and the Merkle root over the
  chunk roots is the availability commitment of the registry entry. The stream is the list of the
  results of its successive reads. The lemmas show that a corpus of at least one byte always gets a manifest whose
  size and chunk count agree, that every chunk of it verifies, and what a verified chunk is bound to.
\<close>

definition CHUNK_BYTES :: nat where "CHUNK_BYTES = 4 * 2 ^ 20"
definition CHUNK_K :: nat where "CHUNK_K = 4"
definition CHUNK_N :: nat where "CHUNK_N = 12"

definition chunk_count :: "int \<Rightarrow> int res" where
  "chunk_count size_bytes =
     (if size_bytes < 0 then Inl ValueError
      else if size_bytes = 0 then Inr 0
      else Inr ((size_bytes + int CHUNK_BYTES - 1) div int CHUNK_BYTES))"

definition chunk_root :: "prims \<Rightarrow> bytes \<Rightarrow> bytes res" where
  "chunk_root P chunk = bindE (disperse P chunk CHUNK_K CHUNK_N) (\<lambda>b. Inr (blob_root b))"

definition manifest_root :: "prims \<Rightarrow> bytes list \<Rightarrow> bytes res" where
  "manifest_root P chunk_roots = (if chunk_roots = [] then Inl ValueError else root P chunk_roots)"

record corpus_manifest =
  cm_data_hash :: string
  cm_size_bytes :: int
  cm_da_root :: string
  cm_chunk_roots :: "bytes list"

definition manifest_chunk_count :: "corpus_manifest \<Rightarrow> int" where
  "manifest_chunk_count m = int (length (cm_chunk_roots m))"

text \<open>The ingest loop: hashed bytes, size and roots so far.\<close>

fun ingest :: "prims \<Rightarrow> bytes list \<Rightarrow> bytes \<times> int \<times> bytes list \<Rightarrow> (bytes \<times> int \<times> bytes list) res" where
  "ingest P [] st = Inr st"
| "ingest P (chunk # reads) (sha, size1, roots) =
     (if chunk = [] then Inr (sha, size1, roots)
      else bindE (chunk_root P chunk) (\<lambda>r.
           ingest P reads (sha @ chunk, size1 + int (length chunk), roots @ [r])))"

definition corpus_build :: "prims \<Rightarrow> bytes list \<Rightarrow> int option \<Rightarrow> corpus_manifest res" where
  "corpus_build P reads size_hint =
     bindE (ingest P reads ([], 0, [])) (\<lambda>(sha, size1, roots).
     bindE (raise_if (case size_hint of None \<Rightarrow> False | Some h \<Rightarrow> h \<noteq> size1) ValueError) (\<lambda>_.
     bindE (if roots \<noteq> [] then bindE (chunk_count size1) (\<lambda>c. raise_if (c \<noteq> int (length roots)) ValueError)
            else Inr ()) (\<lambda>_.
     bindE (manifest_root P roots) (\<lambda>r.
     Inr \<lparr>cm_data_hash = sha_hex P sha, cm_size_bytes = size1, cm_da_root = hex r, cm_chunk_roots = roots\<rparr>))))"

definition verify_chunk :: "prims \<Rightarrow> bytes \<Rightarrow> int \<Rightarrow> bytes list \<Rightarrow> string \<Rightarrow> bool res" where
  "verify_chunk P chunk index chunk_roots da_root =
     (if index < 0 \<or> int (length chunk_roots) \<le> index then Inr False
      else bindE (chunk_root P chunk) (\<lambda>r.
           if r \<noteq> chunk_roots ! nat index then Inr False
           else bindE (manifest_root P chunk_roots) (\<lambda>m. Inr (hex m = da_root))))"

text \<open>The generator is an argument: \<open>rng i n\<close> is the result of the \<open>i\<close>th call of \<^verbatim>\<open>randrange(n)\<close>.\<close>

definition sample_plan :: "(nat \<Rightarrow> int \<Rightarrow> int) \<Rightarrow> int \<Rightarrow> int \<Rightarrow> int list" where
  "sample_plan rng n_chunks num_samples =
     (if n_chunks \<le> 0 then [] else map (\<lambda>i. rng i n_chunks) [0..<nat (min num_samples n_chunks)])"

subsection \<open>Reading a file\<close>

text \<open>The successive results of \<^verbatim>\<open>read(CHUNK_BYTES)\<close> on a file.\<close>

function file_reads :: "bytes \<Rightarrow> bytes list" where
  "file_reads data = (if data = [] then [] else take CHUNK_BYTES data # file_reads (drop CHUNK_BYTES data))"
  by pat_completeness auto
termination
  by (relation "measure length") (auto simp: CHUNK_BYTES_def)

declare file_reads.simps [simp del]

lemma chunk_root_returns: "\<exists>r. chunk_root P c = Inr r"
  using disperse_returns [of CHUNK_K CHUNK_N P c] by (auto simp: chunk_root_def CHUNK_K_def CHUNK_N_def)

lemma file_reads_count:
  "int (length (file_reads data)) = (int (length data) + int CHUNK_BYTES - 1) div int CHUNK_BYTES"
proof (induction data rule: file_reads.induct)
  case (1 data)
  have pos: "0 < int CHUNK_BYTES" by (simp add: CHUNK_BYTES_def)
  show ?case
  proof (cases "length data \<le> CHUNK_BYTES")
    case True
    show ?thesis
    proof (cases "data = []")
      case False
      have "file_reads data = [data]" using True False by (simp add: file_reads.simps [of data] file_reads.simps [of "[]"])
      moreover have "(int (length data) - 1 + int CHUNK_BYTES) div int CHUNK_BYTES = (int (length data) - 1) div int CHUNK_BYTES + 1"
        using pos by (simp only: div_add_self2)
      moreover have "(int (length data) - 1) div int CHUNK_BYTES = 0"
        using True False by (intro div_pos_pos_trivial) (auto simp: Suc_le_eq)
      ultimately show ?thesis by (simp add: algebra_simps)
    qed (use pos in \<open>simp add: file_reads.simps\<close>)
  next
    case False
    then have ne: "data \<noteq> []" by auto
    have "int (length data) + int CHUNK_BYTES - 1 = (int (length (drop CHUNK_BYTES data)) + int CHUNK_BYTES - 1) + int CHUNK_BYTES"
      using False by simp
    then have "(int (length data) + int CHUNK_BYTES - 1) div int CHUNK_BYTES =
        (int (length (drop CHUNK_BYTES data)) + int CHUNK_BYTES - 1) div int CHUNK_BYTES + 1"
      using pos by (simp only: div_add_self2)
    then show ?thesis using 1 [OF ne] ne by (simp add: file_reads.simps [of data])
  qed
qed

lemma ingest_file:
  "\<exists>rs. ingest P (file_reads data) (sha, n, roots) = Inr (sha @ data, n + int (length data), roots @ rs) \<and>
     length rs = length (file_reads data) \<and>
     (\<forall>i<length rs. chunk_root P (file_reads data ! i) = Inr (rs ! i))"
proof (induction data arbitrary: sha n roots rule: file_reads.induct)
  case (1 data)
  show ?case
  proof (cases "data = []")
    case False
    let ?c = "take CHUNK_BYTES data" and ?d = "drop CHUNK_BYTES data"
    have "?c \<noteq> []" using False by (simp add: CHUNK_BYTES_def)
    obtain r where r: "chunk_root P ?c = Inr r" using chunk_root_returns by blast
    from 1 [OF False, of "sha @ ?c" "n + int (length ?c)" "roots @ [r]"] obtain rs where
      rs: "ingest P (file_reads ?d) (sha @ ?c, n + int (length ?c), roots @ [r]) =
        Inr (sha @ data, n + int (length data), roots @ r # rs)"
        "length rs = length (file_reads ?d)" "\<forall>i<length rs. chunk_root P (file_reads ?d ! i) = Inr (rs ! i)"
      by (auto simp: min_def)
    show ?thesis
      using rs r \<open>?c \<noteq> []\<close> False
      by (intro exI [of _ "r # rs"]) (auto simp: file_reads.simps [of data] nth_Cons split: nat.splits)
  qed (simp add: file_reads.simps)
qed

lemma corpus_build_file:
  assumes "data \<noteq> []"
  shows "\<exists>m. corpus_build P (file_reads data) (Some (int (length data))) = Inr m \<and>
     cm_data_hash m = sha_hex P data \<and> cm_size_bytes m = int (length data) \<and>
     chunk_count (cm_size_bytes m) = Inr (manifest_chunk_count m) \<and>
     length (cm_chunk_roots m) = length (file_reads data) \<and>
     (\<forall>i<length (file_reads data). verify_chunk P (file_reads data ! i) (int i) (cm_chunk_roots m) (cm_da_root m) = Inr True)"
proof -
  from ingest_file [of P data "[]" 0 "[]"] obtain rs where
    rs: "ingest P (file_reads data) ([], 0, []) = Inr (data, int (length data), rs)"
      "length rs = length (file_reads data)" "\<forall>i<length rs. chunk_root P (file_reads data ! i) = Inr (rs ! i)"
    by auto
  have ne: "rs \<noteq> []" using rs(2) assms by (auto simp: file_reads.simps [of data])
  have cnt: "chunk_count (int (length data)) = Inr (int (length rs))"
    using file_reads_count [of data] rs(2) assms by (simp add: chunk_count_def)
  obtain r where r: "manifest_root P rs = Inr r" using ne by (auto simp: manifest_root_def root_def build_def)
  have "verify_chunk P (file_reads data ! i) (int i) rs (hex r) = Inr True" if "i < length rs" for i
    using that rs(3) r by (auto simp: verify_chunk_def)
  then show ?thesis
    using rs(1,2) ne cnt r by (simp add: corpus_build_def raise_if_def manifest_chunk_count_def)
qed

text \<open>A verified chunk has the committed root at that index, or the manifest tree collides.\<close>

lemma verify_chunk_sound:
  assumes "verify_chunk P c i roots da = Inr True" and "manifest_root P committed = Inr r" and "da = hex r"
    and "length roots = length committed"
  shows "0 \<le> i \<and> i < int (length committed) \<and>
    (chunk_root P c = Inr (committed ! nat i) \<or> hash_broken P (tree_inputs P roots \<union> tree_inputs P committed))"
proof -
  from assms(1) obtain m where i: "0 \<le> i" "i < int (length roots)" and c: "chunk_root P c = Inr (roots ! nat i)"
    and m: "manifest_root P roots = Inr m" "hex m = da"
    by (auto simp: verify_chunk_def res_simps split: if_splits)
  have "m = r" using m(2) assms(3) by (simp add: hex_inject)
  then have "roots = committed \<or> hash_broken P (tree_inputs P roots \<union> tree_inputs P committed)"
    using root_inj [of P roots r committed] m(1) assms(2,4) by (auto simp: manifest_root_def split: if_splits)
  then show ?thesis using i c assms(4) by auto
qed

text \<open>A trailing zero within the padding changes nothing.\<close>

lemma chunk_root_padding: "length c mod CHUNK_K \<noteq> 0 \<Longrightarrow> chunk_root P (c @ [0]) = chunk_root P c"
  using rs_encode_padding [of c CHUNK_K CHUNK_N] by (simp add: chunk_root_def disperse_def bindE_assoc blob_root_def)

end
