(* ===== verification/Json_Parse.thy ===== *)
theory Json_Parse
  imports Json
begin

section \<open>Reading JSON\<close>

text \<open>
  \<^verbatim>\<open>json.loads\<close> on the values the sources print: integers, strings, lists and dictionaries.
  The result is \<open>None\<close> for a text that is not JSON and for one outside that fragment (a float,
  \<^verbatim>\<open>true\<close>, \<^verbatim>\<open>false\<close>, \<^verbatim>\<open>null\<close> or an escape beyond \<^verbatim>\<open>\u00ff\<close>), which none of the writers
  produces. White space between tokens is skipped, a number ends where its digits end, and a
  repeated key keeps the last value. The recursion is bounded by fuel; every call consumes a
  character, so one more than the length of the text is enough. The main result is that
  reading inverts printing.
\<close>

subsection \<open>The reader\<close>

definition json_space :: "char \<Rightarrow> bool" where
  "json_space c \<longleftrightarrow> (of_char c :: nat) \<in> {32, 9, 10, 13}"

definition skip_ws :: "string \<Rightarrow> string" where
  "skip_ws s = dropWhile json_space s"

text \<open>The character after a backslash and what follows it.\<close>

fun unesc :: "string \<Rightarrow> (char \<times> string) option" where
  "unesc (e # r) =
     (if e = CHR 0x22 \<or> e = CHR 0x5C \<or> e = CHR ''/'' then Some (e, r)
      else if e = CHR ''n'' then Some (char_of (10 :: nat), r)
      else if e = CHR ''r'' then Some (char_of (13 :: nat), r)
      else if e = CHR ''t'' then Some (char_of (9 :: nat), r)
      else if e = CHR ''b'' then Some (char_of (8 :: nat), r)
      else if e = CHR ''f'' then Some (char_of (12 :: nat), r)
      else if e = CHR ''u'' then
        (case r of
           a # b # c # d # r' \<Rightarrow>
             (case (hex_val a, hex_val b, hex_val c, hex_val d) of
                (Some 0, Some 0, Some x, Some y) \<Rightarrow> Some (char_of (16 * x + y), r')
              | _ \<Rightarrow> None)
         | _ \<Rightarrow> None)
      else None)"
| "unesc [] = None"

lemma unesc_length: "unesc r = Some (c, r') \<Longrightarrow> length r' < length r"
  by (cases r) (auto split: if_splits list.splits option.splits nat.splits)

function read_string :: "string \<Rightarrow> (string \<times> string) option" where
  "read_string [] = None"
| "read_string (c # r) =
     (if c = CHR 0x22 then Some ([], r)
      else if c = CHR 0x5C then
        (case unesc r of
           None \<Rightarrow> None
         | Some (d, r') \<Rightarrow> map_option (apfst (Cons d)) (read_string r'))
      else if (of_char c :: nat) < 32 then None
      else map_option (apfst (Cons c)) (read_string r))"
  by pat_completeness auto
termination
  by (relation "measure length") (auto dest: unesc_length)

definition read_int :: "string \<Rightarrow> (json \<times> string) option" where
  "read_int s =
     (let (neg, t) = (case s of c # r \<Rightarrow> if c = CHR ''-'' then (True, r) else (False, s) | [] \<Rightarrow> (False, s));
          ds = (case t of c # _ \<Rightarrow> if c = CHR ''0'' then ''0'' else takeWhile is_digit t | [] \<Rightarrow> []);
          n = int (dec_val ds)
      in if ds = [] then None else Some (JInt (if neg then - n else n), drop (length ds) t))"

fun read_value :: "nat \<Rightarrow> string \<Rightarrow> (json \<times> string) option"
  and read_items :: "nat \<Rightarrow> json list \<Rightarrow> string \<Rightarrow> (json \<times> string) option"
  and read_pairs :: "nat \<Rightarrow> (string, json) dict \<Rightarrow> string \<Rightarrow> (json \<times> string) option" where
  "read_value 0 s = None"
| "read_value (Suc n) s =
     (case s of
        [] \<Rightarrow> None
      | c # r \<Rightarrow>
          if c = CHR 0x22 then map_option (apfst JStr) (read_string r)
          else if c = CHR ''['' then
            (case skip_ws r of
               [] \<Rightarrow> None
             | d # r' \<Rightarrow> if d = CHR '']'' then Some (JList [], r') else read_items n [] (d # r'))
          else if c = CHR ''{'' then
            (case skip_ws r of
               [] \<Rightarrow> None
             | d # r' \<Rightarrow> if d = CHR ''}'' then Some (JObj [], r') else read_pairs n [] (d # r'))
          else read_int s)"
| "read_items 0 acc s = None"
| "read_items (Suc n) acc s =
     (case read_value n s of
        None \<Rightarrow> None
      | Some (v, r) \<Rightarrow>
          (case skip_ws r of
             [] \<Rightarrow> None
           | d # r' \<Rightarrow>
               if d = CHR '']'' then Some (JList (acc @ [v]), r')
               else if d = CHR '','' then read_items n (acc @ [v]) (skip_ws r')
               else None))"
| "read_pairs 0 acc s = None"
| "read_pairs (Suc n) acc s =
     (case s of
        [] \<Rightarrow> None
      | q # t \<Rightarrow>
          if q \<noteq> CHR 0x22 then None
          else case read_string t of
            None \<Rightarrow> None
          | Some (k, u) \<Rightarrow>
              (case skip_ws u of
                 [] \<Rightarrow> None
               | col # w \<Rightarrow>
                   if col \<noteq> CHR '':'' then None
                   else case read_value n (skip_ws w) of
                     None \<Rightarrow> None
                   | Some (v, r) \<Rightarrow>
                       (case skip_ws r of
                          [] \<Rightarrow> None
                        | d # r' \<Rightarrow>
                            if d = CHR ''}'' then Some (JObj (AList.update k v acc), r')
                            else if d = CHR '','' then read_pairs n (AList.update k v acc) (skip_ws r')
                            else None)))"

definition loads :: "string \<Rightarrow> json option" where
  "loads s =
     (case read_value (Suc (length s)) (skip_ws s) of
        None \<Rightarrow> None
      | Some (v, r) \<Rightarrow> if skip_ws r = [] then Some v else None)"

text \<open>\<^verbatim>\<open>v[k]\<close> on a parsed value: the value of a key, or the exception.\<close>

definition json_get :: "json \<Rightarrow> string \<Rightarrow> json res" where
  "json_get v k =
     (case v of
        JObj kvs \<Rightarrow> (case map_of kvs k of None \<Rightarrow> Inl KeyError | Some x \<Rightarrow> Inr x)
      | _ \<Rightarrow> Inl TypeError)"

subsection \<open>Strings and numbers\<close>

lemma hex_val_digit: "k < 16 \<Longrightarrow> hex_val (hex_digits ! k) = Some k"
proof -
  have "list_all (\<lambda>k. hex_val (hex_digits ! k) = Some k) [0..<16]" by code_simp
  then show "k < 16 \<Longrightarrow> ?thesis" by (simp add: list_all_iff)
qed

lemma unesc_hex:
  assumes "n < 256"
  shows "unesc (CHR ''u'' # CHR ''0'' # CHR ''0'' # hex_byte (of_nat n) @ r) = Some (char_of n, r)"
proof -
  have "unat (of_nat n :: byte) = n" using assms by (simp add: unat_of_nat)
  moreover have "hex_val (hex_digits ! (n div 16)) = Some (n div 16)" "hex_val (hex_digits ! (n mod 16)) = Some (n mod 16)"
    using assms by (simp_all add: hex_val_digit)
  moreover have "hex_val CHR ''0'' = Some 0" by (simp add: hex_val_def)
  ultimately show ?thesis by (simp add: hex_byte_def)
qed

lemma unesc_named:
  "unesc (CHR 0x22 # r) = Some (CHR 0x22, r)" "unesc (CHR 0x5C # r) = Some (CHR 0x5C, r)"
  "unesc (CHR ''n'' # r) = Some (char_of (10 :: nat), r)" "unesc (CHR ''r'' # r) = Some (char_of (13 :: nat), r)"
  "unesc (CHR ''t'' # r) = Some (char_of (9 :: nat), r)" "unesc (CHR ''b'' # r) = Some (char_of (8 :: nat), r)"
  "unesc (CHR ''f'' # r) = Some (char_of (12 :: nat), r)"
  by simp_all

lemma read_string_esc: "read_string (esc c @ r) = map_option (apfst (Cons c)) (read_string r)"
proof -
  define n where "n = (of_char c :: nat)"
  have c: "c = char_of n" by (simp add: n_def)
  have u: "unesc (CHR ''u'' # CHR ''0'' # CHR ''0'' # hex_byte (of_nat n) @ r) = Some (c, r)"
    using unesc_hex [OF char_nat_lt [of c], of r] by (simp only: n_def char_of_char)
  consider "c = CHR 0x22" | "c = CHR 0x5C" | "n \<in> {10, 13, 9, 8, 12}"
    | "c \<noteq> CHR 0x22" "c \<noteq> CHR 0x5C" "n \<notin> {10, 13, 9, 8, 12}" by blast
  then show ?thesis
  proof cases
    case 3
    then have "c \<in> {char_of (10 :: nat), char_of (13 :: nat), char_of (9 :: nat), char_of (8 :: nat), char_of (12 :: nat)}"
      by (auto simp: c simp del: char_of_nat)
    then show ?thesis by (auto simp: esc_def unesc_named simp del: unesc.simps)
  next
    case 4
    then show ?thesis
      using u by (cases "n < 32 \<or> 126 < n") (auto simp: esc_def n_def [symmetric] simp del: unesc.simps)
  qed (simp_all add: esc_def unesc_named del: unesc.simps)
qed

lemma read_string_printed: "read_string (concat (map esc s) @ CHR 0x22 # r) = Some (s, r)"
  by (induction s) (simp_all add: read_string_esc)

lemma nat_str_head: "0 < n \<Longrightarrow> hd (nat_str n) \<noteq> CHR ''0''"
proof (induction n rule: nat_str.induct)
  case (1 n)
  show ?case
  proof (cases "n < 10")
    case True
    have "(of_char (digit_char n) :: nat) \<noteq> of_char CHR ''0''" using True 1(2) by (simp add: of_char_digit)
    then have "digit_char n \<noteq> CHR ''0''" by metis
    then show ?thesis using True by (simp add: nat_str.simps [of n])
  next
    case False
    then show ?thesis using 1 by (simp add: nat_str.simps [of n])
  qed
qed

lemma digits_of_nat_str:
  assumes "stops r"
  shows "(case nat_str n @ r of c # _ \<Rightarrow> if c = CHR ''0'' then ''0'' else takeWhile is_digit (nat_str n @ r) | [] \<Rightarrow> []) = nat_str n"
proof (cases "n = 0")
  case True
  have "char_of (48 :: nat) = CHR ''0''" by code_simp
  with True have "nat_str n = ''0''" by (simp add: nat_str.simps [of 0] digit_char_def)
  then show ?thesis by simp
next
  case False
  obtain c cs where c: "nat_str n = c # cs" using nat_str_neq_Nil [of n] by (cases "nat_str n") auto
  then have "c \<noteq> CHR ''0''" using nat_str_head [of n] False by simp
  then show ?thesis using takeWhile_nat_str [OF assms, of n] by (simp add: c)
qed

lemma read_int_printed:
  assumes "stops r"
  shows "read_int (int_str i @ r) = Some (JInt i, r)"
proof -
  obtain c cs where c: "nat_str (nat i) = c # cs" "is_digit c" using nat_str_Cons_digit by blast
  have "c \<noteq> CHR ''-''" using c(2) by auto
  then have pos: "(case nat_str (nat i) @ r of c # t \<Rightarrow> if c = CHR ''-'' then (True, t) else (False, nat_str (nat i) @ r)
      | [] \<Rightarrow> (False, nat_str (nat i) @ r)) = (False, nat_str (nat i) @ r)"
    by (simp add: c(1))
  note d = digits_of_nat_str [OF assms]
  show ?thesis
  proof (cases "i < 0")
    case True
    then show ?thesis
      using d [of "nat (- i)"] by (simp add: read_int_def int_str_def Let_def dec_val_nat_str)
  next
    case False
    then show ?thesis
      using d [of "nat i"] by (simp add: read_int_def int_str_def pos Let_def dec_val_nat_str)
  qed
qed

subsection \<open>Reading inverts printing\<close>

text \<open>Dictionaries have distinct keys, at every depth.\<close>

fun json_wf :: "json \<Rightarrow> bool" where
  "json_wf (JInt i) = True"
| "json_wf (JStr s) = True"
| "json_wf (JList xs) = (\<forall>x\<in>set xs. json_wf x)"
| "json_wf (JObj kvs) = (distinct (map fst kvs) \<and> (\<forall>(k, v)\<in>set kvs. json_wf v))"

fun weight :: "json \<Rightarrow> nat" where
  "weight (JInt i) = 1"
| "weight (JStr s) = 1"
| "weight (JList xs) = Suc (\<Sum>x\<leftarrow>xs. Suc (weight x))"
| "weight (JObj kvs) = Suc (\<Sum>(k, v)\<leftarrow>kvs. Suc (weight v))"

lemma skip_ws_stay: "\<not> json_space c \<Longrightarrow> skip_ws (c # r) = c # r"
  by (simp add: skip_ws_def)

lemma skip_ws_append: "list_all json_space w \<Longrightarrow> skip_ws (w @ r) = skip_ws r"
  by (simp add: skip_ws_def list_all_iff dropWhile_append1 dropWhile_append2)

lemma print_json_Cons: "\<exists>c cs. print_json isep ksep v = c # cs \<and> \<not> json_space c"
proof (cases v)
  case (JInt i)
  obtain c cs where "int_str i = c # cs" "is_digit c \<or> c = CHR ''-''"
    using nat_str_Cons_digit [of "nat i"] by (cases "i < 0") (auto simp: int_str_def)
  then show ?thesis by (auto simp: JInt is_digit_def json_space_def)
qed (auto simp: json_string_def json_space_def)

lemma skip_ws_print: "skip_ws (print_json isep ksep v @ r) = print_json isep ksep v @ r"
  using print_json_Cons [of isep ksep v] by (auto simp: skip_ws_stay)

lemma read_items_printed:
  assumes "isep = CHR '','' # w" "list_all json_space w"
  shows "\<lbrakk>xs \<noteq> []; \<forall>x\<in>set xs. \<forall>m r. weight x \<le> m \<and> stops r \<longrightarrow> read_value m (print_json isep ksep x @ r) = Some (x, r);
     (\<Sum>x\<leftarrow>xs. Suc (weight x)) \<le> n\<rbrakk> \<Longrightarrow>
     read_items n acc (join isep (map (print_json isep ksep) xs) @ CHR '']'' # r) = Some (JList (acc @ xs), r)"
proof (induction xs arbitrary: n acc)
  case (Cons x xs)
  then obtain m where n: "n = Suc m" "weight x \<le> m" by (cases n) auto
  have comma: "stops (CHR '','' # t)" and brack: "stops (CHR '']'' # t)" for t by (simp_all add: is_digit_def)
  have sp: "skip_ws (CHR '','' # t) = CHR '','' # t" "skip_ws (CHR '']'' # t) = CHR '']'' # t" for t
    by (simp_all add: skip_ws_stay json_space_def)
  have here: "stops t \<Longrightarrow> read_value m (print_json isep ksep x @ t) = Some (x, t)" for t
    using Cons.prems(2) n(2) by simp
  show ?case
  proof (cases xs)
    case Nil
    then show ?thesis using here [OF brack, of r] by (simp add: n sp)
  next
    case (Cons y ys)
    let ?rest = "join isep (map (print_json isep ksep) xs) @ CHR '']'' # r"
    have ih: "read_items m (acc @ [x]) ?rest = Some (JList ((acc @ [x]) @ xs), r)"
      using Cons.IH [of m "acc @ [x]"] Cons.prems n Cons by simp
    obtain t where t: "?rest = print_json isep ksep y @ t" by (simp add: Cons join_Cons)
    have "skip_ws (w @ ?rest) = ?rest" using assms(2) by (simp only: skip_ws_append t skip_ws_print)
    moreover have "join isep (map (print_json isep ksep) (x # xs)) @ CHR '']'' # r =
        print_json isep ksep x @ CHR '','' # w @ ?rest"
      by (simp add: Cons assms(1))
    ultimately show ?thesis using here [OF comma, of "w @ ?rest"] ih by (simp add: n sp)
  qed
qed simp

lemma alist_update_fresh: "k \<notin> fst ` set d \<Longrightarrow> AList.update k v d = d @ [(k, v)]"
  by (induction d) auto

lemma read_pairs_printed:
  assumes "isep = CHR '','' # w" "list_all json_space w" and "ksep = CHR '':'' # u" "list_all json_space u"
  defines "pr \<equiv> \<lambda>(k, v). json_string k @ ksep @ print_json isep ksep v"
  shows "\<lbrakk>kvs \<noteq> []; \<forall>(k, v)\<in>set kvs. \<forall>m r. weight v \<le> m \<and> stops r \<longrightarrow> read_value m (print_json isep ksep v @ r) = Some (v, r);
     (\<Sum>(k, v)\<leftarrow>kvs. Suc (weight v)) \<le> n; distinct (map fst kvs); fst ` set kvs \<inter> fst ` set acc = {}\<rbrakk> \<Longrightarrow>
     read_pairs n acc (join isep (map pr kvs) @ CHR ''}'' # r) = Some (JObj (acc @ kvs), r)"
proof (induction kvs arbitrary: n acc)
  case (Cons kv kvs)
  obtain k v where kv: "kv = (k, v)" by (cases kv)
  with Cons.prems obtain m where n: "n = Suc m" "weight v \<le> m" by (cases n) auto
  have fresh: "AList.update k v acc = acc @ [(k, v)]" using Cons.prems(5) by (intro alist_update_fresh) (auto simp: kv)
  have comma: "stops (CHR '','' # t)" and brace: "stops (CHR ''}'' # t)" for t by (simp_all add: is_digit_def)
  have sp: "skip_ws (CHR '','' # t) = CHR '','' # t" "skip_ws (CHR ''}'' # t) = CHR ''}'' # t"
    "skip_ws (CHR '':'' # t) = CHR '':'' # t" for t by (simp_all add: skip_ws_stay json_space_def)
  have here: "stops t \<Longrightarrow> read_value m (print_json isep ksep v @ t) = Some (v, t)" for t
    using Cons.prems(2) n(2) by (simp add: kv)
  have key: "read_string (concat (map esc k) @ CHR 0x22 # t) = Some (k, t)" for t by (rule read_string_printed)
  have col: "skip_ws (u @ print_json isep ksep v @ t) = print_json isep ksep v @ t" for t
    using assms(4) by (simp only: skip_ws_append skip_ws_print)
  have head: "pr kv @ t = CHR 0x22 # concat (map esc k) @ CHR 0x22 # CHR '':'' # u @ print_json isep ksep v @ t" for t
    by (simp add: pr_def kv json_string_def assms(3))
  show ?case
  proof (cases kvs)
    case Nil
    then show ?thesis using here [OF brace, of r] head [of "CHR ''}'' # r"] by (simp add: n sp key col fresh kv)
  next
    case (Cons y ys)
    let ?rest = "join isep (map pr kvs) @ CHR ''}'' # r"
    have ih: "read_pairs m (acc @ [(k, v)]) ?rest = Some (JObj ((acc @ [(k, v)]) @ kvs), r)"
    proof (rule Cons.IH)
      show "kvs \<noteq> []" by (simp add: Cons)
      show "fst ` set kvs \<inter> fst ` set (acc @ [(k, v)]) = {}" using Cons.prems(4,5) by (auto simp: kv)
    qed (use Cons.prems n in \<open>auto simp: kv\<close>)
    obtain t where t: "?rest = CHR 0x22 # t" by (cases y) (simp add: Cons join_Cons pr_def json_string_def)
    have "skip_ws (w @ ?rest) = ?rest"
      unfolding t using assms(2) by (simp add: skip_ws_append skip_ws_stay json_space_def)
    moreover have "join isep (map pr (kv # kvs)) @ CHR ''}'' # r = pr kv @ CHR '','' # w @ ?rest"
      by (simp add: Cons assms(1))
    ultimately show ?thesis using here [OF comma, of "w @ ?rest"] ih head [of "CHR '','' # w @ ?rest"]
      by (simp add: n sp key col fresh kv)
  qed
qed simp

lemma read_value_printed:
  assumes "isep = CHR '','' # w" "list_all json_space w" and "ksep = CHR '':'' # u" "list_all json_space u"
  shows "json_wf v \<Longrightarrow> weight v \<le> n \<Longrightarrow> stops r \<Longrightarrow> read_value n (print_json isep ksep v @ r) = Some (v, r)"
proof (induction v arbitrary: n r)
  case (JInt i)
  then obtain m where n: "n = Suc m" by (cases n) auto
  obtain c cs where "int_str i = c # cs" "is_digit c \<or> c = CHR ''-''"
    using nat_str_Cons_digit [of "nat i"] by (cases "i < 0") (auto simp: int_str_def)
  then show ?case using read_int_printed [OF JInt.prems(3), of i] by (auto simp: n is_digit_def)
next
  case (JStr s)
  then obtain m where n: "n = Suc m" by (cases n) auto
  show ?case by (simp add: n json_string_def read_string_printed)
next
  case (JList xs)
  then obtain m where n: "n = Suc m" "(\<Sum>x\<leftarrow>xs. Suc (weight x)) \<le> m" by (cases n) auto
  show ?case
  proof (cases xs)
    case Nil
    then show ?thesis by (simp add: n skip_ws_stay json_space_def)
  next
    case (Cons x ys)
    have "\<forall>x\<in>set xs. \<forall>m r. weight x \<le> m \<and> stops r \<longrightarrow> read_value m (print_json isep ksep x @ r) = Some (x, r)"
      using JList by auto
    with n(2) Cons have rd: "read_items m [] (join isep (map (print_json isep ksep) xs) @ CHR '']'' # r) = Some (JList xs, r)"
      using read_items_printed [OF assms(1,2), of xs ksep m "[]" r] by simp
    obtain t where t: "join isep (map (print_json isep ksep) xs) @ CHR '']'' # r = print_json isep ksep x @ t"
      by (simp add: Cons join_Cons)
    obtain c cs where c: "print_json isep ksep x = c # cs" "\<not> json_space c" using print_json_Cons by blast
    have "c \<noteq> CHR '']''" using print_json_not_bracket [of isep ksep x "[]" cs] c(1) by auto
    with rd t c show ?thesis by (simp add: n skip_ws_stay)
  qed
next
  case (JObj kvs)
  then obtain m where n: "n = Suc m" "(\<Sum>(k, v)\<leftarrow>kvs. Suc (weight v)) \<le> m" by (cases n) auto
  let ?pr = "\<lambda>(k, v). json_string k @ ksep @ print_json isep ksep v"
  show ?case
  proof (cases kvs)
    case Nil
    then show ?thesis by (simp add: n skip_ws_stay json_space_def)
  next
    case (Cons x ys)
    have "read_value m (print_json isep ksep v @ r) = Some (v, r)" if "(k, v) \<in> set kvs" "weight v \<le> m" "stops r" for k v m r
    proof (rule JObj.IH [OF that(1) _ _ that(2,3)])
      show "v \<in> Basic_BNFs.snds (k, v)" by (simp add: snds.simps)
      show "json_wf v" using JObj.prems(1) that(1) by auto
    qed
    then have "\<forall>(k, v)\<in>set kvs. \<forall>m r. weight v \<le> m \<and> stops r \<longrightarrow> read_value m (print_json isep ksep v @ r) = Some (v, r)"
      by blast
    with n(2) Cons JObj.prems(1) have rd: "read_pairs m [] (join isep (map ?pr kvs) @ CHR ''}'' # r) = Some (JObj kvs, r)"
      using read_pairs_printed [OF assms, of kvs m "[]" r] by simp
    obtain t where t: "join isep (map ?pr kvs) @ CHR ''}'' # r = CHR 0x22 # t"
      by (cases x) (simp add: Cons join_Cons json_string_def)
    with rd show ?thesis by (simp add: n skip_ws_stay json_space_def)
  qed
qed

text \<open>The fuel of \<open>loads\<close> is enough.\<close>

lemma length_join: "xs \<noteq> [] \<Longrightarrow> Suc (length (join (c # w) xs)) \<ge> (\<Sum>x\<leftarrow>xs. Suc (length x))"
  by (induction xs rule: induct_list012) auto

lemma weight_le: "weight v \<le> length (print_json (c # w) ksep v)"
proof (induction v)
  case (JInt i)
  then show ?case using nat_str_neq_Nil by (auto simp: int_str_def Suc_le_eq)
next
  case (JList xs)
  then have "(\<Sum>x\<leftarrow>xs. Suc (weight x)) \<le> (\<Sum>x\<leftarrow>map (print_json (c # w) ksep) xs. Suc (length x))"
    by (auto intro: sum_list_mono simp: o_def)
  with length_join [of "map (print_json (c # w) ksep) xs" c w] show ?case by (cases xs) auto
next
  case (JObj kvs)
  let ?pr = "\<lambda>(k, v). json_string k @ ksep @ print_json (c # w) ksep v"
  have "weight v \<le> length (?pr (k, v))" if "(k, v) \<in> set kvs" for k v
    using JObj.IH [OF that, of v] by (simp add: snds.simps)
  then have "(\<Sum>(k, v)\<leftarrow>kvs. Suc (weight v)) \<le> (\<Sum>x\<leftarrow>map ?pr kvs. Suc (length x))"
    by (auto intro!: sum_list_mono simp: o_def simp del: length_append)
  with length_join [of "map ?pr kvs" c w] show ?case by (cases kvs) auto
qed (simp add: json_string_def)

lemma loads_print:
  assumes "list_all json_space w" "list_all json_space u" "json_wf v"
  shows "loads (print_json (CHR '','' # w) (CHR '':'' # u) v) = Some v"
proof -
  let ?s = "print_json (CHR '','' # w) (CHR '':'' # u) v"
  have "read_value (Suc (length ?s)) (?s @ []) = Some (v, [])"
    using weight_le [of v "CHR '',''" w "CHR '':'' # u"] assms
    by (intro read_value_printed [OF refl assms(1) refl assms(2)]) auto
  then show ?thesis using skip_ws_print [of _ _ v "[]"] by (simp add: loads_def skip_ws_def)
qed

lemma canon_wf: "json_wf v \<Longrightarrow> json_wf (canon v)"
proof (induction v)
  case (JObj kvs)
  have "map fst (map (\<lambda>(k, v). (k, canon v)) kvs) = map fst kvs" by (simp add: o_def case_prod_beta)
  then have "distinct (map fst (map (\<lambda>(k, v). (k, canon v)) kvs))" using JObj.prems by (simp only: json_wf.simps)
  then have "distinct (map fst (sort_key fst (map (\<lambda>(k, v). (k, canon v)) kvs)))"
    by (rule mset_eq_imp_distinct_iff [THEN iffD1, rotated]) (simp only: mset_map mset_sort)
  moreover have "json_wf (canon v)" if "(k, v) \<in> set kvs" for k v
    using JObj.IH [OF that, of v] JObj.prems that by (auto simp: snds.simps)
  ultimately show ?case by auto
qed auto

lemma loads_dumps_compact: "json_wf v \<Longrightarrow> loads (dumps_compact v) = Some (canon v)"
  using loads_print [of "[]" "[]" "canon v"] by (simp add: dumps_compact_def canon_wf)

lemma loads_dumps_default: "json_wf v \<Longrightarrow> loads (dumps_default v) = Some (canon v)"
  using loads_print [of "'' ''" "'' ''" "canon v"] by (simp add: dumps_default_def canon_wf json_space_def)

end
