(* ===== verification/Storage.thy ===== *)
theory Storage
  imports Chain Json_Parse
begin

section \<open>The chain on disk (rig/storage.py)\<close>

text \<open>
  \<^verbatim>\<open>ChainStore\<close> keeps a chain directory: the genesis weights, one JSON line per block, one
  file per delta body and a checkpoint of the weights every \<^verbatim>\<open>k\<close> blocks. A directory is a
  record: the optional genesis file, the lines of \<^verbatim>\<open>blocks.jsonl\<close> (\<open>None\<close>: no such
  file), the delta files by height and position, the checkpoints by height. \<^verbatim>\<open>np.save\<close> and
  \<^verbatim>\<open>np.load\<close> of an int64 vector store and return it. The theory shows that a directory
  written by \<^verbatim>\<open>persist_chain\<close> represents the chain: both sync tiers end on the live weights and
  \<^verbatim>\<open>load_chain\<close> gives the chain back.
\<close>

record chain_store =
  cs_k :: int
  cs_genesis :: "weights option"
  cs_lines :: "string list option"
  cs_deltas :: "(nat \<times> nat, weights) dict"
  cs_ckpts :: "(nat, weights) dict"

definition new_store :: "int \<Rightarrow> chain_store" where
  "new_store k = \<lparr>cs_k = k, cs_genesis = None, cs_lines = None, cs_deltas = [], cs_ckpts = []\<rparr>"

subsection \<open>Writing\<close>

definition init_genesis :: "weights \<Rightarrow> chain_store \<Rightarrow> chain_store" where
  "init_genesis w0 s = s\<lparr>cs_genesis := Some w0, cs_lines := Some []\<rparr>"

text \<open>The record of one block, and the line \<^verbatim>\<open>json.dumps(rec)\<close> writes (keys as inserted).\<close>

definition block_rec :: "prims \<Rightarrow> nat \<Rightarrow> weights list \<Rightarrow> int list \<Rightarrow> string \<Rightarrow> json" where
  "block_rec P height deltas_int miner_ids rt =
     JObj [(''height'', JInt (int height)), (''root'', JStr rt), (''miner_ids'', JList (map JInt miner_ids)),
           (''delta_hashes'', JList (map (\<lambda>d. JStr (sha_hex P (tobytes d))) deltas_int)),
           (''n'', JInt (int (length deltas_int)))]"

definition rec_line :: "json \<Rightarrow> string" where
  "rec_line v = print_json '', '' '': '' v"

definition append_block ::
  "prims \<Rightarrow> nat \<Rightarrow> weights list \<Rightarrow> int list \<Rightarrow> string \<Rightarrow> weights \<Rightarrow> chain_store \<Rightarrow> chain_store res" where
  "append_block P height deltas_int miner_ids rt w s =
     (let s = s\<lparr>cs_deltas := fold (\<lambda>(j, d). AList.update (height, j) d) (List.enumerate 0 deltas_int) (cs_deltas s)\<rparr>;
          line = rec_line (block_rec P height deltas_int miner_ids rt);
          s = s\<lparr>cs_lines := Some ((case cs_lines s of None \<Rightarrow> [] | Some ls \<Rightarrow> ls) @ [line])\<rparr>
      in if cs_k s = 0 then Inl ZeroDivisionError
         else if int height mod cs_k s = 0 then Inr (s\<lparr>cs_ckpts := AList.update height w (cs_ckpts s)\<rparr>)
         else Inr s)"

definition persist_step :: "prims \<Rightarrow> chain_block \<Rightarrow> weights \<times> chain_store \<Rightarrow> (weights \<times> chain_store) res" where
  "persist_step P b st =
     (let (w, s) = st
      in bindE (outer_step w (cb_deltas b)) (\<lambda>w.
         bindE (append_block P (cb_height b) (cb_deltas b) (cb_miner_ids b) (cb_root b) w s) (\<lambda>s.
         Inr (w, s))))"

definition persist_chain :: "prims \<Rightarrow> chain \<Rightarrow> chain_store \<Rightarrow> chain_store res" where
  "persist_chain P c s =
     bindE (foldE (persist_step P) (chain_blocks c) (genesis_int c, init_genesis (genesis_int c) s)) (\<lambda>(w, s). Inr s)"

subsection \<open>Reading\<close>

definition py_space :: "char \<Rightarrow> bool" where
  "py_space c \<longleftrightarrow> (of_char c :: nat) \<in> {9..13} \<union> {28..32} \<union> {133, 160}"

definition strip :: "string \<Rightarrow> string" where
  "strip s = rev (dropWhile py_space (rev (dropWhile py_space s)))"

fun parse_lines :: "string list \<Rightarrow> json list res" where
  "parse_lines [] = Inr []"
| "parse_lines (l # ls) =
     (let l = strip l
      in if l = [] then parse_lines ls
         else case loads l of
                None \<Rightarrow> Inl ValueError
              | Some v \<Rightarrow> bindE (parse_lines ls) (\<lambda>vs. Inr (v # vs)))"

definition read_blocks :: "chain_store \<Rightarrow> json list res" where
  "read_blocks s = (case cs_lines s of None \<Rightarrow> Inl FileNotFoundError | Some ls \<Rightarrow> parse_lines ls)"

text \<open>The fields of a parsed record, at the types \<open>block_rec\<close> writes.\<close>

definition rec_nat :: "json \<Rightarrow> string \<Rightarrow> nat res" where
  "rec_nat v k = bindE (json_get v k) (\<lambda>x. case x of JInt i \<Rightarrow> Inr (nat i) | _ \<Rightarrow> Inl TypeError)"

definition rec_str :: "json \<Rightarrow> string \<Rightarrow> string res" where
  "rec_str v k = bindE (json_get v k) (\<lambda>x. case x of JStr t \<Rightarrow> Inr t | _ \<Rightarrow> Inl TypeError)"

definition rec_ints :: "json \<Rightarrow> string \<Rightarrow> int list res" where
  "rec_ints v k = bindE (json_get v k) (\<lambda>x. case x of
     JList xs \<Rightarrow> mapE (\<lambda>y. case y of JInt i \<Rightarrow> Inr i | _ \<Rightarrow> Inl TypeError) xs | _ \<Rightarrow> Inl TypeError)"

definition load_deltas :: "chain_store \<Rightarrow> nat \<Rightarrow> nat \<Rightarrow> weights list res" where
  "load_deltas s height n =
     mapE (\<lambda>j. case map_of (cs_deltas s) (height, j) of None \<Rightarrow> Inl FileNotFoundError | Some d \<Rightarrow> Inr d) [0..<n]"

definition store_height :: "chain_store \<Rightarrow> nat res" where
  "store_height s = bindE (read_blocks s) (\<lambda>recs. Inr (length recs))"

definition load_genesis :: "chain_store \<Rightarrow> weights res" where
  "load_genesis s = (case cs_genesis s of None \<Rightarrow> Inl FileNotFoundError | Some w \<Rightarrow> Inr w)"

text \<open>\<^verbatim>\<open>w + trimmed_mean_int(deltas)\<close> for a record with deltas.\<close>

definition replay_rec :: "chain_store \<Rightarrow> json \<Rightarrow> weights \<Rightarrow> weights res" where
  "replay_rec s v w =
     bindE (rec_nat v ''n'') (\<lambda>n.
     if n = 0 then Inr w
     else bindE (rec_nat v ''height'') (\<lambda>h. bindE (load_deltas s h n) (\<lambda>ds. bindE (trimmed_mean_int ds) (vec_add w))))"

definition full_replay :: "chain_store \<Rightarrow> weights res" where
  "full_replay s = bindE (load_genesis s) (\<lambda>w. bindE (read_blocks s) (\<lambda>recs. foldE (replay_rec s) recs w))"

definition fast_sync :: "chain_store \<Rightarrow> weights res" where
  "fast_sync s =
     bindE (read_blocks s) (\<lambda>recs.
     let ckpts = map fst (cs_ckpts s)
     in if ckpts = [] then full_replay s
        else let h0 = Max (set ckpts)
        in foldE (\<lambda>v w. bindE (rec_nat v ''height'') (\<lambda>h. if h0 < h then replay_rec s v w else Inr w))
             recs (the (map_of (cs_ckpts s) h0)))"

definition store_verify :: "prims \<Rightarrow> chain_store \<Rightarrow> bool res" where
  "store_verify P s =
     bindE (read_blocks s) (\<lambda>recs.
     if recs = [] then Inr True
     else bindE (rec_str (last recs) ''root'') (\<lambda>target.
          bindE (full_replay s) (\<lambda>w.
          if state_root P w \<noteq> target then Inr False
          else bindE (fast_sync s) (\<lambda>v. Inr (state_root P v = target)))))"

definition load_step :: "prims \<Rightarrow> chain_store \<Rightarrow> json \<Rightarrow> chain \<Rightarrow> chain res" where
  "load_step P s v c =
     bindE (rec_nat v ''height'') (\<lambda>h. bindE (rec_nat v ''n'') (\<lambda>n. bindE (load_deltas s h n) (\<lambda>ds.
     bindE (rec_ints v ''miner_ids'') (\<lambda>ids. bindE (chain_apply_block P ds ids c) (\<lambda>(b, c). Inr c)))))"

definition load_chain :: "prims \<Rightarrow> chain_store \<Rightarrow> chain res" where
  "load_chain P s =
     bindE (load_genesis s) (\<lambda>w0. bindE (read_blocks s) (\<lambda>recs. foldE (load_step P s) recs (new_chain w0)))"

subsection \<open>Records are read as written\<close>

definition block_json :: "prims \<Rightarrow> chain_block \<Rightarrow> json" where
  "block_json P b = block_rec P (cb_height b) (cb_deltas b) (cb_miner_ids b) (cb_root b)"

lemma strip_rec: "strip (rec_line (JObj kvs)) = rec_line (JObj kvs)"
  by (simp add: strip_def rec_line_def py_space_def)

lemma loads_rec: "loads (rec_line (block_json P b)) = Some (block_json P b)"
proof -
  have "json_wf (block_json P b)" by (auto simp: block_json_def block_rec_def)
  then show ?thesis unfolding rec_line_def by (intro loads_print) (simp_all add: json_space_def)
qed

lemma parse_rec_lines: "parse_lines (map (\<lambda>b. rec_line (block_json P b)) bs) = Inr (map (block_json P) bs)"
proof (induction bs)
  case (Cons b bs)
  have "strip (rec_line (block_json P b)) = rec_line (block_json P b)" by (simp add: block_json_def block_rec_def strip_rec)
  moreover have "rec_line (block_json P b) \<noteq> []" by (simp add: block_json_def block_rec_def rec_line_def)
  ultimately show ?case using Cons by (simp add: loads_rec Let_def)
qed simp

lemma mapE_JInt: "mapE (\<lambda>y. case y of JInt i \<Rightarrow> Inr i | _ \<Rightarrow> Inl TypeError) (map JInt is) = Inr is"
  by (induction "is") auto

lemma rec_fields [simp]:
  "rec_nat (block_json P b) ''n'' = Inr (length (cb_deltas b))"
  "rec_nat (block_json P b) ''height'' = Inr (cb_height b)"
  "rec_str (block_json P b) ''root'' = Inr (cb_root b)"
  "rec_ints (block_json P b) ''miner_ids'' = Inr (cb_miner_ids b)"
  by (simp_all add: rec_nat_def rec_str_def rec_ints_def json_get_def block_json_def block_rec_def mapE_JInt)

subsection \<open>The representation\<close>

definition weights_after :: "weights \<Rightarrow> chain_block list \<Rightarrow> weights res" where
  "weights_after w bs = foldE (\<lambda>b w. outer_step w (cb_deltas b)) bs w"

text \<open>
  A directory represents a chain: every file of the chain is there, and a checkpoint is one of
  the chain or one of \<open>old\<close>, the checkpoints that were there before; those above the chain stay.
\<close>

definition represents :: "prims \<Rightarrow> (nat, weights) dict \<Rightarrow> chain_store \<Rightarrow> chain \<Rightarrow> bool" where
  "represents P old s c \<longleftrightarrow>
     cs_genesis s = Some (genesis_int c) \<and>
     cs_lines s = Some (map (\<lambda>b. rec_line (block_json P b)) (chain_blocks c)) \<and>
     (\<forall>b\<in>set (chain_blocks c). \<forall>j<length (cb_deltas b). map_of (cs_deltas s) (cb_height b, j) = Some (cb_deltas b ! j)) \<and>
     (\<forall>h w. map_of (cs_ckpts s) h = Some w \<longrightarrow> map_of old h = Some w \<or>
        h \<le> chain_height c \<and> weights_after (genesis_int c) (take h (chain_blocks c)) = Inr w) \<and>
     (\<forall>h>chain_height c. map_of (cs_ckpts s) h = map_of old h)"

lemma chain_reach_after: "chain_reach P w0 c \<Longrightarrow> genesis_int c = w0 \<and> weights_after w0 (chain_blocks c) = Inr (w_int c)"
proof (induction rule: chain_reach.induct)
  case (chain_block c ds ids b c')
  then show ?case by (auto simp: chain_apply_block_eq_Inr weights_after_def foldE_append)
qed (simp add: new_chain_def weights_after_def)

lemma chain_reach_nth: "chain_reach P w0 c \<Longrightarrow> i < chain_height c \<Longrightarrow> cb_height (chain_blocks c ! i) = Suc i"
proof -
  assume r: "chain_reach P w0 c" and i: "i < chain_height c"
  have "map cb_height (chain_blocks c) ! i = [1..<Suc (chain_height c)] ! i" using chain_reach_heights [OF r] by simp
  then show ?thesis using i by (simp add: chain_height_def del: upt_Suc)
qed

lemma fold_delta_files:
  "map_of (fold (\<lambda>(j, d). AList.update (h, j) d) (List.enumerate a ds) m) (h', j) =
     (if h' = h \<and> a \<le> j \<and> j < a + length ds then Some (ds ! (j - a)) else map_of m (h', j))"
  by (induction ds arbitrary: a m) (auto simp: update_conv' nth_Cons' not_less_eq_eq Suc_diff_Suc)

lemma append_block_represents:
  assumes reach: "chain_reach P w0 c" and rep: "represents P old s c" and k: "cs_k s \<noteq> 0"
    and step: "chain_apply_block P ds ids c = Inr (b, c')"
  shows "\<exists>s'. append_block P (cb_height b) (cb_deltas b) (cb_miner_ids b) (cb_root b) (w_int c') s = Inr s' \<and>
     represents P old s' c' \<and> cs_k s' = cs_k s"
proof -
  let ?h = "cb_height b"
  from step obtain w where w: "outer_step (w_int c) ds = Inr w" and bh: "?h = Suc (chain_height c)" "cb_deltas b = ds"
    and c': "c' = c\<lparr>w_int := w, chain_blocks := chain_blocks c @ [b]\<rparr>"
    by (auto simp: chain_apply_block_eq_Inr)
  define s1 where "s1 = s\<lparr>cs_deltas := fold (\<lambda>(j, d). AList.update (?h, j) d) (List.enumerate 0 ds) (cs_deltas s),
      cs_lines := Some (map (\<lambda>b. rec_line (block_json P b)) (chain_blocks c'))\<rparr>"
  define s' where "s' = (if int ?h mod cs_k s = 0 then s1\<lparr>cs_ckpts := AList.update ?h (w_int c') (cs_ckpts s)\<rparr> else s1)"
  have app: "append_block P ?h (cb_deltas b) (cb_miner_ids b) (cb_root b) (w_int c') s = Inr s'"
    using rep k by (simp add: append_block_def represents_def s'_def s1_def c' bh(2) block_json_def)
  have old: "\<forall>b\<in>set (chain_blocks c). cb_height b \<noteq> ?h"
    using chain_reach_nth [OF reach] by (force simp: in_set_conv_nth bh chain_height_def)
  have deltas: "map_of (cs_deltas s') (cb_height x, j) = Some (cb_deltas x ! j)"
    if "x \<in> set (chain_blocks c')" "j < length (cb_deltas x)" for x j
    using that rep old by (auto simp: s'_def s1_def fold_delta_files c' represents_def bh(2))
  have after: "weights_after (genesis_int c) (chain_blocks c @ [b]) = Inr w"
    using chain_reach_after [OF reach] w by (simp add: weights_after_def foldE_append bh(2))
  have ck: "map_of old h = Some v \<or> h \<le> chain_height c' \<and> weights_after (genesis_int c') (take h (chain_blocks c')) = Inr v"
    if "map_of (cs_ckpts s') h = Some v" for h v
  proof (cases "map_of (cs_ckpts s) h = Some v")
    case True
    then have "map_of old h = Some v \<or> h \<le> chain_height c \<and> weights_after (genesis_int c) (take h (chain_blocks c)) = Inr v"
      using rep by (auto simp: represents_def)
    then show ?thesis by (auto simp: c' chain_height_def)
  next
    case False
    then have "h = ?h" "v = w" using that by (auto simp: s'_def s1_def c' update_conv' split: if_splits)
    then show ?thesis using after by (simp add: c' bh(1) chain_height_def)
  qed
  have above: "map_of (cs_ckpts s') h = map_of old h" if "chain_height c' < h" for h
    using that rep by (auto simp: s'_def s1_def c' bh(1) chain_height_def update_conv' represents_def)
  have gen: "cs_genesis s' = Some (genesis_int c')" "cs_k s' = cs_k s" "cs_lines s' = Some (map (\<lambda>b. rec_line (block_json P b)) (chain_blocks c'))"
    using rep by (simp_all add: s'_def s1_def represents_def c')
  then have "represents P old s' c'" using deltas ck above unfolding represents_def by blast
  with app gen(2) show ?thesis by blast
qed

lemma persist_represents:
  assumes "cs_k s \<noteq> 0"
  defines "old \<equiv> cs_ckpts s"
  shows "chain_reach P w0 c \<Longrightarrow>
    \<exists>s'. foldE (persist_step P) (chain_blocks c) (w0, init_genesis w0 s) = Inr (w_int c, s') \<and>
       represents P old s' c \<and> cs_k s' = cs_k s"
proof (induction rule: chain_reach.induct)
  case chain_start
  then show ?case by (simp add: new_chain_def represents_def init_genesis_def old_def)
next
  case (chain_block c ds ids b c')
  then obtain s1 where s1: "foldE (persist_step P) (chain_blocks c) (w0, init_genesis w0 s) = Inr (w_int c, s1)"
    and rep: "represents P old s1 c" and k1: "cs_k s1 = cs_k s" by blast
  from append_block_represents [OF chain_block(1) rep _ chain_block(2)] k1 assms(1) obtain s' where
    s': "append_block P (cb_height b) (cb_deltas b) (cb_miner_ids b) (cb_root b) (w_int c') s1 = Inr s'"
      "represents P old s' c'" "cs_k s' = cs_k s" by auto
  from chain_block(2) have "outer_step (w_int c) (cb_deltas b) = Inr (w_int c')" "chain_blocks c' = chain_blocks c @ [b]"
    by (auto simp: chain_apply_block_eq_Inr)
  then have "persist_step P b (w_int c, s1) = Inr (w_int c', s')" and "chain_blocks c' = chain_blocks c @ [b]"
    using s' by (simp_all add: persist_step_def)
  then show ?case using s1 s' by (auto simp: foldE_append)
qed

subsection \<open>Both sync tiers and the loader\<close>

lemma represents_blocks: "represents P old s c \<Longrightarrow> read_blocks s = Inr (map (block_json P) (chain_blocks c))"
  by (simp add: represents_def read_blocks_def parse_rec_lines)

lemma represents_deltas:
  assumes "represents P old s c" "b \<in> set (chain_blocks c)"
  shows "load_deltas s (cb_height b) (length (cb_deltas b)) = Inr (cb_deltas b)"
proof -
  have "load_deltas s (cb_height b) (length (cb_deltas b)) = Inr (map ((!) (cb_deltas b)) [0..<length (cb_deltas b)])"
    unfolding load_deltas_def using assms by (intro mapE_all_Inr) (auto simp: represents_def)
  then show ?thesis by (simp add: map_nth)
qed

lemma replay_rec_step:
  assumes "represents P old s c" "b \<in> set (chain_blocks c)"
  shows "replay_rec s (block_json P b) w = outer_step w (cb_deltas b)"
  using represents_deltas [OF assms] by (simp add: replay_rec_def outer_step_def)

lemma foldE_map: "foldE f (map g xs) s = foldE (\<lambda>x. f (g x)) xs s"
  by (induction xs arbitrary: s) (auto intro: bindE_cong)

lemma foldE_agree: "(\<And>x s. x \<in> set xs \<Longrightarrow> f x s = g x s) \<Longrightarrow> foldE f xs s = foldE g xs s"
  by (intro foldE_cong) auto

lemma full_replay_live:
  assumes "represents P old s c" "chain_reach P w0 c"
  shows "full_replay s = Inr (w_int c)"
proof -
  have "foldE (replay_rec s) (map (block_json P) (chain_blocks c)) w0 = weights_after w0 (chain_blocks c)"
    unfolding foldE_map weights_after_def using replay_rec_step [OF assms(1)] by (intro foldE_agree) simp
  then show ?thesis using chain_reach_after [OF assms(2)] represents_blocks [OF assms(1)] assms(1)
    by (simp add: full_replay_def load_genesis_def represents_def)
qed

lemma foldE_skip: "(\<And>x s. x \<in> set xs \<Longrightarrow> f x s = Inr s) \<Longrightarrow> foldE f xs s = Inr s"
  by (induction xs) auto

lemma fast_sync_live:
  assumes "represents P [] s c" "chain_reach P w0 c"
  shows "fast_sync s = Inr (w_int c)"
proof (cases "cs_ckpts s = []")
  case True
  then show ?thesis using full_replay_live [OF assms] represents_blocks [OF assms(1)] by (simp add: fast_sync_def)
next
  case False
  define h where "h = Max (set (map fst (cs_ckpts s)))"
  have "h \<in> set (map fst (cs_ckpts s))" unfolding h_def using False by (intro Max_in) auto
  then obtain v where v: "map_of (cs_ckpts s) h = Some v"
    by (metis domIff dom_map_of_conv_image_fst image_set option.exhaust_sel)
  have hv: "h \<le> chain_height c" "weights_after w0 (take h (chain_blocks c)) = Inr v"
    using assms(1) v chain_reach_after [OF assms(2)] by (auto simp: represents_def)
  let ?f = "\<lambda>b w. bindE (rec_nat (block_json P b) ''height'') (\<lambda>x. if h < x then replay_rec s (block_json P b) w else Inr w)"
  have low: "cb_height b \<le> h" if "b \<in> set (take h (chain_blocks c))" for b
    using that chain_reach_nth [OF assms(2)] hv(1) by (auto simp: in_set_conv_nth chain_height_def)
  have high: "h < cb_height b" if "b \<in> set (drop h (chain_blocks c))" for b
    using that chain_reach_nth [OF assms(2)] hv(1) by (auto simp: in_set_conv_nth chain_height_def)
  have "foldE ?f (take h (chain_blocks c)) v = Inr v" using low by (intro foldE_skip) (simp add: leD)
  moreover have "foldE ?f (drop h (chain_blocks c)) v = weights_after v (drop h (chain_blocks c))"
    unfolding weights_after_def
  proof (rule foldE_agree)
    fix b w assume b: "b \<in> set (drop h (chain_blocks c))"
    then show "?f b w = outer_step w (cb_deltas b)"
      using high [OF b] replay_rec_step [OF assms(1) in_set_dropD [OF b]] by simp
  qed
  moreover have "weights_after v (drop h (chain_blocks c)) = Inr (w_int c)"
    using chain_reach_after [OF assms(2)] hv(2) foldE_append [of _ "take h (chain_blocks c)" "drop h (chain_blocks c)" w0]
    by (simp add: weights_after_def)
  ultimately have "foldE ?f (take h (chain_blocks c) @ drop h (chain_blocks c)) v = Inr (w_int c)"
    by (simp only: foldE_append bindE_Inr)
  then show ?thesis using False v represents_blocks [OF assms(1)]
    by (simp add: fast_sync_def foldE_map h_def [symmetric] flip: set_map)
qed

lemma load_chain_live:
  "chain_reach P w0 c \<Longrightarrow> \<forall>b\<in>set (chain_blocks c). load_deltas s (cb_height b) (length (cb_deltas b)) = Inr (cb_deltas b) \<Longrightarrow>
     foldE (\<lambda>b. load_step P s (block_json P b)) (chain_blocks c) (new_chain w0) = Inr c"
proof (induction rule: chain_reach.induct)
  case chain_start
  then show ?case by (simp add: new_chain_def)
next
  case (chain_block c ds ids b c')
  from chain_block(2) have c': "chain_blocks c' = chain_blocks c @ [b]" "cb_deltas b = ds" "cb_miner_ids b = ids"
    by (auto simp: chain_apply_block_eq_Inr)
  have "load_step P s (block_json P b) c = Inr c'" using chain_block.prems chain_block(2) by (simp add: load_step_def c')
  with chain_block show ?case by (simp add: c' foldE_append)
qed

lemma chain_reach_root: "chain_reach P w0 c \<Longrightarrow> chain_blocks c \<noteq> [] \<Longrightarrow> cb_root (last (chain_blocks c)) = state_root P (w_int c)"
  by (erule chain_reach.cases) (auto simp: new_chain_def chain_apply_block_eq_Inr)

text \<open>A directory that represents a chain gives it back by every way of reading.\<close>

lemma represents_reads:
  assumes rep: "represents P [] s c" and reach: "chain_reach P w0 c"
  shows "full_replay s = Inr (w_int c) \<and> fast_sync s = Inr (w_int c) \<and> store_verify P s = Inr True \<and>
     load_chain P s = Inr c \<and> store_height s = Inr (chain_height c)"
proof -
  have g: "genesis_int c = w0" using chain_reach_after [OF reach] by simp
  note full = full_replay_live [OF rep reach] and fast = fast_sync_live [OF rep reach]
  have "load_chain P s = Inr c"
    using load_chain_live [OF reach] represents_deltas [OF rep] represents_blocks [OF rep] rep
    by (simp add: load_chain_def load_genesis_def represents_def foldE_map g)
  moreover have "store_verify P s = Inr True"
    using full fast represents_blocks [OF rep] chain_reach_root [OF reach] by (simp add: store_verify_def last_map)
  ultimately show ?thesis using full fast represents_blocks [OF rep] by (simp add: store_height_def chain_height_def)
qed

lemma persist_chain_fresh:
  assumes reach: "chain_reach P w0 c" and k: "cs_k s \<noteq> 0" and fresh: "cs_ckpts s = []"
  shows "\<exists>s'. persist_chain P c s = Inr s' \<and> full_replay s' = Inr (w_int c) \<and> fast_sync s' = Inr (w_int c) \<and>
     store_verify P s' = Inr True \<and> load_chain P s' = Inr c \<and> store_height s' = Inr (chain_height c)"
proof -
  obtain s' where s': "foldE (persist_step P) (chain_blocks c) (w0, init_genesis w0 s) = Inr (w_int c, s')"
    and rep: "represents P [] s' c" using persist_represents [OF k reach] fresh by auto
  have "genesis_int c = w0" using chain_reach_after [OF reach] by simp
  then show ?thesis using s' represents_reads [OF rep reach] by (simp add: persist_chain_def)
qed

text \<open>\<^verbatim>\<open>init_genesis\<close> keeps the checkpoints of a longer chain written there before, and fast sync trusts them.\<close>

lemma persist_chain_stale:
  assumes reach: "chain_reach P w0 c" and k: "cs_k s \<noteq> 0" and h: "h = Max (fst ` set (cs_ckpts s))" "chain_height c < h"
    and v: "map_of (cs_ckpts s) h = Some v"
  shows "\<exists>s'. persist_chain P c s = Inr s' \<and> full_replay s' = Inr (w_int c) \<and> fast_sync s' = Inr v"
proof -
  obtain s' where s': "foldE (persist_step P) (chain_blocks c) (w0, init_genesis w0 s) = Inr (w_int c, s')"
    and rep: "represents P (cs_ckpts s) s' c" using persist_represents [OF k reach] by blast
  have v': "map_of (cs_ckpts s') h = Some v" using rep h(2) v by (simp add: represents_def)
  have mem: "h \<in> fst ` set (cs_ckpts s')" using map_of_SomeD [OF v'] by force
  have "x \<le> h" if "x \<in> fst ` set (cs_ckpts s')" for x
  proof -
    from that obtain w where "map_of (cs_ckpts s') x = Some w"
      by (metis domIff dom_map_of_conv_image_fst option.exhaust_sel)
    then have "map_of (cs_ckpts s) x = Some w \<or> x \<le> chain_height c" using rep by (auto simp: represents_def)
    then have "x \<in> fst ` set (cs_ckpts s) \<or> x \<le> chain_height c" by (force dest: map_of_SomeD)
    then show ?thesis using h by (auto intro: Max_ge)
  qed
  then have max: "Max (fst ` set (cs_ckpts s')) = h" using mem by (intro Max_eqI) auto
  have "cb_height b \<le> chain_height c" if "b \<in> set (chain_blocks c)" for b
    using that chain_reach_nth [OF reach] by (auto simp: in_set_conv_nth chain_height_def)
  then have "foldE (\<lambda>b w. bindE (rec_nat (block_json P b) ''height'') (\<lambda>x. if h < x then replay_rec s' (block_json P b) w else Inr w))
      (chain_blocks c) v = Inr v"
    using h(2) by (intro foldE_skip) (force simp: not_less)
  then have "fast_sync s' = Inr v"
    using max v' mem represents_blocks [OF rep] by (auto simp: fast_sync_def foldE_map)
  then show ?thesis using s' full_replay_live [OF rep reach] chain_reach_after [OF reach] by (simp add: persist_chain_def)
qed

end
