(* ===== verification/Sketch.thy ===== *)
theory Sketch
  imports Chain
begin

section \<open>Integer influence sketches (rig/sketch.py)\<close>

text \<open>
  The projection of a sparse integer vector on 256 signs: bit \<open>j\<close> of the SHA-256 of a
  parameter index gives the sign of that parameter in dimension \<open>j\<close>. The source has a numpy
  path (int64 arrays, bits unpacked from the digest bytes) and a fallback in unbounded Python
  integers. Both are modelled, with numpy's wrap-around, broadcasting and overflow error, and
  shown to agree as long as the sum of the absolute values fits in 63 bits.
\<close>

definition sketch_dim :: nat where "sketch_dim = 256"
definition SKETCH_SEED :: int where "SKETCH_SEED = 1234"
definition I32_MAX :: int where "I32_MAX = 2 ^ 31 - 1"

text \<open>\<^verbatim>\<open>struct.pack("<QQ", seed, i)\<close>\<close>

definition pack_QQ :: "int \<Rightarrow> int \<Rightarrow> bytes res" where
  "pack_QQ a b =
     (if 0 \<le> a \<and> a < 2 ^ 64 \<and> 0 \<le> b \<and> b < 2 ^ 64 then Inr (le_bytes 8 (nat a) @ le_bytes 8 (nat b))
      else Inl StructError)"

definition index_digest :: "prims \<Rightarrow> int \<Rightarrow> int \<Rightarrow> bytes res" where
  "index_digest P seed1 i = bindE (pack_QQ seed1 i) (\<lambda>b. Inr (sha256 P b))"

definition signs :: "prims \<Rightarrow> int \<Rightarrow> int \<Rightarrow> nat res" where
  "signs P i seed1 = bindE (index_digest P seed1 i) (\<lambda>d. Inr (le_val d))"

definition clamp_i32 :: "int \<Rightarrow> int" where
  "clamp_i32 x = max (- I32_MAX - 1) (min I32_MAX x)"

subsection \<open>The numpy path\<close>

text \<open>\<^verbatim>\<open>np.unpackbits(..., bitorder="little")\<close> on the bytes of one digest.\<close>

definition unpackbits :: "bytes \<Rightarrow> int list" where
  "unpackbits d = concat (map (\<lambda>b. map (\<lambda>j. of_bool (bit b j)) [0..<8]) d)"

text \<open>The pairs of a sign row and a value that \<^verbatim>\<open>signs * val[:, None]\<close> multiplies, by the broadcasting rules.\<close>

definition broadcast :: "'a list \<Rightarrow> 'b list \<Rightarrow> ('a \<times> 'b) list res" where
  "broadcast rows vals =
     (if length rows = length vals then Inr (zip rows vals)
      else if length vals = 1 then Inr (map (\<lambda>r. (r, hd vals)) rows)
      else if length rows = 1 then Inr (map (Pair (hd rows)) vals)
      else Inl ValueError)"

definition sum64 :: "int list \<Rightarrow> int" where
  "sum64 xs = wrap64 (sum_list xs)"

definition sketch_numpy :: "prims \<Rightarrow> int list \<Rightarrow> int list \<Rightarrow> int \<Rightarrow> int list res" where
  "sketch_numpy P indices vals seed1 =
     (let idx = map fst (filter (\<lambda>(i, v). v \<noteq> 0) (zip indices vals));
          val = filter (\<lambda>v. v \<noteq> 0) vals
      in bindE (raise_if (\<exists>v\<in>set val. \<not> is_i64 v) OverflowError) (\<lambda>_.
         if idx = [] then Inr (replicate sketch_dim 0)
         else bindE (mapE (index_digest P seed1) idx) (\<lambda>digests.
              bindE (raise_if (\<exists>d\<in>set digests. length d \<noteq> 32) ValueError) (\<lambda>_.
              bindE (broadcast (map unpackbits digests) val) (\<lambda>ps.
              Inr (map (\<lambda>j. clamp_i32 (sum64 (map (\<lambda>(bits, v). wrap64 ((bits ! j * 2 - 1) * v)) ps)))
                     [0..<sketch_dim]))))))"

subsection \<open>The fallback\<close>

definition sketch_add :: "prims \<Rightarrow> int \<Rightarrow> int \<times> int \<Rightarrow> int list \<Rightarrow> int list res" where
  "sketch_add P seed1 p acc =
     (let (i, v) = p
      in if v = 0 then Inr acc
         else bindE (signs P i seed1) (\<lambda>bits.
              Inr (map (\<lambda>(j, a). a + (if bit bits j then v else - v)) (List.enumerate 0 acc))))"

definition sketch_fallback :: "prims \<Rightarrow> int list \<Rightarrow> int list \<Rightarrow> int \<Rightarrow> int list res" where
  "sketch_fallback P indices vals seed1 =
     bindE (foldE (sketch_add P seed1) (zip indices vals) (replicate sketch_dim 0)) (\<lambda>acc. Inr (map clamp_i32 acc))"

definition sketch_sparse :: "prims \<Rightarrow> bool \<Rightarrow> int list \<Rightarrow> int list \<Rightarrow> int \<Rightarrow> int list res" where
  "sketch_sparse P has_numpy indices vals seed1 =
     (if has_numpy then sketch_numpy P indices vals seed1 else sketch_fallback P indices vals seed1)"

definition sketch_dense :: "prims \<Rightarrow> bool \<Rightarrow> int list \<Rightarrow> int \<Rightarrow> int list res" where
  "sketch_dense P has_numpy vec seed1 =
     (let idx = filter (\<lambda>i. vec ! i \<noteq> 0) [0..<length vec]
      in sketch_sparse P has_numpy (map int idx) (map (\<lambda>i. vec ! i) idx) seed1)"

definition sketch_dot :: "int list \<Rightarrow> int list \<Rightarrow> int" where
  "sketch_dot a b = sum_list (map2 (*) a b)"

subsection \<open>Bits of a digest\<close>

lemma length_unpackbits: "length (unpackbits d) = 8 * length d"
  by (induction d) (simp_all add: unpackbits_def)

lemma unpackbits_nth: "j < 8 * length d \<Longrightarrow> unpackbits d ! j = of_bool (bit (le_val d) j)"
proof (induction d arbitrary: j)
  case (Cons b d)
  have le: "le_val (b # d) = unat b + 256 * le_val d" by simp
  show ?case
  proof (cases "j < 8")
    case True
    have "bit (le_val (b # d)) j = bit (take_bit 8 (le_val (b # d))) j" using True by (simp add: bit_take_bit_iff del: le_val.simps)
    also have "take_bit 8 (le_val (b # d)) = unat b" unfolding le take_bit_eq_mod using byte_lt [of b] by simp
    finally have "bit (le_val (b # d)) j = bit b j" by (simp add: bit_unsigned_iff)
    then show ?thesis using True by (simp add: unpackbits_def nth_append)
  next
    case False
    then obtain i where i: "j = 8 + i" by (metis le_Suc_ex not_less)
    have "bit (le_val (b # d)) j = bit (le_val (b # d) div 2 ^ 8) i" unfolding i bit_iff_odd power_add div_mult2_eq ..
    also have "le_val (b # d) div 2 ^ 8 = le_val d" unfolding le using byte_lt [of b] by simp
    finally show ?thesis using Cons i by (simp add: unpackbits_def nth_append)
  qed
qed simp

subsection \<open>The two paths agree\<close>

text \<open>What one dimension receives from a list of digests and values.\<close>

definition signed_sum :: "bytes list \<Rightarrow> int list \<Rightarrow> nat \<Rightarrow> int" where
  "signed_sum ds vs j = (\<Sum>(d, v)\<leftarrow>zip ds vs. if bit (le_val d) j then v else - v)"

lemma sketch_add_pair:
  "sketch_add P seed1 (i, v) acc =
     (if v = 0 then Inr acc
      else bindE (index_digest P seed1 i) (\<lambda>d.
           Inr (map (\<lambda>(j, a). a + (if bit (le_val d) j then v else - v)) (List.enumerate 0 acc))))"
  by (simp add: sketch_add_def signs_def bindE_assoc)

lemma fallback_fold:
  "foldE (sketch_add P seed1) ps acc =
     bindE (mapE (index_digest P seed1) (map fst (filter (\<lambda>(i, v). v \<noteq> 0) ps))) (\<lambda>ds.
     Inr (map (\<lambda>(j, a). a + signed_sum ds (map snd (filter (\<lambda>(i, v). v \<noteq> 0) ps)) j) (List.enumerate 0 acc)))"
proof (induction ps arbitrary: acc)
  case Nil
  then show ?case by (simp add: signed_sum_def case_prod_beta flip: list.map_comp)
next
  case (Cons p ps)
  obtain i v where p: "p = (i, v)" by (cases p)
  have enum: "map (\<lambda>(j, a). f j a) (List.enumerate 0 (map (\<lambda>(j, a). g j a) (List.enumerate 0 acc))) =
      map (\<lambda>(j, a). f j (g j a)) (List.enumerate 0 acc)" for f :: "nat \<Rightarrow> int \<Rightarrow> int" and g :: "nat \<Rightarrow> int \<Rightarrow> int"
    by (rule nth_equalityI) (simp_all add: nth_enumerate_eq)
  show ?case
  proof (cases "v = 0 \<or> (\<exists>e. index_digest P seed1 i = Inl e)")
    case True
    then show ?thesis by (auto simp: p sketch_add_pair Cons)
  next
    case False
    then obtain d where d: "index_digest P seed1 i = Inr d" by (cases "index_digest P seed1 i") auto
    have "foldE (sketch_add P seed1) (p # ps) acc =
        foldE (sketch_add P seed1) ps (map (\<lambda>(j, a). a + (if bit (le_val d) j then v else - v)) (List.enumerate 0 acc))"
      using False by (simp add: p sketch_add_pair d)
    then show ?thesis using False
      by (simp add: Cons enum p d bindE_assoc signed_sum_def add.assoc cong: bindE_cong)
  qed
qed

lemma sum_abs_bound:
  "\<bar>\<Sum>(d, v)\<leftarrow>zip ds vs. if b d then v else - v\<bar> \<le> (\<Sum>v\<leftarrow>vs. \<bar>v :: int\<bar>)"
proof (induction ds arbitrary: vs)
  case (Cons d ds)
  show ?case
  proof (cases vs)
    case (Cons v ws)
    with Cons.IH [of ws] show ?thesis by (auto simp: abs_if split: if_splits)
  qed simp
qed (auto intro!: sum_list_nonneg)

text \<open>One value is at most the sum of all.\<close>

lemma abs_le_sum: "v \<in> set vs \<Longrightarrow> \<bar>v :: int\<bar> \<le> (\<Sum>v\<leftarrow>vs. \<bar>v\<bar>)"
  by (intro member_le_sum_list) auto

lemma numpy_column:
  assumes "\<forall>d\<in>set ds. length d = 32" "(\<Sum>v\<leftarrow>vs. \<bar>v\<bar>) < 2 ^ 63" "j < 256"
  shows "sum64 (map (\<lambda>(bits, v). wrap64 ((bits ! j * 2 - 1) * v)) (zip (map unpackbits ds) vs)) = signed_sum ds vs j"
proof -
  have small: "is_i64 v \<and> is_i64 (- v)" if "v \<in> set vs" for v
  proof -
    show ?thesis using abs_le_sum [OF that] assms(2) by (auto simp: is_i64_def)
  qed
  have "wrap64 ((unpackbits d ! j * 2 - 1) * v) = (if bit (le_val d) j then v else - v)" if "(d, v) \<in> set (zip ds vs)" for d v
    using that small [OF set_zip_rightD [OF that]] set_zip_leftD [OF that] assms(1,3) by (simp add: unpackbits_nth)
  then have "sum_list (map (\<lambda>(bits, v). wrap64 ((bits ! j * 2 - 1) * v)) (zip (map unpackbits ds) vs)) = signed_sum ds vs j"
    unfolding signed_sum_def zip_map1 by (intro arg_cong [of _ _ sum_list]) auto
  moreover have "is_i64 (signed_sum ds vs j)"
    using sum_abs_bound [of "\<lambda>d. bit (le_val d) j" ds vs] assms(2) by (auto simp: signed_sum_def is_i64_def abs_le_iff)
  ultimately show ?thesis by (simp add: sum64_def)
qed

lemma nonzero_zip: "length is = length vs \<Longrightarrow> map snd (filter (\<lambda>(i, v). v \<noteq> 0) (zip is vs)) = filter (\<lambda>v. v \<noteq> 0) vs"
  by (induction "is" vs rule: list_induct2) auto

lemma sum_list_nonzero: "(\<Sum>v\<leftarrow>filter (\<lambda>v. v \<noteq> 0) vs. \<bar>v :: int\<bar>) = (\<Sum>v\<leftarrow>vs. \<bar>v\<bar>)"
  by (induction vs) auto

lemma sketch_paths_agree:
  assumes "\<forall>b. length (sha256 P b) = 32" and len: "length indices = length vals" and bound: "(\<Sum>v\<leftarrow>vals. \<bar>v\<bar>) < 2 ^ 63"
  shows "sketch_numpy P indices vals seed1 = sketch_fallback P indices vals seed1"
proof -
  let ?nz = "filter (\<lambda>(i, v). v \<noteq> 0) (zip indices vals)" and ?val = "filter (\<lambda>v. v \<noteq> 0) vals"
  note val = nonzero_zip [OF len]
  have ok: "\<not> (\<exists>v\<in>set ?val. \<not> is_i64 v)"
  proof -
    have "\<bar>v\<bar> < 2 ^ 63" if "v \<in> set vals" for v
      using abs_le_sum [OF that] bound by simp
    then show ?thesis by (force simp: is_i64_def abs_less_iff)
  qed
  show ?thesis
  proof (cases "mapE (index_digest P seed1) (map fst ?nz)")
    case (Inl e)
    then have "map fst ?nz \<noteq> []" by (cases ?nz) auto
    then show ?thesis unfolding sketch_numpy_def sketch_fallback_def fallback_fold Let_def Inl
      using ok by (simp only: raise_if_False bindE_Inl bindE_Inr if_False)
  next
    case (Inr ds)
    then have l: "length ds = length ?val" using arg_cong [OF val, of length] by (auto simp: mapE_eq_Inr dest!: list_all2_lengthD)
    have d32: "\<forall>d\<in>set ds. length d = 32"
    proof
      fix d assume "d \<in> set ds"
      then obtain i where "index_digest P seed1 i = Inr d"
        using Inr by (auto simp: mapE_eq_Inr list_all2_conv_all_nth in_set_conv_nth)
      then show "length d = 32" using assms(1) by (auto simp: index_digest_def res_simps)
    qed
    have col: "signed_sum ds ?val j = sum64 (map (\<lambda>(bits, v). wrap64 ((bits ! j * 2 - 1) * v)) (zip (map unpackbits ds) ?val))"
      if "j < 256" for j using numpy_column [OF d32 _ that] bound by (simp add: sum_list_nonzero)
    have enum: "map clamp_i32 (map (\<lambda>(j, a). a + signed_sum ds ?val j) (List.enumerate 0 (replicate sketch_dim 0))) =
        map (\<lambda>j. clamp_i32 (signed_sum ds ?val j)) [0..<sketch_dim]"
      by (rule nth_equalityI) (simp_all add: nth_enumerate_eq)
    have empty: "ds = [] \<Longrightarrow> map (\<lambda>j. clamp_i32 (signed_sum ds ?val j)) [0..<sketch_dim] = replicate sketch_dim 0"
      by (simp add: signed_sum_def clamp_i32_def I32_MAX_def map_replicate_trivial map_replicate_const)
    have eq: "map (\<lambda>j. clamp_i32 (signed_sum ds ?val j)) [0..<sketch_dim] =
        map (\<lambda>j. clamp_i32 (sum64 (map (\<lambda>(bits, v). wrap64 ((bits ! j * 2 - 1) * v)) (zip (map unpackbits ds) ?val)))) [0..<sketch_dim]"
      using col by (simp add: sketch_dim_def)
    have "sketch_fallback P indices vals seed1 = Inr (map (\<lambda>j. clamp_i32 (signed_sum ds ?val j)) [0..<sketch_dim])"
      unfolding sketch_fallback_def fallback_fold Inr bindE_Inr val enum ..
    moreover have "sketch_numpy P indices vals seed1 = Inr (map (\<lambda>j. clamp_i32 (signed_sum ds ?val j)) [0..<sketch_dim])"
    proof (cases "map fst ?nz = []")
      case True
      then have "ds = []" using Inr by simp
      from empty [OF this] show ?thesis unfolding sketch_numpy_def Let_def using ok True
        by (simp only: raise_if_False bindE_Inr if_True simp_thms)
    next
      case False
      have "\<not> (\<exists>d\<in>set ds. length d \<noteq> 32)" using d32 by blast
      moreover have "broadcast (map unpackbits ds) ?val = Inr (zip (map unpackbits ds) ?val)" using l by (simp add: broadcast_def)
      ultimately show ?thesis unfolding sketch_numpy_def Let_def Inr eq using ok False by (simp only: raise_if_False bindE_Inr if_False)
    qed
    ultimately show ?thesis by simp
  qed
qed

text \<open>Beyond 63 bits they part: four times \<open>2 ^ 62\<close> at one index wraps to zero in every dimension.\<close>

lemma first_not_zero:
  assumes "clamp_i32 (f 0) \<noteq> 0"
  shows "map clamp_i32 (map (\<lambda>(j, a). a + f j) (List.enumerate 0 (replicate sketch_dim 0))) \<noteq> replicate sketch_dim 0"
proof
  assume "map clamp_i32 (map (\<lambda>(j, a). a + f j) (List.enumerate 0 (replicate sketch_dim 0))) = replicate sketch_dim 0"
  from arg_cong [OF this, of "\<lambda>xs. xs ! 0"] assms show False by (simp add: nth_enumerate_eq sketch_dim_def)
qed

lemma sketch_overflow:
  assumes "\<forall>b. length (sha256 P b) = 32" "0 \<le> i" "i < 2 ^ 64" "0 \<le> seed1" "seed1 < 2 ^ 64"
  shows "sketch_numpy P (replicate 4 i) (replicate 4 (2 ^ 62)) seed1 = Inr (replicate sketch_dim 0)"
    and "sketch_fallback P (replicate 4 i) (replicate 4 (2 ^ 62)) seed1 \<noteq> Inr (replicate sketch_dim 0)"
proof -
  obtain d where d: "index_digest P seed1 i = Inr d" "length d = 32" using assms by (auto simp: index_digest_def pack_QQ_def)
  have four: "replicate 4 x = [x, x, x, x]" for x :: 'z by (simp add: numeral_eq_Suc)
  have z: "clamp_i32 (sum64 (map (\<lambda>(bits, v). wrap64 ((bits ! j * 2 - 1) * v)) (zip [u, u, u, u] [2 ^ 62, 2 ^ 62, 2 ^ 62, 2 ^ 62]))) = 0"
    if "u ! j = 0 \<or> u ! j = 1" for u j
    using that by (auto simp: sum64_def wrap64_def clamp_i32_def I32_MAX_def)
  have "unpackbits d ! j = 0 \<or> unpackbits d ! j = 1" if "j < sketch_dim" for j
    using that unpackbits_nth [of j d] d(2) by (simp add: sketch_dim_def)
  then have "map (\<lambda>j. clamp_i32 (sum64 (map (\<lambda>(bits, v). wrap64 ((bits ! j * 2 - 1) * v))
      (zip [unpackbits d, unpackbits d, unpackbits d, unpackbits d] [2 ^ 62, 2 ^ 62, 2 ^ 62, 2 ^ 62])))) [0..<sketch_dim] = replicate sketch_dim 0"
    using z by (intro nth_equalityI) simp_all
  then show "sketch_numpy P (replicate 4 i) (replicate 4 (2 ^ 62)) seed1 = Inr (replicate sketch_dim 0)"
    by (simp add: four sketch_numpy_def d broadcast_def is_i64_def)
  have "signed_sum [d, d, d, d] [2 ^ 62, 2 ^ 62, 2 ^ 62, 2 ^ 62] 0 = 2 ^ 64 \<or> signed_sum [d, d, d, d] [2 ^ 62, 2 ^ 62, 2 ^ 62, 2 ^ 62] 0 = - (2 ^ 64)"
    by (simp add: signed_sum_def)
  then have "clamp_i32 (signed_sum [d, d, d, d] [2 ^ 62, 2 ^ 62, 2 ^ 62, 2 ^ 62] 0) \<noteq> 0"
    by (auto simp: clamp_i32_def I32_MAX_def)
  then have "map clamp_i32 (map (\<lambda>(j, a). a + signed_sum [d, d, d, d] [2 ^ 62, 2 ^ 62, 2 ^ 62, 2 ^ 62] j)
      (List.enumerate 0 (replicate sketch_dim 0))) \<noteq> replicate sketch_dim 0"
    by (rule first_not_zero)
  moreover have nz: "filter (\<lambda>(i, v). v \<noteq> 0) (zip (replicate 4 i) (replicate 4 (2 ^ 62 :: int))) =
      [(i, 2 ^ 62), (i, 2 ^ 62), (i, 2 ^ 62), (i, 2 ^ 62)]" by (simp add: four)
  have m: "mapE (index_digest P seed1) [i, i, i, i] = Inr [d, d, d, d]" by (simp add: d)
  ultimately show "sketch_fallback P (replicate 4 i) (replicate 4 (2 ^ 62)) seed1 \<noteq> Inr (replicate sketch_dim 0)"
    unfolding sketch_fallback_def fallback_fold nz list.map fst_conv snd_conv m bindE_Inr by (simp only: sum.inject simp_thms)
qed

end
