(* ===== verification/Wire.thy ===== *)
theory Wire
  imports Chain
begin

section \<open>Arrays, text and frames on the wire\<close>

text \<open>
  What peers exchange: numpy arrays as bytes (\<^verbatim>\<open>np.frombuffer\<close>, the inverse of
  \<^verbatim>\<open>tobytes\<close>), UTF-8 text, length-prefixed messages read from a socket that delivers bytes in
  pieces of its own choosing (\<^verbatim>\<open>rig/protocol.py\<close>, \<^verbatim>\<open>client/miner_bridge.py\<close>), and
  the sparse payload of a delta (\<^verbatim>\<open>client/compress.py\<close>). Pickling is a parameter.
\<close>

subsection \<open>Reading arrays and text\<close>

fun chunks8 :: "bytes \<Rightarrow> bytes list" where
  "chunks8 (a # b # c # d # e # f # g # h # bs) = [a, b, c, d, e, f, g, h] # chunks8 bs"
| "chunks8 bs = []"

fun chunks4 :: "bytes \<Rightarrow> bytes list" where
  "chunks4 (a # b # c # d # bs) = [a, b, c, d] # chunks4 bs"
| "chunks4 bs = []"

text \<open>\<^verbatim>\<open>np.frombuffer\<close> at int64, uint32 and int32: the length must be a multiple of the item size.\<close>

definition frombuffer_i64 :: "bytes \<Rightarrow> int list res" where
  "frombuffer_i64 bs =
     (if length bs mod 8 \<noteq> 0 then Inl ValueError else Inr (map (\<lambda>c. wrap64 (int (le_val c))) (chunks8 bs)))"

definition frombuffer_u32 :: "bytes \<Rightarrow> nat list res" where
  "frombuffer_u32 bs = (if length bs mod 4 \<noteq> 0 then Inl ValueError else Inr (map le_val (chunks4 bs)))"

definition wrap32 :: "int \<Rightarrow> int" where
  "wrap32 x = (x + 2 ^ 31) mod 2 ^ 32 - 2 ^ 31"

definition frombuffer_i32 :: "bytes \<Rightarrow> int list res" where
  "frombuffer_i32 bs =
     (if length bs mod 4 \<noteq> 0 then Inl ValueError else Inr (map (\<lambda>c. wrap32 (int (le_val c))) (chunks4 bs)))"

text \<open>\<^verbatim>\<open>bytes.decode()\<close> for the code points of the model; \<open>None\<close> is a decoding error or a character beyond them.\<close>

fun decode_utf8 :: "bytes \<Rightarrow> string option" where
  "decode_utf8 [] = Some []"
| "decode_utf8 (b # bs) =
     (if unat b < 128 then map_option (Cons (char_of (unat b))) (decode_utf8 bs)
      else case bs of
             [] \<Rightarrow> None
           | c # cs \<Rightarrow>
               if (unat b = 194 \<or> unat b = 195) \<and> 128 \<le> unat c \<and> unat c < 192
               then map_option (Cons (char_of (64 * (unat b - 192) + (unat c - 128)))) (decode_utf8 cs)
               else None)"

subsection \<open>Sockets and frames (rig/protocol.py)\<close>

text \<open>
  A socket is the list of segments the network delivers. \<^verbatim>\<open>recv(n)\<close> returns at most
  \<open>n\<close> bytes of the next segment, and nothing once the peer has closed.
\<close>

type_synonym socket = "bytes list"

definition recv :: "nat \<Rightarrow> socket \<Rightarrow> bytes \<times> socket" where
  "recv n sock =
     (case sock of
        [] \<Rightarrow> ([], [])
      | seg # segs \<Rightarrow> if length seg \<le> n then (seg, segs) else (take n seg, drop n seg # segs))"

text \<open>The loop of \<^verbatim>\<open>_recv_exactly\<close>; \<open>cap\<close> bounds one \<^verbatim>\<open>recv\<close> (\<^verbatim>\<open>1 << 20\<close> in the miner bridge).\<close>

function recv_loop :: "nat option \<Rightarrow> nat \<Rightarrow> bytes \<Rightarrow> socket \<Rightarrow> (bytes \<times> socket) res" where
  "recv_loop cap n buf sock =
     (if n \<le> length buf then Inr (buf, sock)
      else let need = n - length buf;
               (chunk, sock') = recv (case cap of None \<Rightarrow> need | Some c \<Rightarrow> min c need) sock
           in if chunk = [] then Inl ConnectionError else recv_loop cap n (buf @ chunk) sock')"
  by pat_completeness auto
termination
  by (relation "measure (\<lambda>(cap, n, buf, sock). n - length buf)") (auto simp: diff_less_mono2)

declare recv_loop.simps [simp del]

definition recv_exactly :: "socket \<Rightarrow> nat \<Rightarrow> (bytes \<times> socket) res" where
  "recv_exactly sock n = recv_loop None n [] sock"

text \<open>\<^verbatim>\<open>struct.pack(">I", len(data)) + data\<close>\<close>

definition frame_msg :: "bytes \<Rightarrow> bytes res" where
  "frame_msg data = (if 2 ^ 32 \<le> length data then Inl StructError else Inr (be_bytes 4 (length data) @ data))"

definition send_msg :: "('m \<Rightarrow> bytes) \<Rightarrow> 'm \<Rightarrow> bytes res" where
  "send_msg dumps obj = frame_msg (dumps obj)"

definition recv_msg :: "(bytes \<Rightarrow> 'm res) \<Rightarrow> socket \<Rightarrow> ('m \<times> socket) res" where
  "recv_msg pickle_loads sock =
     bindE (recv_exactly sock 4) (\<lambda>(header, sock).
     bindE (recv_exactly sock (be_val header)) (\<lambda>(body, sock).
     bindE (pickle_loads body) (\<lambda>m. Inr (m, sock))))"

text \<open>\<^verbatim>\<open>_recv\<close> of the miner bridge: the same frames, at most \<open>2 ^ 20\<close> bytes per call.\<close>

definition bridge_recv :: "socket \<Rightarrow> (bytes \<times> socket) res" where
  "bridge_recv sock =
     bindE (recv_loop None 4 [] sock) (\<lambda>(hdr, sock). recv_loop (Some (2 ^ 20)) (be_val hdr) [] sock)"

subsection \<open>Sparse payloads (client/compress.py)\<close>

record payload =
  pl_n :: int
  pl_idx :: bytes
  pl_val :: bytes

text \<open>\<^verbatim>\<open>out[idx] = val\<close>: the indices are checked first, a later assignment to an index wins.\<close>

definition scatter :: "nat list \<Rightarrow> 'a list \<Rightarrow> 'a list \<Rightarrow> 'a list res" where
  "scatter idx val out =
     bindE (if length val = length idx then Inr val
            else if length val = 1 then Inr (replicate (length idx) (hd val)) else Inl ValueError) (\<lambda>vs.
     bindE (raise_if (\<exists>i\<in>set idx. length out \<le> i) IndexError) (\<lambda>_.
     Inr (fold (\<lambda>(i, v) o1. o1[i := v]) (zip idx vs) out)))"

definition decompress :: "payload \<Rightarrow> int list res" where
  "decompress p =
     bindE (raise_if (pl_n p < 0) ValueError) (\<lambda>_.
     bindE (frombuffer_u32 (pl_idx p)) (\<lambda>idx.
     bindE (frombuffer_i32 (pl_val p)) (\<lambda>val.
     scatter idx val (replicate (nat (pl_n p)) 0))))"

definition keep_count :: "nat \<Rightarrow> nat \<Rightarrow> nat \<Rightarrow> nat \<Rightarrow> nat" where
  "keep_count n frac min_keep max_keep =
     (let k = max 1 (max frac min_keep) in if max_keep \<noteq> 0 then min k max_keep else k)"

text \<open>
  \<^verbatim>\<open>compress\<close> after quantisation. \<open>frac\<close> is \<^verbatim>\<open>int(n * keep_frac)\<close> and \<open>part\<close> the
  \<open>k\<close> positions \<^verbatim>\<open>np.argpartition\<close> puts last: numpy fixes their values, not which of several equal
  ones it takes.
\<close>

definition compress :: "nat list \<Rightarrow> weights \<Rightarrow> nat \<Rightarrow> nat \<Rightarrow> nat \<Rightarrow> payload res" where
  "compress part q frac min_keep max_keep =
     (let n = length q; k = keep_count n frac min_keep max_keep;
          idx = (if n \<le> k then filter (\<lambda>i. q ! i \<noteq> 0) [0..<n] else sort part);
          vals = map (\<lambda>i. q ! i) idx
      in if \<exists>v\<in>set vals. 2 ^ 31 - 1 < wrap64 \<bar>v\<bar> then Inl ValueError
         else Inr \<lparr>pl_n = int n, pl_idx = concat (map (le_bytes 4) idx),
                   pl_val = concat (map (\<lambda>v. le_bytes 4 (nat (v mod 2 ^ 32))) vals)\<rparr>)"

definition payload_bytes :: "payload \<Rightarrow> nat" where
  "payload_bytes p = length (pl_idx p) + length (pl_val p) + 8"

subsection \<open>Arrays and text round-trip\<close>

lemma chunks8_append: "length c = 8 \<Longrightarrow> chunks8 (c @ bs) = c # chunks8 bs"
  by (auto simp: length_Suc_conv numeral_eq_Suc)

lemma chunks4_append: "length c = 4 \<Longrightarrow> chunks4 (c @ bs) = c # chunks4 bs"
  by (auto simp: length_Suc_conv numeral_eq_Suc)

lemma wrap64_le_val: "is_i64 x \<Longrightarrow> wrap64 (int (le_val (int64_bytes x))) = x"
proof -
  assume x: "is_i64 x"
  have "int (le_val (int64_bytes x)) = x mod 2 ^ 64" by (simp add: int64_bytes_def le_val_le_bytes)
  moreover have "wrap64 (x mod 2 ^ 64) = wrap64 x" by (simp add: wrap64_def mod_add_left_eq)
  ultimately show ?thesis using x by simp
qed

lemma frombuffer_tobytes: "\<forall>x\<in>set w. is_i64 x \<Longrightarrow> frombuffer_i64 (tobytes w) = Inr w"
proof -
  assume "\<forall>x\<in>set w. is_i64 x"
  then have "map (\<lambda>c. wrap64 (int (le_val c))) (chunks8 (tobytes w)) = w"
    by (induction w) (simp_all add: chunks8_append wrap64_le_val)
  then show ?thesis by (simp add: frombuffer_i64_def)
qed

lemma decode_utf8_char: "decode_utf8 (utf8_char c @ r) = map_option (Cons c) (decode_utf8 r)"
proof -
  define n where "n = (of_char c :: nat)"
  have n: "n < 256" "char_of n = c" using char_nat_lt [of c] by (simp_all add: n_def)
  have u: "unat (of_nat m :: byte) = m" if "m < 256" for m using that by (simp add: unat_of_nat)
  show ?thesis
  proof (cases "n < 128")
    case True
    then show ?thesis using n by (simp add: utf8_char_def n_def [symmetric] u)
  next
    case False
    then have q: "n div 64 = 2 \<or> n div 64 = 3" using n(1) by linarith
    have lt: "192 + n div 64 < 256" "128 + n mod 64 < 256" using q mod_less_divisor [of 64 n] by linarith+
    note b = u [OF lt(1)] u [OF lt(2)]
    have "64 * (n div 64) + n mod 64 = n" by simp
    then show ?thesis using False n(2) q
      by (simp add: utf8_char_def n_def [symmetric] b del: of_nat_add)
  qed
qed

lemma decode_encode: "decode_utf8 (encode s) = Some s"
  by (induction s) (simp_all add: encode_def decode_utf8_char)

subsection \<open>Frames survive every segmentation\<close>

definition live :: "socket \<Rightarrow> bool" where
  "live sock \<longleftrightarrow> [] \<notin> set sock"

lemma recv_concat:
  assumes "live sock" "recv n sock = (chunk, sock')"
  shows "concat sock = chunk @ concat sock'" "live sock'" "length chunk \<le> n" "0 < n \<Longrightarrow> concat sock \<noteq> [] \<Longrightarrow> chunk \<noteq> []"
  using assms by (auto simp: recv_def live_def split: list.splits if_splits)

lemma recv_loop_exact:
  "live sock \<Longrightarrow> length buf \<le> n \<Longrightarrow> cap \<noteq> Some 0 \<Longrightarrow>
     (if n \<le> length buf + length (concat sock)
      then \<exists>sock'. recv_loop cap n buf sock = Inr (buf @ take (n - length buf) (concat sock), sock') \<and>
             concat sock' = drop (n - length buf) (concat sock) \<and> live sock'
      else recv_loop cap n buf sock = Inl ConnectionError)"
proof (induction cap n buf sock rule: recv_loop.induct)
  case (1 cap n buf sock)
  show ?case
  proof (cases "n \<le> length buf")
    case True
    then have "recv_loop cap n buf sock = Inr (buf, sock)" by (simp add: recv_loop.simps [of cap n buf])
    then show ?thesis using 1(2,3) True by simp
  next
    case False
    define need where "need = n - length buf"
    define lim where "lim = (case cap of None \<Rightarrow> need | Some c \<Rightarrow> min c need)"
    have lim: "0 < lim" "lim \<le> need" using False 1(4) by (auto simp: lim_def need_def split: option.splits)
    obtain chunk sock' where r: "recv lim sock = (chunk, sock')" by fastforce
    note rc = recv_concat [OF 1(2) r]
    have step: "recv_loop cap n buf sock = (if chunk = [] then Inl ConnectionError else recv_loop cap n (buf @ chunk) sock')"
      using False r [unfolded lim_def need_def] by (simp add: recv_loop.simps [of cap n buf] Let_def)
    show ?thesis
    proof (cases "chunk = []")
      case True
      then have "concat sock = []" using rc(4) lim(1) by blast
      then show ?thesis using step True False by (simp del: concat_eq_Nil_conv)
    next
      case ne: False
      have le: "length (buf @ chunk) \<le> n" using rc(3) lim(2) False by (simp add: need_def)
      have ih: "if n \<le> length (buf @ chunk) + length (concat sock')
        then \<exists>sock''. recv_loop cap n (buf @ chunk) sock' = Inr ((buf @ chunk) @ take (n - length (buf @ chunk)) (concat sock'), sock'') \<and>
             concat sock'' = drop (n - length (buf @ chunk)) (concat sock') \<and> live sock''
        else recv_loop cap n (buf @ chunk) sock' = Inl ConnectionError"
        by (rule 1(1) [OF False refl r [unfolded lim_def need_def, symmetric] refl ne rc(2) le 1(4)])
      then show ?thesis using step ne le unfolding rc(1) by (auto simp: need_def)
    qed
  qed
qed

lemma recv_loop_returns:
  assumes "cap \<noteq> Some 0" "live sock" "concat sock = m @ rest"
  shows "\<exists>sock'. recv_loop cap (length m) [] sock = Inr (m, sock') \<and> concat sock' = rest \<and> live sock'"
  using recv_loop_exact [OF assms(2) _ assms(1), of "[]" "length m"] assms(3) by auto

text \<open>A framed message arrives whole, and what follows it stays in the stream.\<close>

lemma recv_msg_sent:
  assumes "send_msg dumps m = Inr wire" "ld (dumps m) = Inr m" "live sock" "concat sock = wire @ rest"
  shows "\<exists>sock'. recv_msg ld sock = Inr (m, sock') \<and> concat sock' = rest \<and> live sock'"
proof -
  let ?d = "dumps m"
  from assms(1) have l: "length ?d < 2 ^ 32" and w: "wire = be_bytes 4 (length ?d) @ ?d"
    by (auto simp: send_msg_def frame_msg_def split: if_splits)
  have hv: "be_val (be_bytes 4 (length ?d)) = length ?d" using l by (simp add: be_val_be_bytes)
  from recv_loop_returns [of None sock "be_bytes 4 (length ?d)" "?d @ rest"] assms(3,4) w obtain s1 where
    s1: "recv_loop None 4 [] sock = Inr (be_bytes 4 (length ?d), s1)" "concat s1 = ?d @ rest" "live s1" by auto
  from recv_loop_returns [of None s1 ?d rest] s1 obtain s2 where
    s2: "recv_loop None (length ?d) [] s1 = Inr (?d, s2)" "concat s2 = rest" "live s2" by auto
  show ?thesis using s1(1) s2 assms(2) by (simp add: recv_msg_def recv_exactly_def hv)
qed

lemma bridge_recv_sent:
  assumes "frame_msg d = Inr wire" "live sock" "concat sock = wire @ rest"
  shows "\<exists>sock'. bridge_recv sock = Inr (d, sock') \<and> concat sock' = rest \<and> live sock'"
proof -
  from assms(1) have l: "length d < 2 ^ 32" and w: "wire = be_bytes 4 (length d) @ d"
    by (auto simp: frame_msg_def split: if_splits)
  have hv: "be_val (be_bytes 4 (length d)) = length d" using l by (simp add: be_val_be_bytes)
  from recv_loop_returns [of None sock "be_bytes 4 (length d)" "d @ rest"] assms(2,3) w obtain s1 where
    s1: "recv_loop None 4 [] sock = Inr (be_bytes 4 (length d), s1)" "concat s1 = d @ rest" "live s1" by auto
  from recv_loop_returns [of "Some (2 ^ 20)" s1 d rest] s1 show ?thesis by (simp add: bridge_recv_def hv)
qed

subsection \<open>Payloads\<close>

lemma wrap32_id: "- (2 ^ 31) \<le> x \<Longrightarrow> x < 2 ^ 31 \<Longrightarrow> wrap32 x = x"
  by (simp add: wrap32_def)

lemma frombuffer_u32_le: "\<forall>i\<in>set idx. i < 2 ^ 32 \<Longrightarrow> frombuffer_u32 (concat (map (le_bytes 4) idx)) = Inr idx"
proof -
  assume "\<forall>i\<in>set idx. i < 2 ^ 32"
  then have "map le_val (chunks4 (concat (map (le_bytes 4) idx))) = idx"
    by (induction idx) (simp_all add: chunks4_append le_val_le_bytes)
  moreover have "length (concat (map (le_bytes 4) idx)) = 4 * length idx" by (induction idx) simp_all
  ultimately show ?thesis by (simp add: frombuffer_u32_def)
qed

lemma frombuffer_i32_le:
  assumes "\<forall>v\<in>set vs. \<bar>v\<bar> < 2 ^ 31"
  shows "frombuffer_i32 (concat (map (\<lambda>v. le_bytes 4 (nat (v mod 2 ^ 32))) vs)) = Inr vs"
proof -
  have one: "wrap32 (int (le_val (le_bytes 4 (nat (v mod 2 ^ 32))))) = v" if "\<bar>v\<bar> < 2 ^ 31" for v
  proof -
    have "int (le_val (le_bytes 4 (nat (v mod 2 ^ 32)))) = v mod 2 ^ 32" by (simp add: le_val_le_bytes)
    moreover have "wrap32 (v mod 2 ^ 32) = wrap32 v" by (simp add: wrap32_def mod_add_left_eq)
    ultimately show ?thesis using that by (simp add: wrap32_id)
  qed
  have "map (\<lambda>c. wrap32 (int (le_val c))) (chunks4 (concat (map (\<lambda>v. le_bytes 4 (nat (v mod 2 ^ 32))) vs))) = vs"
    using assms by (induction vs) (simp_all add: chunks4_append one [simplified])
  moreover have "length (concat (map (\<lambda>v. le_bytes 4 (nat (v mod 2 ^ 32))) vs)) = 4 * length vs" by (induction vs) simp_all
  ultimately show ?thesis by (simp add: frombuffer_i32_def)
qed

lemma fold_scatter_nth:
  assumes "distinct (map fst ps)" "\<forall>i\<in>set (map fst ps). i < length out"
  shows "length (fold (\<lambda>(i, v) o1. o1[i := v]) ps out) = length out \<and>
    (\<forall>j<length out. fold (\<lambda>(i, v) o1. o1[i := v]) ps out ! j = (case map_of ps j of None \<Rightarrow> out ! j | Some v \<Rightarrow> v))"
  using assms
proof (induction ps arbitrary: out)
  case (Cons p ps)
  obtain i v where p: "p = (i, v)" by (cases p)
  have "map_of ps i = None" using Cons.prems by (simp add: p map_of_eq_None_iff)
  then show ?case using Cons.IH [of "out[i := v]"] Cons.prems by (auto simp: p nth_list_update split: option.splits)
qed simp

text \<open>Decompressing gives back the kept coordinates of the vector and zero elsewhere.\<close>

lemma decompress_compress:
  assumes c: "compress part q frac min_keep max_keep = Inr p" and len: "length q < 2 ^ 32"
    and i64: "\<forall>x\<in>set q. is_i64 x \<and> x \<noteq> - (2 ^ 63)"
    and part: "keep_count (length q) frac min_keep max_keep < length q \<Longrightarrow> distinct part \<and> (\<forall>i\<in>set part. i < length q)"
  shows "decompress p = Inr (map (\<lambda>i. if length q \<le> keep_count (length q) frac min_keep max_keep \<or> i \<in> set part then q ! i else 0)
     [0..<length q])"
proof -
  let ?k = "keep_count (length q) frac min_keep max_keep"
  define idx where "idx = (if length q \<le> ?k then filter (\<lambda>i. q ! i \<noteq> 0) [0..<length q] else sort part)"
  define vals where "vals = map (\<lambda>i. q ! i) idx"
  have idx: "distinct idx" "\<forall>i\<in>set idx. i < length q" using part by (auto simp: idx_def)
  from c have small: "\<forall>v\<in>set vals. \<not> 2 ^ 31 - 1 < wrap64 \<bar>v\<bar>"
    and p: "p = \<lparr>pl_n = int (length q), pl_idx = concat (map (le_bytes 4) idx),
       pl_val = concat (map (\<lambda>v. le_bytes 4 (nat (v mod 2 ^ 32))) vals)\<rparr>"
    by (auto simp: compress_def Let_def idx_def vals_def split: if_splits)
  have "\<bar>v\<bar> < 2 ^ 31" if "v \<in> set vals" for v
  proof -
    from that idx(2) have "v \<in> set q" by (auto simp: vals_def)
    then have "is_i64 \<bar>v\<bar>" using i64 by (fastforce simp: is_i64_def)
    then show ?thesis using small that by auto
  qed
  then have val: "frombuffer_i32 (pl_val p) = Inr vals" unfolding p payload.simps by (intro frombuffer_i32_le) blast
  have ix: "frombuffer_u32 (pl_idx p) = Inr idx" using idx(2) len by (auto simp: p intro!: frombuffer_u32_le)
  let ?out = "fold (\<lambda>(i, v) o1. o1[i := v]) (zip idx vals) (replicate (length q) 0)"
  have z: "zip idx vals = map (\<lambda>i. (i, q ! i)) idx" by (simp add: vals_def zip_map2 zip_same_conv_map)
  have fs: "map fst (zip idx vals) = idx" by (simp add: z o_def)
  have lk: "map_of (zip idx vals) j = (if j \<in> set idx then Some (q ! j) else None)" for j
    by (simp add: z map_of_map_restrict restrict_map_def)
  have "length ?out = length q" "\<forall>j<length q. ?out ! j = (if j \<in> set idx then q ! j else 0)"
    using fold_scatter_nth [of "zip idx vals" "replicate (length q) 0"] idx unfolding fs lk by auto
  moreover have "(if j \<in> set idx then q ! j else 0) = (if length q \<le> ?k \<or> j \<in> set part then q ! j else 0)" if "j < length q" for j
    using that by (auto simp: idx_def)
  ultimately have "?out = map (\<lambda>i. if length q \<le> ?k \<or> i \<in> set part then q ! i else 0) [0..<length q]"
    by (intro nth_equalityI) auto
  moreover have "\<not> (\<exists>i\<in>set idx. length q \<le> i)" using idx(2) by (auto simp: not_le)
  ultimately show ?thesis using ix val by (simp add: decompress_def p scatter_def vals_def del: bex_simps)
qed

end
