(* ===== verification/Content_Store.thy ===== *)
theory Content_Store
  imports Wire Json_Parse
begin

section \<open>Content-addressed storage and exchange (client/cas.py)\<close>

text \<open>
  A block is named by the SHA-256 of its bytes. \<^verbatim>\<open>ContentStore\<close> is a dictionary from names
  to bytes, \<^verbatim>\<open>Bitswap\<close> the exchange of blocks between peers, and the model is stored as one
  object per page under a manifest of their names. The interface \<open>content_addressed\<close> states what a client
  of such a store relies on. The results: no sequence of messages, from whatever peers, puts a block under
  a name that is not its own; and a model fetched by its root is the model that was stored, or two of
  the hashed byte strings collide.
\<close>

subsection \<open>The interface\<close>

locale content_addressed =
  fixes name :: "'d \<Rightarrow> 'k" and lookup :: "'s \<Rightarrow> 'k \<Rightarrow> 'd option" and store :: "'d \<Rightarrow> 's \<Rightarrow> 's" and good :: "'s \<Rightarrow> bool"
  assumes lookup_store: "lookup (store d s) k = (if k = name d then Some d else lookup s k)"
    and good_store: "good s \<Longrightarrow> good (store d s)"
    and good_lookup: "good s \<Longrightarrow> lookup s k = Some d \<Longrightarrow> name d = k"
begin

text \<open>Two good stores agree on a name, or exhibit two byte strings with one name.\<close>

lemma stores_agree:
  "good s \<Longrightarrow> good t \<Longrightarrow> lookup s k = Some a \<Longrightarrow> lookup t k = Some b \<Longrightarrow> a = b \<or> a \<noteq> b \<and> name a = name b"
  using good_lookup by metis

lemma good_stores: "good s \<Longrightarrow> good (fold store ds s)"
  by (induction ds arbitrary: s) (auto intro: good_store)

lemma lookup_stored:
  "inj_on name (set ds) \<Longrightarrow> d \<in> set ds \<Longrightarrow> lookup (fold store ds s) (name d) = Some d"
proof (induction ds arbitrary: s)
  case (Cons e ds)
  then show ?case
  proof (cases "d \<in> set ds")
    case False
    then have "d = e" "\<forall>x\<in>set ds. name x \<noteq> name d" using Cons.prems by (auto simp: inj_on_def)
    moreover have "\<forall>x\<in>set xs. name x \<noteq> k \<Longrightarrow> lookup (fold store xs s) k = lookup s k" for xs s k
      by (induction xs arbitrary: s) (auto simp: lookup_store)
    ultimately show ?thesis by (simp add: lookup_store)
  qed (auto simp: inj_on_def)
qed simp

end

subsection \<open>The store\<close>

definition cid :: "prims \<Rightarrow> bytes \<Rightarrow> string" where
  "cid P data = sha_hex P data"

record content_store =
  st_blocks :: "(string, bytes) dict"

definition empty_store :: content_store where
  "empty_store = \<lparr>st_blocks = []\<rparr>"

definition put :: "prims \<Rightarrow> bytes \<Rightarrow> content_store \<Rightarrow> string \<times> content_store" where
  "put P data st = (let c = cid P data in (c, st\<lparr>st_blocks := AList.update c data (st_blocks st)\<rparr>))"

definition get :: "content_store \<Rightarrow> string \<Rightarrow> bytes option" where
  "get st c = map_of (st_blocks st) c"

definition has :: "content_store \<Rightarrow> string \<Rightarrow> bool" where
  "has st c \<longleftrightarrow> c \<in> fst ` set (st_blocks st)"

definition store_len :: "content_store \<Rightarrow> nat" where
  "store_len st = length (st_blocks st)"

subsection \<open>The exchange\<close>

datatype bmsg = Want string | Have string | Blk string bytes

record 'p bitswap =
  bs_store :: content_store
  bs_wantlist :: "string set"
  bs_providers :: "(string, 'p set) dict"

definition new_bitswap :: "content_store \<Rightarrow> 'p bitswap" where
  "new_bitswap st = \<lparr>bs_store = st, bs_wantlist = {}, bs_providers = []\<rparr>"

definition want :: "string \<Rightarrow> 'p bitswap \<Rightarrow> bmsg list \<times> 'p bitswap" where
  "want c s = (if has (bs_store s) c then ([], s) else ([Want c], s\<lparr>bs_wantlist := insert c (bs_wantlist s)\<rparr>))"

definition on_want :: "'p \<Rightarrow> string \<Rightarrow> 'p bitswap \<Rightarrow> bmsg list" where
  "on_want peer c s = (if has (bs_store s) c then [Blk c (the (get (bs_store s) c))] else [])"

definition on_have :: "'p \<Rightarrow> string \<Rightarrow> 'p bitswap \<Rightarrow> bmsg list \<times> 'p bitswap" where
  "on_have peer c s =
     (if c \<in> bs_wantlist s then [Want c] else [],
      s\<lparr>bs_providers := AList.update c (insert peer (dict_get (bs_providers s) c {})) (bs_providers s)\<rparr>)"

definition on_block :: "prims \<Rightarrow> string \<Rightarrow> bytes \<Rightarrow> 'p bitswap \<Rightarrow> (bmsg list \<times> bool) \<times> 'p bitswap" where
  "on_block P c data s =
     (if cid P data \<noteq> c then (([], False), s)
      else (([Have c], True), s\<lparr>bs_store := snd (put P data (bs_store s)), bs_wantlist := bs_wantlist s - {c}\<rparr>))"

definition announce :: "string \<Rightarrow> bmsg list" where
  "announce c = [Have c]"

subsection \<open>The model as a tree of pages\<close>

definition pages_from_state :: "weights \<Rightarrow> span list \<Rightarrow> bytes list" where
  "pages_from_state state_int page_spans = map (\<lambda>(s, e). tobytes (py_slice state_int s e)) page_spans"

definition place_page :: "bytes \<times> span \<Rightarrow> weights \<Rightarrow> weights res" where
  "place_page p out = (case p of (blob, s, e) \<Rightarrow> bindE (frombuffer_i64 blob) (\<lambda>v. set_slice out s e v))"

definition state_from_pages :: "bytes list \<Rightarrow> span list \<Rightarrow> int \<Rightarrow> weights res" where
  "state_from_pages page_blobs page_spans n =
     (if n < 0 then Inl ValueError else foldE place_page (zip page_blobs page_spans) (replicate (nat n) 0))"

definition put_all :: "prims \<Rightarrow> bytes list \<Rightarrow> content_store \<Rightarrow> content_store" where
  "put_all P blobs st = fold (\<lambda>b st. snd (put P b st)) blobs st"

definition manifest_json :: "nat \<Rightarrow> span list \<Rightarrow> string list \<Rightarrow> json" where
  "manifest_json n page_spans page_cids =
     JObj [(''n'', JInt (int n)),
           (''pages'', JList (map (\<lambda>((s, e), c). JList [JInt s, JInt e, JStr c]) (zip page_spans page_cids)))]"

definition manifest_bytes :: "prims \<Rightarrow> weights \<Rightarrow> span list \<Rightarrow> bytes" where
  "manifest_bytes P state_int page_spans =
     encode (dumps_default (manifest_json (length state_int) page_spans (map (cid P) (pages_from_state state_int page_spans))))"

definition put_model :: "prims \<Rightarrow> weights \<Rightarrow> span list \<Rightarrow> content_store \<Rightarrow> (string \<times> string list) \<times> content_store" where
  "put_model P state_int page_spans st =
     (let blobs = pages_from_state state_int page_spans;
          st = put_all P blobs st;
          (root1, st) = put P (manifest_bytes P state_int page_spans) st
      in ((root1, map (cid P) blobs), st))"

text \<open>One entry of the manifest, at the types \<^verbatim>\<open>put_model\<close> writes.\<close>

definition page_entry :: "json \<Rightarrow> (span \<times> string) res" where
  "page_entry v = (case v of JList [JInt s, JInt e, JStr c] \<Rightarrow> Inr ((s, e), c) | _ \<Rightarrow> Inl ValueError)"

definition read_manifest :: "content_store \<Rightarrow> string \<Rightarrow> (int \<times> span list \<times> string list) option res" where
  "read_manifest st root_cid =
     (case get st root_cid of
        None \<Rightarrow> Inr None
      | Some raw \<Rightarrow>
          (case Option.bind (decode_utf8 raw) loads of
             None \<Rightarrow> Inl ValueError
           | Some m \<Rightarrow>
               bindE (json_get m ''pages'') (\<lambda>pv.
               bindE (case pv of JList ps \<Rightarrow> mapE page_entry ps | _ \<Rightarrow> Inl TypeError) (\<lambda>es.
               bindE (json_get m ''n'') (\<lambda>nv.
               case nv of JInt n \<Rightarrow> Inr (Some (n, map fst es, map snd es)) | _ \<Rightarrow> Inl TypeError)))))"

definition get_model :: "content_store \<Rightarrow> string \<Rightarrow> (weights option \<times> string list) res" where
  "get_model st root_cid =
     bindE (read_manifest st root_cid) (\<lambda>parsed.
     case parsed of
       None \<Rightarrow> Inr (None, [root_cid])
     | Some (n, page_spans, page_cids) \<Rightarrow>
         let missing = filter (\<lambda>c. \<not> has st c) page_cids
         in if missing \<noteq> [] then Inr (None, missing)
            else bindE (state_from_pages (map (\<lambda>c. the (get st c)) page_cids) page_spans n) (\<lambda>w. Inr (Some w, [])))"

subsection \<open>The store keeps names honest\<close>

definition store_ok :: "prims \<Rightarrow> content_store \<Rightarrow> bool" where
  "store_ok P st \<longleftrightarrow> (\<forall>c d. get st c = Some d \<longrightarrow> cid P d = c)"

lemma get_put: "get (snd (put P d st)) c = (if c = cid P d then Some d else get st c)"
  by (simp add: put_def get_def update_conv' Let_def)

lemma has_get: "has st c \<longleftrightarrow> get st c \<noteq> None"
  by (metis get_def has_def dom_map_of_conv_image_fst domIff)

interpretation cas: content_addressed "cid P" get "\<lambda>d st. snd (put P d st)" "store_ok P" for P
  by unfold_locales (auto simp: get_put store_ok_def split: if_splits)

lemma store_ok_empty: "store_ok P empty_store"
  by (simp add: store_ok_def empty_store_def get_def)

text \<open>What a node does with its exchange: ask, hear, receive, store; every message may come from anyone.\<close>

inductive bs_reach :: "prims \<Rightarrow> 'p bitswap \<Rightarrow> bool" for P where
  bs_start: "bs_reach P (new_bitswap empty_store)"
| bs_want: "bs_reach P s \<Longrightarrow> bs_reach P (snd (want c s))"
| bs_have: "bs_reach P s \<Longrightarrow> bs_reach P (snd (on_have peer c s))"
| bs_block: "bs_reach P s \<Longrightarrow> bs_reach P (snd (on_block P c data s))"
| bs_put: "bs_reach P s \<Longrightarrow> bs_reach P (s\<lparr>bs_store := snd (put P data (bs_store s))\<rparr>)"

lemma bs_reach_ok: "bs_reach P s \<Longrightarrow> store_ok P (bs_store s)"
proof (induction rule: bs_reach.induct)
  case (bs_block s c data)
  then show ?case using cas.good_store by (simp add: on_block_def)
qed (simp_all add: new_bitswap_def store_ok_empty want_def on_have_def cas.good_store)

text \<open>A served block answers the name asked for, and the asker accepts it.\<close>

lemma on_want_accepted:
  assumes "bs_reach P s" "on_want peer c s = [m]"
  shows "\<exists>d. m = Blk c d \<and> snd (fst (on_block P c d t)) \<and> has (bs_store (snd (on_block P c d t))) c"
proof -
  from assms(2) obtain d where d: "get (bs_store s) c = Some d" "m = Blk c d"
    by (auto simp: on_want_def has_get split: if_splits)
  then have "cid P d = c" using bs_reach_ok [OF assms(1)] by (simp add: store_ok_def)
  then show ?thesis using d(2) by (simp add: on_block_def has_get get_put)
qed

subsection \<open>Pages give the weights back\<close>

lemma place_page_spec:
  assumes "span_ok (length w) (s, e)" "length out = length w" "\<forall>x\<in>set w. is_i64 x"
  shows "\<exists>out'. place_page (tobytes (py_slice w s e), s, e) out = Inr out' \<and> length out' = length w \<and>
     (\<forall>i<length w. out' ! i = (if in_span i (s, e) then w ! i else out ! i))"
proof -
  define a b where "a = nat s" and "b = nat e"
  have ab: "s = int a" "e = int b" "a \<le> b" "b \<le> length w"
    using assms(1) by (auto simp: span_ok_def a_def b_def)
  have sl: "py_slice w s e = take (b - a) (drop a w)" using ab by (simp add: py_slice_def Let_def)
  have "\<forall>x\<in>set (py_slice w s e). is_i64 x" using assms(3) by (auto simp: sl dest!: in_set_takeD in_set_dropD)
  then have "frombuffer_i64 (tobytes (py_slice w s e)) = Inr (take (b - a) (drop a w))" by (simp only: frombuffer_tobytes sl)
  then have "place_page (tobytes (py_slice w s e), s, e) out = Inr (take a out @ take (b - a) (drop a w) @ drop b out)"
    using ab assms(2) by (simp add: place_page_def set_slice_def Let_def)
  moreover have "(take a out @ take (b - a) (drop a w) @ drop b out) ! i = (if in_span i (s, e) then w ! i else out ! i)"
    if "i < length w" for i using that ab assms(2) by (auto simp: nth_append in_span_def min_def)
  ultimately show ?thesis using ab assms(2) by (intro exI conjI) (assumption, auto)
qed

lemma place_pages:
  assumes "\<forall>x\<in>set w. is_i64 x"
  shows "\<forall>sp\<in>set page_spans. span_ok (length w) sp \<Longrightarrow> length out = length w \<Longrightarrow>
    \<exists>out'. foldE place_page (zip (pages_from_state w page_spans) page_spans) out = Inr out' \<and> length out' = length w \<and>
      (\<forall>i<length w. out' ! i = (if \<exists>sp\<in>set page_spans. in_span i sp then w ! i else out ! i))"
proof (induction page_spans arbitrary: out)
  case (Cons sp sps)
  obtain s e where sp: "sp = (s, e)" by (cases sp)
  from place_page_spec [OF _ Cons.prems(2) assms, of s e] Cons.prems(1) obtain o1 where
    o1: "place_page (tobytes (py_slice w s e), s, e) out = Inr o1" "length o1 = length w"
      "\<forall>i<length w. o1 ! i = (if in_span i (s, e) then w ! i else out ! i)" by (auto simp: sp)
  from Cons.IH [OF _ o1(2)] Cons.prems(1) obtain o2 where
    o2: "foldE place_page (zip (pages_from_state w sps) sps) o1 = Inr o2" "length o2 = length w"
      "\<forall>i<length w. o2 ! i = (if \<exists>sp\<in>set sps. in_span i sp then w ! i else o1 ! i)" by auto
  have "foldE place_page (zip (pages_from_state w (sp # sps)) (sp # sps)) out = Inr o2"
    using o1(1) o2(1) by (simp add: pages_from_state_def sp)
  moreover have "\<forall>i<length w. o2 ! i = (if \<exists>sp\<in>set (sp # sps). in_span i sp then w ! i else out ! i)"
    using o1(3) o2(3) by (simp add: sp)
  ultimately show ?case using o2(2) by blast
qed (simp add: pages_from_state_def)

definition spans_cover :: "nat \<Rightarrow> span list \<Rightarrow> bool" where
  "spans_cover n sps \<longleftrightarrow> (\<forall>sp\<in>set sps. span_ok n sp) \<and> (\<forall>i<n. \<exists>sp\<in>set sps. in_span i sp)"

lemma state_pages_roundtrip:
  assumes "\<forall>x\<in>set w. is_i64 x" "spans_cover (length w) sps"
  shows "state_from_pages (pages_from_state w sps) sps (int (length w)) = Inr w"
proof -
  from place_pages [OF assms(1), of sps "replicate (length w) 0"] assms(2) obtain out where
    out: "foldE place_page (zip (pages_from_state w sps) sps) (replicate (length w) 0) = Inr out" "length out = length w"
      "\<forall>i<length w. out ! i = (if \<exists>sp\<in>set sps. in_span i sp then w ! i else replicate (length w) 0 ! i)"
    by (auto simp: spans_cover_def)
  then have "out = w" using assms(2) by (intro nth_equalityI) (auto simp: spans_cover_def)
  with out(1) show ?thesis by (simp add: state_from_pages_def)
qed

subsection \<open>Fetching a model by its root\<close>

lemma manifest_canon: "canon (manifest_json n sps cids) = manifest_json n sps cids"
proof -
  have "map canon (map (\<lambda>((s, e), c). JList [JInt s, JInt e, JStr c]) xs) = map (\<lambda>((s, e), c). JList [JInt s, JInt e, JStr c]) xs"
    for xs :: "((int \<times> int) \<times> string) list" by auto
  then show ?thesis by (simp add: manifest_json_def less_char_def sort_key_def insort_key.simps)
qed

lemma read_manifest_bytes:
  assumes "get st c = Some (manifest_bytes P w sps)"
  shows "read_manifest st c = Inr (Some (int (length w), sps, map (cid P) (pages_from_state w sps)))"
proof -
  let ?cids = "map (cid P) (pages_from_state w sps)"
  have wf: "json_wf (manifest_json (length w) sps ?cids)" by (auto simp: manifest_json_def)
  have "mapE page_entry (map (\<lambda>((s, e), c). JList [JInt s, JInt e, JStr c]) xs) = Inr xs" for xs
    by (induction xs) (auto simp: page_entry_def)
  moreover have "length ?cids = length sps" by (simp add: pages_from_state_def)
  ultimately show ?thesis using assms loads_dumps_default [OF wf, unfolded manifest_canon]
    by (simp add: read_manifest_def manifest_bytes_def decode_encode json_get_def manifest_json_def)
qed

definition held :: "content_store \<Rightarrow> bytes set" where
  "held st = {d. \<exists>c. get st c = Some d}"

lemma cid_eq: "cid P a = cid P b \<Longrightarrow> {a, b} \<subseteq> S \<Longrightarrow> a = b \<or> collides_on P S"
  by (auto simp: cid_def sha_hex_def collides_on_def)

lemma fetch_model:
  assumes ok: "store_ok P st" and w: "\<forall>x\<in>set w. is_i64 x" "spans_cover (length w) sps"
    and r: "fst (fst (put_model P w sps st0)) = root_cid"
  shows "get_model st root_cid = Inr (Some w, []) \<or>
     (\<exists>missing. get_model st root_cid = Inr (None, missing) \<and> missing \<noteq> [] \<and> (\<forall>c\<in>set missing. \<not> has st c)) \<or>
     collides_on P (insert (manifest_bytes P w sps) (set (pages_from_state w sps)) \<union> held st)"
    (is "_ \<or> _ \<or> collides_on P ?S")
proof (cases "get st root_cid")
  case None
  then show ?thesis by (simp add: get_model_def read_manifest_def has_get)
next
  case (Some raw)
  let ?cids = "map (cid P) (pages_from_state w sps)" and ?missing = "filter (\<lambda>c. \<not> has st c) (map (cid P) (pages_from_state w sps))"
  have root: "root_cid = cid P (manifest_bytes P w sps)" using r by (simp add: put_model_def put_def Let_def)
  have "cid P raw = root_cid" using ok Some by (simp add: store_ok_def)
  then have "raw = manifest_bytes P w sps \<or> collides_on P ?S"
    using Some by (intro cid_eq) (auto simp: root held_def)
  then consider "raw = manifest_bytes P w sps" "?missing = []" | "raw = manifest_bytes P w sps" "?missing \<noteq> []" | "collides_on P ?S"
    by blast
  then show ?thesis
  proof cases
    case 1
    note rd = read_manifest_bytes [OF Some [unfolded 1(1)]]
    have page: "the (get st (cid P b)) = b \<or> collides_on P ?S" if "b \<in> set (pages_from_state w sps)" for b
    proof -
      from 1(2) that have "has st (cid P b)" by (auto simp: filter_empty_conv)
      then obtain d where d: "get st (cid P b) = Some d" by (auto simp: has_get)
      then have "cid P d = cid P b" using ok by (simp add: store_ok_def)
      then have "d = b \<or> collides_on P ?S" using that d by (intro cid_eq) (auto simp: held_def)
      then show ?thesis using d by simp
    qed
    show ?thesis
    proof (cases "collides_on P ?S")
      case False
      then have "map (\<lambda>c. the (get st c)) ?cids = pages_from_state w sps" using page by (auto intro: map_idI)
      then show ?thesis using rd 1(2) state_pages_roundtrip [OF w] by (simp add: get_model_def)
    qed simp
  next
    case 2
    note rd = read_manifest_bytes [OF Some [unfolded 2(1)]]
    have "get_model st root_cid = Inr (None, ?missing)" using rd 2(2) by (simp add: get_model_def Let_def)
    then show ?thesis using 2(2) by auto
  qed simp
qed

text \<open>A model that was just stored is complete.\<close>

lemma put_model_get:
  assumes w: "\<forall>x\<in>set w. is_i64 x" "spans_cover (length w) sps" and ok: "store_ok P st0"
  shows "get_model (snd (put_model P w sps st0)) (fst (fst (put_model P w sps st0))) = Inr (Some w, []) \<or>
     collides_on P (insert (manifest_bytes P w sps) (set (pages_from_state w sps)) \<union> held (snd (put_model P w sps st0)))"
proof -
  let ?m = "manifest_bytes P w sps" and ?b = "pages_from_state w sps"
  define st where "st = snd (put_model P w sps st0)"
  have st: "st = fold (\<lambda>b st. snd (put P b st)) (?b @ [?m]) st0"
    by (simp add: st_def put_model_def put_all_def Let_def case_prod_beta)
  have root: "fst (fst (put_model P w sps st0)) = cid P ?m" by (simp add: put_model_def put_def Let_def)
  have "store_ok P st" unfolding st by (rule cas.good_stores [OF ok])
  note f = fetch_model [OF this w root]
  have keep: "has (fold (\<lambda>b st. snd (put P b st)) xs s) c" if "has s c \<or> c \<in> cid P ` set xs" for xs s c
    using that by (induction xs arbitrary: s) (auto simp: has_get get_put)
  have m: "get st (cid P ?m) = Some ?m" by (simp add: st get_put)
  have "has st c" if "c \<in> set (map (cid P) ?b)" for c using that keep [of st0 c "?b @ [?m]"] by (auto simp: st)
  then have "filter (\<lambda>c. \<not> has st c) (map (cid P) ?b) = []" by (simp add: filter_empty_conv)
  then have "\<nexists>missing. get_model st (cid P ?m) = Inr (None, missing)"
    using read_manifest_bytes [OF m] by (auto simp: get_model_def Let_def res_simps)
  with f show ?thesis by (auto simp: root st_def)
qed

end
