(* ===== verification/Fraud.thy ===== *)
theory Fraud
  imports Commitments Json_Parse
begin

section \<open>Page fraud proofs (rig/fraud.py)\<close>

text \<open>
  A fraud proof convicts a block of committing a wrong page, to a verifier that holds the two
  headers only. The proof is a record of the fields of the source's dictionary; a header that
  \<^verbatim>\<open>Header(**...)\<close> rejects is \<open>None\<close>. \<open>fraud_build\<close> and \<open>fraud_verify\<close> follow
  the source check by check, and the reasons are the constructors of \<open>verdict\<close>. The results: a proof assembled from
  true data convicts exactly when the committed leaf differs from the honest aggregation; and
  the verifier also convicts honest blocks, because nothing fixes the length of the committed leaves.
\<close>

subsection \<open>Data\<close>

record sparse_body =
  sb_n :: "int option"
  sb_idx :: "int list"
  sb_val :: "int list"

record tx_dict =
  td_tx :: backprop_tx
  td_sig_hex :: string

record fraud_proof =
  fp_header :: "header option"
  fp_parent_header :: "header option"
  fp_parent_model_json :: string
  fp_committed_leaves :: "string list"
  fp_page_id :: int
  fp_txids :: "string list"
  fp_txs :: "tx_dict list"
  fp_bodies :: "(string, sparse_body) dict"
  fp_parent_page :: "int list"
  fp_parent_path :: "(string \<times> string) list"

datatype verdict =
    MalformedHeaders | NotTheChild | ModelMismatch | PageOutOfRange | GrowthBlock | LeavesMismatch
  | TxidsMismatch | TxListIncomplete | TxNotCommitted | BadTxSignature | BaseHeightMismatch
  | MissingBody | MalformedBody | BodyMismatch | SpanMismatch | ParentPageNotIncluded | NoFraud
  | FRAUD int bytes bytes

definition fraud_proven :: "verdict \<Rightarrow> bool" where
  "fraud_proven v = (case v of FRAUD _ _ _ \<Rightarrow> True | _ \<Rightarrow> False)"

subsection \<open>Sparse bodies\<close>

fun dense_loop :: "int \<Rightarrow> (int \<times> int) list \<Rightarrow> int \<Rightarrow> weights \<Rightarrow> weights option res" where
  "dense_loop n [] lst out = Inr (Some out)"
| "dense_loop n ((i, v) # ps) lst out =
     (if \<not> (0 \<le> i \<and> i < n) \<or> i \<le> lst then Inr None
      else if \<not> is_i64 v then Inl OverflowError
      else dense_loop n ps i (out[nat i := v]))"

definition dense :: "sparse_body \<Rightarrow> int \<Rightarrow> weights option res" where
  "dense body n =
     (if sb_n body \<noteq> Some n \<or> length (sb_idx body) \<noteq> length (sb_val body) then Inr None
      else if n < 0 then Inl ValueError
      else dense_loop n (zip (sb_idx body) (sb_val body)) (- 1) (replicate (nat n) 0))"

subsection \<open>Building a proof\<close>

text \<open>\<^verbatim>\<open>p[0], p[1]\<close> of a row of the page table, and \<^verbatim>\<open>json.loads(text)["pages"]\<close>.\<close>

definition row_span :: "json \<Rightarrow> span res" where
  "row_span v = (case v of JList (JInt s # JInt e # _) \<Rightarrow> Inr (s, e) | _ \<Rightarrow> Inl TypeError)"

definition page_rows :: "string \<Rightarrow> json list res" where
  "page_rows txt =
     (case loads txt of
        None \<Rightarrow> Inl ValueError
      | Some m \<Rightarrow> bindE (json_get m ''pages'') (\<lambda>v. case v of JList rows \<Rightarrow> Inr rows | _ \<Rightarrow> Inl TypeError))"

definition nonzero_at :: "weights \<Rightarrow> nat list" where
  "nonzero_at d = filter (\<lambda>i. d ! i \<noteq> 0) [0..<length d]"

definition sparse_of :: "int \<Rightarrow> weights \<Rightarrow> sparse_body" where
  "sparse_of n d = \<lparr>sb_n = Some n, sb_idx = map int (nonzero_at d), sb_val = map (\<lambda>i. d ! i) (nonzero_at d)\<rparr>"

definition add_claimant ::
  "prims \<Rightarrow> int \<Rightarrow> int \<Rightarrow> (string, weights) dict \<Rightarrow> backprop_tx \<Rightarrow> (string, sparse_body) dict \<Rightarrow> (string, sparse_body) dict res" where
  "add_claimant P page_id n bodies_dense t acc =
     (if page_id \<in> set (canonical_pages t)
      then case map_of bodies_dense (bp_txid P t) of
             None \<Rightarrow> Inl KeyError
           | Some d \<Rightarrow> Inr (AList.update (bp_txid P t) (sparse_of n d) acc)
      else Inr acc)"

definition tx_entry :: "backprop_tx \<Rightarrow> tx_dict" where
  "tx_entry t = \<lparr>td_tx = t\<lparr>bp_pages := canonical_pages t, bp_data_refs := canonical_refs t\<rparr>, td_sig_hex = hex (bp_sig t)\<rparr>"

definition fraud_build ::
  "prims \<Rightarrow> header \<Rightarrow> header \<Rightarrow> string \<Rightarrow> string list \<Rightarrow> int \<Rightarrow> backprop_tx list \<Rightarrow> (string, weights) dict \<Rightarrow> weights \<Rightarrow>
     fraud_proof res" where
  "fraud_build P h ph parent_model_json committed_leaves page_id txs bodies_dense parent_state =
     bindE (page_rows parent_model_json) (\<lambda>span_pages.
     bindE (bindE (py_nth span_pages page_id) row_span) (\<lambda>(s, e).
     bindE (bindE (py_nth span_pages (- 1)) row_span) (\<lambda>(s', n).
     bindE (foldE (add_claimant P page_id n bodies_dense) txs []) (\<lambda>proof_bodies.
     bindE (mapE row_span span_pages) (\<lambda>page_spans.
     bindE (build P (map (\<lambda>(a, b). tobytes (py_slice parent_state a b)) page_spans)) (\<lambda>levels.
     bindE (merkle_proof levels page_id) (\<lambda>path1.
     Inr \<lparr>fp_header = Some h, fp_parent_header = Some ph, fp_parent_model_json = parent_model_json,
          fp_committed_leaves = committed_leaves, fp_page_id = page_id,
          fp_txids = sort (map (bp_txid P) txs), fp_txs = map tx_entry txs, fp_bodies = proof_bodies,
          fp_parent_page = py_slice parent_state s e,
          fp_parent_path = map (\<lambda>(side, sib). (side, hex sib)) path1\<rparr>)))))))"

subsection \<open>Verifying a proof\<close>

text \<open>\<^verbatim>\<open>while len(level) > 1\<close>\<close>

function fold_level :: "prims \<Rightarrow> bytes list \<Rightarrow> bytes list" where
  "fold_level P level = (if 1 < length level then fold_level P (next_level P level) else level)"
  by pat_completeness auto
termination
  by (relation "measure (\<lambda>(P, l). length l)") (auto simp: length_next_level)

declare fold_level.simps [simp del]

text \<open>The loop over the transactions: the parsed ones so far, or the verdict that ends the verification.\<close>

fun fraud_txs :: "prims \<Rightarrow> string list \<Rightarrow> int \<Rightarrow> tx_dict list \<Rightarrow> backprop_tx list \<Rightarrow> (verdict + backprop_tx list) res" where
  "fraud_txs P ids base [] acc = Inr (Inr acc)"
| "fraud_txs P ids base (t # ts) acc =
     bindE (unhex (td_sig_hex t)) (\<lambda>sg.
     let tx = (td_tx t)\<lparr>bp_sig := sg\<rparr>
     in if bp_txid P tx \<notin> set ids then Inr (Inl TxNotCommitted)
        else if \<not> bp_verify P tx then Inr (Inl BadTxSignature)
        else if bp_base_height tx \<noteq> base then Inr (Inl BaseHeightMismatch)
        else fraud_txs P ids base ts (acc @ [tx]))"

text \<open>The loop over the claimants: their columns of the page.\<close>

fun fraud_cols :: "prims \<Rightarrow> (string, sparse_body) dict \<Rightarrow> int \<Rightarrow> int \<Rightarrow> span \<Rightarrow> backprop_tx list \<Rightarrow> weights list \<Rightarrow>
     (verdict + weights list) res" where
  "fraud_cols P bodies pid n sp [] acc = Inr (Inr acc)"
| "fraud_cols P bodies pid n sp (tx # txs) acc =
     (if pid \<notin> set (canonical_pages tx) then fraud_cols P bodies pid n sp txs acc
      else case map_of bodies (bp_txid P tx) of
             None \<Rightarrow> Inr (Inl MissingBody)
           | Some body \<Rightarrow>
               bindE (dense body n) (\<lambda>od.
               case od of
                 None \<Rightarrow> Inr (Inl MalformedBody)
               | Some d \<Rightarrow>
                   if delta_hash P (tobytes d) \<noteq> bp_delta_hash tx then Inr (Inl BodyMismatch)
                   else fraud_cols P bodies pid n sp txs (acc @ [py_slice d (fst sp) (snd sp)])))"

definition bindV :: "(verdict + 'a) res \<Rightarrow> ('a \<Rightarrow> verdict res) \<Rightarrow> verdict res" where
  "bindV m f = bindE m (\<lambda>v. case v of Inl w \<Rightarrow> Inr w | Inr x \<Rightarrow> f x)"

text \<open>The last part: the parent page, its inclusion, and the recomputation.\<close>

definition recompute_page :: "weights \<Rightarrow> weights list \<Rightarrow> weights res" where
  "recompute_page parent_page cols =
     (if cols = [] then Inr parent_page else bindE (trimmed_mean_int cols) (vec_add parent_page))"

definition verify_page ::
  "prims \<Rightarrow> fraud_proof \<Rightarrow> header \<Rightarrow> span \<Rightarrow> bytes list \<Rightarrow> weights list \<Rightarrow> verdict res" where
  "verify_page P pf ph sp leaves cols =
     (let pid = fp_page_id pf
      in bindE (raise_if (\<exists>x\<in>set (fp_parent_page pf). \<not> is_i64 x) OverflowError) (\<lambda>_.
         if int (length (fp_parent_page pf)) \<noteq> snd sp - fst sp then Inr SpanMismatch
         else bindE (mapE (\<lambda>(side, sib). bindE (unhex sib) (\<lambda>b. Inr (side, b))) (fp_parent_path pf)) (\<lambda>path1.
              bindE (unhex (h_state_root ph)) (\<lambda>sr.
              if \<not> merkle_verify P (tobytes (fp_parent_page pf)) pid path1 sr then Inr ParentPageNotIncluded
              else bindE (recompute_page (fp_parent_page pf) cols) (\<lambda>new_page.
                   let recomputed = leaf_hash P (tobytes new_page); committed = leaves ! nat pid
                   in Inr (if recomputed = committed then NoFraud else FRAUD pid committed recomputed))))))"

definition fraud_verify :: "prims \<Rightarrow> fraud_proof \<Rightarrow> verdict res" where
  "fraud_verify P pf =
     (case (fp_header pf, fp_parent_header pf) of
        (Some h, Some ph) \<Rightarrow>
          if h_prev_hash h \<noteq> block_hash P ph then Inr NotTheChild
          else if sha_hex P (encode (fp_parent_model_json pf)) \<noteq> h_model_root ph then Inr ModelMismatch
          else bindE (page_rows (fp_parent_model_json pf)) (\<lambda>pages.
            let pid = fp_page_id pf
            in if \<not> (0 \<le> pid \<and> pid < int (length pages)) then Inr PageOutOfRange
            else bindE (row_span (pages ! nat pid)) (\<lambda>sp.
              bindE (row_span (last pages)) (\<lambda>(s', n).
              if length (fp_committed_leaves pf) \<noteq> length pages then Inr GrowthBlock
              else bindE (mapE unhex (fp_committed_leaves pf)) (\<lambda>leaves.
                if hex (hd (fold_level P leaves)) \<noteq> h_state_root h then Inr LeavesMismatch
                else if sha_hex P (encode (join ''|'' (sort (fp_txids pf)))) \<noteq> h_txset_root h then Inr TxidsMismatch
                else if length (fp_txs pf) \<noteq> length (fp_txids pf) \<or> int (length (fp_txids pf)) \<noteq> h_n_txs h then Inr TxListIncomplete
                else bindV (fraud_txs P (fp_txids pf) (h_height ph) (fp_txs pf) []) (\<lambda>txs.
                     bindV (fraud_cols P (fp_bodies pf) pid n sp txs []) (\<lambda>cols.
                     verify_page P pf ph sp leaves cols))))))
      | _ \<Rightarrow> Inr MalformedHeaders)"

subsection \<open>Sparse bodies lose nothing\<close>

lemma dense_loop_fill:
  assumes "\<forall>x\<in>set d. is_i64 x"
  shows "length out = length d \<Longrightarrow> (\<forall>i\<in>set is. i < length d) \<Longrightarrow> sorted_wrt (<) is \<Longrightarrow> (\<forall>i\<in>set is. lst < int i) \<Longrightarrow>
    dense_loop (int (length d)) (zip (map int is) (map (\<lambda>i. d ! i) is)) lst out =
      Inr (Some (map (\<lambda>j. if j \<in> set is then d ! j else out ! j) [0..<length d]))"
proof (induction "is" arbitrary: lst out)
  case Nil
  have "map (\<lambda>j. out ! j) [0..<length out] = out" by (rule map_nth)
  then show ?case using Nil by simp
next
  case (Cons i "is")
  have i: "i < length d" "is_i64 (d ! i)" using Cons.prems(2) assms by simp_all
  have "dense_loop (int (length d)) (zip (map int is) (map (\<lambda>i. d ! i) is)) (int i) (out[i := d ! i]) =
      Inr (Some (map (\<lambda>j. if j \<in> set is then d ! j else out[i := d ! i] ! j) [0..<length d]))"
    using Cons.prems by (intro Cons.IH) auto
  also have "map (\<lambda>j. if j \<in> set is then d ! j else out[i := d ! i] ! j) [0..<length d] =
      map (\<lambda>j. if j \<in> set (i # is) then d ! j else out ! j) [0..<length d]"
    using Cons.prems(1) by (intro map_cong) (auto simp: nth_list_update)
  finally show ?case using i Cons.prems(4) by simp
qed

lemma dense_sparse:
  assumes "\<forall>x\<in>set d. is_i64 x"
  shows "dense (sparse_of (int (length d)) d) (int (length d)) = Inr (Some d)"
proof -
  have "sorted_wrt (<) (nonzero_at d)" by (simp add: nonzero_at_def sorted_wrt_filter)
  then have "dense_loop (int (length d)) (zip (map int (nonzero_at d)) (map (\<lambda>i. d ! i) (nonzero_at d))) (- 1) (replicate (length d) 0) =
      Inr (Some (map (\<lambda>j. if j \<in> set (nonzero_at d) then d ! j else replicate (length d) 0 ! j) [0..<length d]))"
    using assms by (intro dense_loop_fill) (auto simp: nonzero_at_def)
  also have "map (\<lambda>j. if j \<in> set (nonzero_at d) then d ! j else replicate (length d) 0 ! j) [0..<length d] = d"
    by (rule nth_equalityI) (auto simp: nonzero_at_def)
  finally show ?thesis by (simp add: dense_def sparse_of_def)
qed

lemma fold_level_root: "fold_level P l = last (levels_from P l)"
  by (induction P l rule: fold_level.induct) (subst fold_level.simps, subst levels_from.simps, simp)

subsection \<open>The recomputation is the consensus rule\<close>

lemma recompute_consensus:
  assumes len: "length w = n" "\<forall>b\<in>set bodies. length b = n" and sps: "\<forall>sp\<in>set sps. span_ok n sp" "disjoint_spans sps"
    and i: "i < length sps" and tr: "paged_transition w bodies claims sps = Inr w'"
  shows "recompute_page (py_slice w (fst (sps ! i)) (snd (sps ! i))) (contributors bodies claims (int i) (sps ! i)) =
     Inr (py_slice w' (fst (sps ! i)) (snd (sps ! i)))"
proof -
  define a e where "a = nat (fst (sps ! i))" and "e = nat (snd (sps ! i))"
  have ok: "span_ok n (sps ! i)" using sps(1) i by simp
  then have ae: "fst (sps ! i) = int a" "snd (sps ! i) = int e" "a \<le> e" "e \<le> n" by (auto simp: span_ok_def a_def e_def)
  from paged_transition_spec [OF len sps, of claims] tr have w': "length w' = n"
    "\<forall>j<n. in_span j (sps ! i) \<longrightarrow> w' ! j = coord_update bodies claims (int i) j (w ! j)" using i by auto
  let ?bs = "claimers bodies claims (int i)"
  have sl: "py_slice b (int a) (int e) = take (e - a) (drop a b)" if "length b = n" for b :: weights
    using that ae by (simp add: py_slice_def)
  have lens: "\<And>b. b \<in> set ?bs \<Longrightarrow> length b = n" using len(2) set_claimers [of bodies claims "int i"] by blast
  have cs: "contributors bodies claims (int i) (sps ! i) = map (\<lambda>b. take (e - a) (drop a b)) ?bs"
    using lens by (simp add: contributors_eq ae sl)
  have ins: "in_span (a + k) (sps ! i)" if "k < e - a" for k using that by (simp add: in_span_def ae)
  have "recompute_page (take (e - a) (drop a w)) (map (\<lambda>b. take (e - a) (drop a b)) ?bs) = Inr (take (e - a) (drop a w'))"
  proof (cases "?bs = []")
    case True
    have "take (e - a) (drop a w) = take (e - a) (drop a w')"
      using w' ins ae len(1) True by (intro nth_equalityI) (auto simp: coord_update_def)
    then show ?thesis using True by (simp add: recompute_page_def)
  next
    case False
    have "map2 (\<lambda>x y. wrap64 (x + y)) (take (e - a) (drop a w)) (map (\<lambda>k. trimmed_mean_col (column ?bs (a + k))) [0..<e - a]) =
        take (e - a) (drop a w')"
      using w' ins ae len(1) False by (intro nth_equalityI) (auto simp: coord_update_def)
    then show ?thesis using False trimmed_mean_slices [OF False lens ae(3,4)] ae len(1) by (simp add: recompute_page_def vec_add_def)
  qed
  then show ?thesis using sl [OF len(1)] sl [OF w'(1)] by (simp add: cs ae)
qed

subsection \<open>A proof from true data\<close>

text \<open>
  What a validator holds that rejects the block with header \<open>h\<close>: the parent's header, model
  state and weights, the block's transactions with their bodies, and leaves that fold to the
  state root of the accused header.
\<close>

definition page_spans :: "model_state \<Rightarrow> span list" where
  "page_spans m = map (\<lambda>p. (pg_start p, pg_end p)) (ms_pages m)"

definition dispute :: "prims \<Rightarrow> header \<Rightarrow> header \<Rightarrow> model_state \<Rightarrow> weights \<Rightarrow> backprop_tx list \<Rightarrow> (string, weights) dict \<Rightarrow> bool" where
  "dispute P h ph m w txs bodies \<longleftrightarrow>
     h_prev_hash h = block_hash P ph \<and> h_model_root ph = model_root P m \<and> page_state_root P w m = Inr (h_state_root ph) \<and>
     h_txset_root h = txset_root P txs \<and> h_n_txs h = int (length txs) \<and>
     (\<forall>x\<in>set w. is_i64 x) \<and> ms_pages m \<noteq> [] \<and> pg_end (last (ms_pages m)) = int (length w) \<and>
     (\<forall>sp\<in>set (page_spans m). span_ok (length w) sp) \<and> disjoint_spans (page_spans m) \<and>
     (\<forall>t\<in>set txs. bp_verify P t \<and> bp_base_height t = h_height ph \<and>
        (\<exists>d. map_of bodies (bp_txid P t) = Some d \<and> length d = length w \<and> (\<forall>x\<in>set d. is_i64 x) \<and>
           delta_hash P (tobytes d) = bp_delta_hash t))"

definition claimed_bodies :: "prims \<Rightarrow> (string, weights) dict \<Rightarrow> backprop_tx list \<Rightarrow> weights list" where
  "claimed_bodies P bodies txs = map (\<lambda>t. the (map_of bodies (bp_txid P t))) txs"

lemma page_rows_canonical: "page_rows (canonical_json m) = Inr (map page_json (ms_pages m))"
proof -
  have wf: "json_wf (model_json m)" by (auto simp: model_json_def page_json_def pending_json_def Let_def split: prod.splits)
  have rows: "map canon (map page_json ps) = map page_json ps" for ps by (simp add: page_json_def)
  let ?kvs = "case model_json m of JObj kvs \<Rightarrow> map (\<lambda>(k, v). (k, canon v)) kvs | _ \<Rightarrow> []"
  have o: "canon (model_json m) = JObj (sort_key fst ?kvs)" by (simp add: model_json_def)
  have "distinct (map fst ?kvs)" by (cases "3 \<le> ms_rev m"; cases "4 \<le> ms_rev m") (simp_all add: model_json_def)
  then have "map_of (sort_key fst ?kvs) ''pages'' = map_of ?kvs ''pages''" by (simp add: map_of_sort_key)
  also have "\<dots> = Some (JList (map page_json (ms_pages m)))" using rows [of "ms_pages m"] by (simp add: model_json_def)
  finally show ?thesis using loads_dumps_compact [OF wf]
    by (simp add: page_rows_def canonical_json_def o json_get_def)
qed

lemma row_span_page [simp]: "row_span (page_json p) = Inr (pg_start p, pg_end p)"
  by (simp add: row_span_def page_json_def)

lemma rows_spans: "mapE row_span (map page_json ps) = Inr (map (\<lambda>p. (pg_start p, pg_end p)) ps)"
  by (induction ps) auto

text \<open>Writing the canonical page and reference lists into a transaction changes nothing it signs.\<close>

definition norm_tx :: "backprop_tx \<Rightarrow> backprop_tx" where
  "norm_tx t = t\<lparr>bp_pages := canonical_pages t, bp_data_refs := canonical_refs t\<rparr>"

lemma norm_tx [simp]:
  "canonical_pages (norm_tx t) = canonical_pages t" "bp_signing_bytes (norm_tx t) = bp_signing_bytes t"
  "bp_txid P (norm_tx t) = bp_txid P t" "bp_verify P (norm_tx t) = bp_verify P t"
  "bp_base_height (norm_tx t) = bp_base_height t" "bp_delta_hash (norm_tx t) = bp_delta_hash t"
proof -
  have sr: "sort (remdups (sort (remdups xs))) = sort (remdups xs)" for xs :: "'x::linorder list"
    by (simp add: distinct_remdups_id sorted_sort_id)
  show c: "canonical_pages (norm_tx t) = canonical_pages t" by (simp add: norm_tx_def canonical_pages_def sr)
  have "canonical_refs (norm_tx t) = canonical_refs t" by (simp add: norm_tx_def canonical_refs_def sr)
  with c show b: "bp_signing_bytes (norm_tx t) = bp_signing_bytes t"
    by (simp add: bp_signing_bytes_def bp_fields_def Let_def) (simp add: norm_tx_def)
  show "bp_txid P (norm_tx t) = bp_txid P t" "bp_verify P (norm_tx t) = bp_verify P t"
    unfolding bp_txid_def bp_verify_def b by (simp_all add: norm_tx_def)
qed (simp_all add: norm_tx_def)

lemma fraud_txs_ok:
  "\<forall>t\<in>set txs. bp_verify P t \<and> bp_base_height t = base \<and> bp_txid P t \<in> set ids \<Longrightarrow>
     fraud_txs P ids base (map tx_entry txs) acc = Inr (Inr (acc @ map norm_tx txs))"
proof (induction txs arbitrary: acc)
  case (Cons t txs)
  have "(td_tx (tx_entry t))\<lparr>bp_sig := bp_sig t\<rparr> = norm_tx t" by (simp add: tx_entry_def norm_tx_def)
  moreover have "unhex (td_sig_hex (tx_entry t)) = Inr (bp_sig t)" by (simp add: tx_entry_def unhex_def fromhex_hex)
  ultimately show ?case using Cons by simp
qed simp

lemma add_claimants:
  "\<forall>t\<in>set txs. map_of bodies (bp_txid P t) \<noteq> None \<Longrightarrow> \<forall>k b. map_of acc k = Some b \<longrightarrow> b = sparse_of n (the (map_of bodies k)) \<Longrightarrow>
     \<exists>pb. foldE (add_claimant P pid n bodies) txs acc = Inr pb \<and> dom (map_of acc) \<subseteq> dom (map_of pb) \<and>
       (\<forall>k b. map_of pb k = Some b \<longrightarrow> b = sparse_of n (the (map_of bodies k))) \<and>
       (\<forall>t\<in>set txs. pid \<in> set (canonical_pages t) \<longrightarrow> map_of pb (bp_txid P t) \<noteq> None)"
proof (induction txs arbitrary: acc)
  case (Cons t txs)
  obtain d where d: "map_of bodies (bp_txid P t) = Some d" using Cons.prems(1) by auto
  define acc' where "acc' = (if pid \<in> set (canonical_pages t) then AList.update (bp_txid P t) (sparse_of n d) acc else acc)"
  have step: "add_claimant P pid n bodies t acc = Inr acc'" by (simp add: add_claimant_def acc'_def d)
  have inv: "\<forall>k b. map_of acc' k = Some b \<longrightarrow> b = sparse_of n (the (map_of bodies k))"
    using Cons.prems(2) by (auto simp: acc'_def update_conv' d)
  have grow: "dom (map_of acc) \<subseteq> dom (map_of acc')" by (auto simp: acc'_def update_conv')
  have t: "pid \<in> set (canonical_pages t) \<Longrightarrow> bp_txid P t \<in> dom (map_of acc')" by (simp add: acc'_def update_conv')
  from Cons.IH [OF _ inv] Cons.prems(1) obtain pb where pb:
    "foldE (add_claimant P pid n bodies) txs acc' = Inr pb" "dom (map_of acc') \<subseteq> dom (map_of pb)"
    "\<forall>k b. map_of pb k = Some b \<longrightarrow> b = sparse_of n (the (map_of bodies k))"
    "\<forall>t\<in>set txs. pid \<in> set (canonical_pages t) \<longrightarrow> map_of pb (bp_txid P t) \<noteq> None" by auto
  have "dom (map_of acc) \<subseteq> dom (map_of pb)" by (rule subset_trans [OF grow pb(2)])
  moreover have "pid \<in> set (canonical_pages t) \<Longrightarrow> map_of pb (bp_txid P t) \<noteq> None" using t pb(2) by blast
  ultimately show ?case using step pb by (intro exI [of _ pb] conjI) simp_all
qed auto

lemma fraud_cols_ok:
  assumes "\<forall>k b. map_of pb k = Some b \<longrightarrow> b = sparse_of (int n) (the (map_of bodies k))"
  shows "\<forall>t\<in>set txs. (pid \<in> set (canonical_pages t) \<longrightarrow> map_of pb (bp_txid P t) \<noteq> None) \<and>
       (\<exists>d. map_of bodies (bp_txid P t) = Some d \<and> length d = n \<and> (\<forall>x\<in>set d. is_i64 x) \<and> delta_hash P (tobytes d) = bp_delta_hash t) \<Longrightarrow>
     fraud_cols P pb pid (int n) sp (map norm_tx txs) acc =
       Inr (Inr (acc @ contributors (claimed_bodies P bodies txs) (map canonical_pages txs) pid sp))"
proof (induction txs arbitrary: acc)
  case (Cons t txs)
  then obtain d where d: "map_of bodies (bp_txid P t) = Some d" "length d = n" "\<forall>x\<in>set d. is_i64 x" "delta_hash P (tobytes d) = bp_delta_hash t"
    by auto
  show ?case
  proof (cases "pid \<in> set (canonical_pages t)")
    case True
    then obtain b where b: "map_of pb (bp_txid P t) = Some b" using Cons.prems by auto
    have "b = sparse_of (int n) d" using assms [rule_format, OF b] d(1) by simp
    then have "dense b (int n) = Inr (Some d)" using dense_sparse [OF d(3)] d(2) by simp
    then show ?thesis using Cons True b d by (simp add: contributors_def claimed_bodies_def)
  next
    case False
    then show ?thesis using Cons by (simp add: contributors_def claimed_bodies_def)
  qed
qed (simp add: contributors_def claimed_bodies_def)

lemma root_path:
  assumes "page_state_root P w m = Inr sr" "i < length (ms_pages m)"
  shows "\<exists>levels path1 r. build P (map (\<lambda>(a, b). tobytes (py_slice w a b)) (page_spans m)) = Inr levels \<and>
     merkle_proof levels (int i) = Inr path1 \<and> fromhex sr = Some r \<and>
     merkle_verify P (tobytes (py_slice w (pg_start (ms_pages m ! i)) (pg_end (ms_pages m ! i)))) k path1 r"
proof -
  have leaves: "map (\<lambda>(a, b). tobytes (py_slice w a b)) (page_spans m) = map (page_leaf w) (ms_pages m)"
    by (simp add: page_spans_def page_leaf_def)
  from assms(1) obtain r where r: "root P (map (page_leaf w) (ms_pages m)) = Inr r" "sr = hex r"
    by (auto simp: page_state_root_def res_simps)
  from merkle_complete [of i "map (page_leaf w) (ms_pages m)" P k] assms(2) r show ?thesis
    by (auto simp: leaves page_leaf_def fromhex_hex)
qed

lemma mapE_unhex: "mapE unhex (map hex bs) = Inr bs"
  by (induction bs) (auto simp: unhex_def fromhex_hex)

lemma mapE_path: "mapE (\<lambda>(side, sib). bindE (unhex sib) (\<lambda>b. Inr (side, b))) (map (\<lambda>(side, sib). (side, hex sib)) p) = Inr p"
  by (induction p) (auto simp: unhex_def fromhex_hex)

text \<open>The verdict on a proof assembled from true data.\<close>

lemma fraud_verdict:
  assumes d: "dispute P h ph m w txs bodies" and i: "i < length (ms_pages m)"
    and leaves: "length leaves = length (ms_pages m)" "hex (hd (fold_level P leaves)) = h_state_root h"
    and tr: "paged_transition w (claimed_bodies P bodies txs) (map canonical_pages txs) (page_spans m) = Inr w'"
  shows "\<exists>pf. fraud_build P h ph (canonical_json m) (map hex leaves) (int i) txs bodies w = Inr pf \<and>
     fp_header pf = Some h \<and> fp_parent_header pf = Some ph \<and>
     fraud_verify P pf = Inr (let honest = leaf_hash P (page_leaf w' (ms_pages m ! i))
       in if honest = leaves ! i then NoFraud else FRAUD (int i) (leaves ! i) honest)"
proof -
  let ?p = "ms_pages m ! i" and ?rows = "map page_json (ms_pages m)" and ?n = "int (length w)"
  let ?sp = "(pg_start ?p, pg_end ?p)"
  have pages: "ms_pages m \<noteq> []" "pg_end (last (ms_pages m)) = ?n" and sps: "\<forall>sp\<in>set (page_spans m). span_ok (length w) sp" "disjoint_spans (page_spans m)"
    and i64: "\<forall>x\<in>set w. is_i64 x"
    and bod: "\<forall>t\<in>set txs. \<exists>d. map_of bodies (bp_txid P t) = Some d \<and> length d = length w \<and> (\<forall>x\<in>set d. is_i64 x) \<and>
           delta_hash P (tobytes d) = bp_delta_hash t"
    using d by (auto simp: dispute_def)
  have nth: "page_spans m ! i = ?sp" "i < length (page_spans m)" using i by (simp_all add: page_spans_def)
  have ok: "span_ok (length w) ?sp" using sps(1) nth by (metis nth_mem)
  have row: "py_nth ?rows (int i) = Inr (page_json ?p)" using i by simp
  have lastrow: "py_nth ?rows (- 1) = Inr (page_json (last (ms_pages m)))" "last ?rows = page_json (last (ms_pages m))"
    using pages(1) by (simp_all add: py_nth_def last_conv_nth nat_diff_distrib' last_map Suc_le_eq)
  have lk: "map_of bodies (bp_txid P t) \<noteq> None" if "t \<in> set txs" for t using bod that by fastforce
  from add_claimants [of txs bodies P "[]" ?n "int i"] lk obtain pb where
    pb: "foldE (add_claimant P (int i) ?n bodies) txs [] = Inr pb"
      "\<forall>k b. map_of pb k = Some b \<longrightarrow> b = sparse_of ?n (the (map_of bodies k))"
      "\<forall>t\<in>set txs. int i \<in> set (canonical_pages t) \<longrightarrow> map_of pb (bp_txid P t) \<noteq> None" by auto
  from d have "page_state_root P w m = Inr (h_state_root ph)" by (simp add: dispute_def)
  from root_path [OF this i, of "int i"] obtain levels path1 r where
    mk: "build P (map (\<lambda>(a, b). tobytes (py_slice w a b)) (page_spans m)) = Inr levels" "merkle_proof levels (int i) = Inr path1"
      "fromhex (h_state_root ph) = Some r" "merkle_verify P (tobytes (py_slice w (pg_start ?p) (pg_end ?p))) (int i) path1 r" by blast
  define pf where "pf = \<lparr>fp_header = Some h, fp_parent_header = Some ph, fp_parent_model_json = canonical_json m,
          fp_committed_leaves = map hex leaves, fp_page_id = int i, fp_txids = sort (map (bp_txid P) txs), fp_txs = map tx_entry txs,
          fp_bodies = pb, fp_parent_page = py_slice w (pg_start ?p) (pg_end ?p),
          fp_parent_path = map (\<lambda>(side, sib). (side, hex sib)) path1\<rparr>"
  have built: "fraud_build P h ph (canonical_json m) (map hex leaves) (int i) txs bodies w = Inr pf"
    unfolding fraud_build_def page_rows_canonical bindE_Inr row lastrow(1) row_span_page rows_spans
    using pb(1) pages(2) mk(1,2) by (simp add: pf_def page_spans_def)
  let ?cols = "contributors (claimed_bodies P bodies txs) (map canonical_pages txs) (int i) ?sp"
  have txs: "fraud_txs P (fp_txids pf) (h_height ph) (fp_txs pf) [] = Inr (Inr (map norm_tx txs))"
    using fraud_txs_ok [of txs P "h_height ph" "sort (map (bp_txid P) txs)" "[]"] d by (auto simp: pf_def dispute_def)
  have cols: "fraud_cols P (fp_bodies pf) (int i) ?n ?sp (map norm_tx txs) [] = Inr (Inr ?cols)"
    using fraud_cols_ok [OF pb(2), of txs "int i" P ?sp "[]"] bod pb(3) by (auto simp: pf_def)
  have "\<forall>b\<in>set (claimed_bodies P bodies txs). length b = length w"
    using bod by (fastforce simp: claimed_bodies_def)
  from recompute_consensus [OF refl this sps nth(2) tr]
  have rc: "recompute_page (py_slice w (pg_start ?p) (pg_end ?p)) ?cols = Inr (py_slice w' (pg_start ?p) (pg_end ?p))"
    by (simp add: nth(1))
  have pl: "int (length (py_slice w (pg_start ?p) (pg_end ?p))) = pg_end ?p - pg_start ?p"
    using ok by (auto simp: span_ok_def py_slice_def Let_def slice_index_def)
  have small: "\<not> (\<exists>x\<in>set (py_slice w (pg_start ?p) (pg_end ?p)). \<not> is_i64 x)"
    using i64 by (auto simp: py_slice_def Let_def dest!: in_set_takeD in_set_dropD)
  have page: "verify_page P pf ph ?sp leaves ?cols = Inr (let honest = leaf_hash P (page_leaf w' ?p)
       in if honest = leaves ! i then NoFraud else FRAUD (int i) (leaves ! i) honest)"
    unfolding verify_page_def Let_def pf_def fraud_proof.simps mapE_path
    using small pl mk(3,4) rc by (simp add: unhex_def page_leaf_def)
  have "fraud_verify P pf = verify_page P pf ph ?sp leaves ?cols"
  proof -
    have "h_prev_hash h = block_hash P ph" "sha_hex P (encode (canonical_json m)) = h_model_root ph"
      "sha_hex P (encode (join ''|'' (sort (sort (map (bp_txid P) txs))))) = h_txset_root h" "int (length txs) = h_n_txs h"
      using d by (simp_all add: dispute_def model_root_def txset_root_def sorted_sort_id)
    then show ?thesis
      unfolding fraud_verify_def using i leaves pages(2) txs cols
      by (simp add: pf_def page_rows_canonical mapE_unhex lastrow(2) bindV_def Let_def)
  qed
  with built page show ?thesis by (auto simp: pf_def)
qed

subsection \<open>Honest blocks can be convicted\<close>

text \<open>
  Moving a byte from the first committed leaf to the second keeps every node hash above them.
\<close>

definition shift_leaves :: "bytes list \<Rightarrow> bytes list" where
  "shift_leaves ls = (case ls of a # b # r \<Rightarrow> take 31 a # (drop 31 a @ b) # r | _ \<Rightarrow> ls)"

lemma fold_shifted:
  assumes "2 \<le> length ls"
  shows "fold_level P (shift_leaves ls) = fold_level P ls"
proof -
  obtain a b r where ls: "ls = a # b # r" using assms by (cases ls; cases "tl ls") auto
  have "node_hash P (take 31 a) (drop 31 a @ b) = node_hash P a b" by (simp add: node_hash_def flip: append_assoc)
  then have "next_level P (shift_leaves ls) = next_level P ls" by (simp add: ls shift_leaves_def)
  then show ?thesis by (simp add: fold_level.simps [of P "shift_leaves ls"] fold_level.simps [of P ls]) (simp add: ls shift_leaves_def)
qed

lemma honest_convicted:
  assumes d: "dispute P h ph m w txs bodies" and pages: "2 \<le> length (ms_pages m)" and len: "\<forall>b. length (sha256 P b) = 32"
    and tr: "paged_transition w (claimed_bodies P bodies txs) (map canonical_pages txs) (page_spans m) = Inr w'"
    and honest: "page_state_root P w' m = Inr (h_state_root h)"
  shows "\<exists>pf c r. fp_header pf = Some h \<and> fp_parent_header pf = Some ph \<and> fraud_verify P pf = Inr (FRAUD 0 c r)"
proof -
  define ls where "ls = map (leaf_hash P) (map (page_leaf w') (ms_pages m))"
  have l: "length ls = length (ms_pages m)" "hex (hd (fold_level P ls)) = h_state_root h"
    using honest pages by (auto simp: ls_def page_state_root_def root_def build_def res_simps fold_level_root split: if_splits)
  have sl: "length (shift_leaves ls) = length (ms_pages m)" unfolding l(1) [symmetric] by (simp add: shift_leaves_def split: list.splits)
  have sf: "hex (hd (fold_level P (shift_leaves ls))) = h_state_root h" using fold_shifted [of ls P] l pages by simp
  have "0 < length (ms_pages m)" using pages by linarith
  from fraud_verdict [OF d this sl sf tr] obtain pf where
    pf: "fp_header pf = Some h" "fp_parent_header pf = Some ph" "fraud_verify P pf = Inr (let honest = leaf_hash P (page_leaf w' (ms_pages m ! 0))
       in if honest = shift_leaves ls ! 0 then NoFraud else FRAUD (int 0) (shift_leaves ls ! 0) honest)" by blast
  have "length (shift_leaves ls ! 0) = 31"
    using pages l(1) len by (auto simp: shift_leaves_def ls_def leaf_hash_def split: list.splits)
  moreover have "length (leaf_hash P (page_leaf w' (ms_pages m ! 0))) = 32" by (simp add: leaf_hash_def len)
  ultimately have "leaf_hash P (page_leaf w' (ms_pages m ! 0)) \<noteq> shift_leaves ls ! 0" by auto
  with pf show ?thesis by auto
qed

end
