(* ===== verification/Chain_Layout.thy ===== *)
theory Chain_Layout
  imports Wire Merkle
begin

section \<open>The torch order and the chain order of the weights (client/moe.py)\<close>

text \<open>
  Torch lists the parameters of the mixture-of-experts model in module order, experts inside
  their layers; the chain wants the backbone first and then one page per expert.
  \<^verbatim>\<open>ChainLayout\<close> computes the permutation between the two and the page table. The model
  starts from the list \<^verbatim>\<open>named_parameters()\<close> returns (names and sizes). The planning of a
  miner's page claim (\<^verbatim>\<open>client/miner_bridge.py\<close>) works on that table and is modelled here too.
\<close>

subsection \<open>Names\<close>

fun split_dot :: "string \<Rightarrow> string list" where
  "split_dot [] = [[]]"
| "split_dot (c # cs) =
     (if c = CHR ''.'' then [] # split_dot cs
      else case split_dot cs of [] \<Rightarrow> [[c]] | w # ws \<Rightarrow> (c # w) # ws)"

text \<open>\<^verbatim>\<open>int(s)\<close> on a string of digits, the form torch gives the members of a module list.\<close>

definition str_int :: "string \<Rightarrow> nat res" where
  "str_int s = (if s \<noteq> [] \<and> list_all is_digit s then Inr (dec_val s) else Inl ValueError)"

fun index_of :: "'a \<Rightarrow> 'a list \<Rightarrow> nat res" where
  "index_of x [] = Inl ValueError"
| "index_of x (y # ys) = (if x = y then Inr 0 else bindE (index_of x ys) (\<lambda>i. Inr (Suc i)))"

definition after :: "string \<Rightarrow> string list \<Rightarrow> nat res" where
  "after k parts =
     bindE (index_of k parts) (\<lambda>i. if Suc i < length parts then str_int (parts ! Suc i) else Inl IndexError)"

type_synonym expert = "nat \<times> nat"

definition expert_key :: "string \<Rightarrow> expert option res" where
  "expert_key name =
     (let parts = split_dot name
      in if ''experts'' \<in> set parts \<and> ''blocks'' \<in> set parts
         then bindE (after ''blocks'' parts) (\<lambda>l. bindE (after ''experts'' parts) (\<lambda>e. Inr (Some (l, e))))
         else Inr None)"

subsection \<open>The layout\<close>

record chain_layout =
  cl_n :: nat
  cl_expert_page_len :: nat
  cl_backbone_params :: nat
  cl_experts :: "expert list"
  cl_page_spans :: "(nat \<times> nat) list"
  cl_to_chain :: "nat list"
  cl_to_torch :: "nat list"

text \<open>The runs of the flat vector, each with the expert it belongs to.\<close>

type_synonym run = "expert option \<times> nat \<times> nat"

fun param_runs :: "(string \<times> nat) list \<Rightarrow> nat \<Rightarrow> run list res" where
  "param_runs [] i = Inr []"
| "param_runs ((name, numel) # ps) i =
     bindE (expert_key name) (\<lambda>k. bindE (param_runs ps (i + numel)) (\<lambda>rs. Inr ((k, i, i + numel) # rs)))"

definition run_len :: "run \<Rightarrow> nat" where
  "run_len r = snd (snd r) - fst (snd r)"

definition run_range :: "run \<Rightarrow> nat list" where
  "run_range r = [fst (snd r)..<snd (snd r)]"

definition backbone_runs :: "run list \<Rightarrow> run list" where
  "backbone_runs rs = filter (\<lambda>r. fst r = None) rs"

definition add_run :: "run \<Rightarrow> (expert, run list) dict \<Rightarrow> (expert, run list) dict" where
  "add_run r d = (case fst r of None \<Rightarrow> d | Some k \<Rightarrow> AList.update k (dict_get d k [] @ [r]) d)"

definition expert_runs :: "run list \<Rightarrow> (expert, run list) dict" where
  "expert_runs rs = fold add_run rs []"

fun expert_spans :: "nat \<Rightarrow> nat \<Rightarrow> expert list \<Rightarrow> (nat \<times> nat) list" where
  "expert_spans len pos [] = []"
| "expert_spans len pos (k # ks) = (pos, pos + len) # expert_spans len (pos + len) ks"

definition layout_of :: "nat \<Rightarrow> nat \<Rightarrow> (string \<times> nat) list \<Rightarrow> chain_layout res" where
  "layout_of d_embd d_hidden params =
     (let n = sum_list (map snd params);
          page_len = d_embd * d_hidden + d_hidden + d_hidden * d_embd + d_embd
      in bindE (param_runs params 0) (\<lambda>rs.
         let backbone = sum_list (map run_len (backbone_runs rs));
             ex = expert_runs rs;
             experts = sort (map fst ex)
         in bindE (raise_if (\<exists>k\<in>set experts. sum_list (map run_len (dict_get ex k [])) \<noteq> page_len) AssertionError) (\<lambda>_.
            let pieces = map run_range (backbone_runs rs) @ concat (map (\<lambda>k. map run_range (dict_get ex k [])) experts);
                to_chain = concat pieces
            in bindE (raise_if (pieces = []) ValueError) (\<lambda>_.
               bindE (raise_if (length to_chain \<noteq> n) AssertionError) (\<lambda>_.
               bindE (scatter to_chain [0..<n] (replicate n 0)) (\<lambda>to_torch.
               Inr \<lparr>cl_n = n, cl_expert_page_len = page_len, cl_backbone_params = backbone, cl_experts = experts,
                    cl_page_spans = (0, backbone) # expert_spans page_len backbone experts,
                    cl_to_chain = to_chain, cl_to_torch = to_torch\<rparr>))))))"

subsection \<open>Conversions and page queries\<close>

text \<open>\<^verbatim>\<open>vec[idx]\<close>: an index out of range raises.\<close>

definition gather :: "'a list \<Rightarrow> nat list \<Rightarrow> 'a list res" where
  "gather vec idx = (if \<exists>i\<in>set idx. length vec \<le> i then Inl IndexError else Inr (map (\<lambda>i. vec ! i) idx))"

definition chain_of :: "chain_layout \<Rightarrow> 'a list \<Rightarrow> 'a list res" where
  "chain_of L torch_vec = gather torch_vec (cl_to_chain L)"

definition torch_of :: "chain_layout \<Rightarrow> 'a list \<Rightarrow> 'a list res" where
  "torch_of L chain_vec = gather chain_vec (cl_to_torch L)"

definition n_pages :: "chain_layout \<Rightarrow> nat" where
  "n_pages L = length (cl_page_spans L)"

definition layout_span :: "chain_layout \<Rightarrow> int \<Rightarrow> (nat \<times> nat) res" where
  "layout_span L page_id = py_nth (cl_page_spans L) page_id"

definition page_of_expert :: "chain_layout \<Rightarrow> nat \<Rightarrow> nat \<Rightarrow> nat res" where
  "page_of_expert L layer e = bindE (index_of (layer, e) (cl_experts L)) (\<lambda>i. Inr (1 + i))"

definition pages_touched :: "chain_layout \<Rightarrow> int list \<Rightarrow> nat list" where
  "pages_touched L chain_delta =
     map fst (filter (\<lambda>(pid, s, e). \<exists>x\<in>set (take (e - s) (drop s chain_delta)). x \<noteq> 0) (List.enumerate 0 (cl_page_spans L)))"

definition zero_outside :: "chain_layout \<Rightarrow> int list \<Rightarrow> int list \<Rightarrow> int list res" where
  "zero_outside L chain_delta pages =
     bindE (mapE (layout_span L) pages) (\<lambda>spans1.
     bindE (raise_if (length chain_delta \<noteq> cl_n L) IndexError) (\<lambda>_.
     Inr (map (\<lambda>i. if \<exists>(s, e)\<in>set spans1. s \<le> i \<and> i < e then chain_delta ! i else 0) [0..<length chain_delta])))"

subsection \<open>The claim of a miner (client/miner_bridge.py)\<close>

definition page_mass :: "int list \<Rightarrow> nat \<times> nat \<Rightarrow> int" where
  "page_mass chain_delta sp = wrap64 (sum_list (map (\<lambda>x. wrap64 \<bar>x\<bar>) (take (snd sp - fst sp) (drop (fst sp) chain_delta))))"

definition claim_step :: "int \<Rightarrow> int \<times> (nat \<times> nat) \<times> int \<Rightarrow> int list \<times> int \<Rightarrow> int list \<times> int" where
  "claim_step budget pg st =
     (let (p, (s, e), mass) = pg; (claim, used) = st; plen = int e - int s
      in if used + plen \<le> budget \<and> 0 < mass then (claim @ [p], used + plen) else (claim, used))"

definition plan_claim :: "chain_layout \<Rightarrow> int list \<Rightarrow> int list \<Rightarrow> int \<Rightarrow> int \<Rightarrow> (int list \<times> int) res" where
  "plan_claim L chain_delta active max_nnz quota_4dp =
     (let budget = max_nnz * 1000000 div quota_4dp
      in bindE (mapE (\<lambda>p. bindE (layout_span L p) (\<lambda>sp. Inr (p, sp, page_mass chain_delta sp))) active) (\<lambda>infos.
         let ranked = sort_key (\<lambda>(p, sp, mass). (- mass, p)) infos;
             (claim, used) = fold (claim_step budget) ranked ([], 0)
         in bindE (if claim = [] then (case ranked of [] \<Rightarrow> Inl IndexError | r # _ \<Rightarrow> Inr [fst r]) else Inr claim) (\<lambda>claim.
            Inr (sort claim, used * quota_4dp div 1000000))))"

subsection \<open>The runs partition the vector\<close>

lemma param_runs_range:
  "param_runs ps i = Inr rs \<Longrightarrow> concat (map run_range rs) = [i..<i + sum_list (map snd ps)] \<and>
     (\<forall>r\<in>set rs. fst (snd r) \<le> snd (snd r))"
proof (induction ps arbitrary: i rs)
  case (Cons p ps)
  obtain name numel where p: "p = (name, numel)" by (cases p)
  with Cons.prems obtain k rs' where rs: "rs = (k, i, i + numel) # rs'" "param_runs ps (i + numel) = Inr rs'"
    by (auto simp: res_simps)
  have "[i..<i + numel + sum_list (map snd ps)] = [i..<i + numel] @ [i + numel..<i + numel + sum_list (map snd ps)]"
    by (rule upt_add_eq_append) simp
  with Cons.IH [OF rs(2)] show ?case by (simp add: rs(1) p run_range_def add.assoc)
qed simp

lemma expert_runs_fold:
  "dict_wf d \<Longrightarrow> dict_wf (fold add_run rs d) \<and>
     dict_get (fold add_run rs d) k [] = dict_get d k [] @ filter (\<lambda>r. fst r = Some k) rs \<and>
     (k \<in> fst ` set (fold add_run rs d) \<longleftrightarrow> k \<in> fst ` set d \<or> (\<exists>r\<in>set rs. fst r = Some k))"
proof (induction rs arbitrary: d)
  case (Cons r rs)
  show ?case
  proof (cases "fst r")
    case None
    then show ?thesis using Cons by (simp add: add_run_def)
  next
    case (Some j)
    have "dict_wf (add_run r d)" using Cons.prems by (simp add: add_run_def Some)
    from Cons.IH [OF this] show ?thesis
      by (auto simp: add_run_def Some dict_get_update dom_update)
  qed
qed simp

lemma expert_runs_facts:
  "dict_get (expert_runs rs) k [] = filter (\<lambda>r. fst r = Some k) rs"
  "distinct (map fst (expert_runs rs))" "set (map fst (expert_runs rs)) = {k. \<exists>r\<in>set rs. fst r = Some k}"
proof -
  note f = expert_runs_fold [OF dict_wf_Nil, of rs]
  show "dict_get (expert_runs rs) k [] = filter (\<lambda>r. fst r = Some k) rs" "distinct (map fst (expert_runs rs))"
    using f by (simp_all add: expert_runs_def dict_wf_def dict_get_def)
  show "set (map fst (expert_runs rs)) = {k. \<exists>r\<in>set rs. fst r = Some k}"
    unfolding set_map expert_runs_def by (rule set_eqI) (simp add: f)
qed

text \<open>Grouping by expert keeps the elements.\<close>

lemma mset_groups:
  assumes "finite K" and "\<forall>r\<in>set rs. \<forall>k. fst r = Some k \<longrightarrow> k \<in> K"
  shows "mset (concat (map f (filter (\<lambda>r. fst r = None) rs))) + (\<Sum>k\<in>K. mset (concat (map f (filter (\<lambda>r. fst r = Some k) rs)))) =
     mset (concat (map f rs))"
  using assms(2)
proof (induction rs)
  case (Cons r rs)
  show ?case
  proof (cases "fst r")
    case None
    with Cons show ?thesis by (simp add: add_ac)
  next
    case (Some j)
    have j: "j \<in> K" using Cons.prems Some by simp
    have "(\<Sum>k\<in>K. mset (concat (map f (filter (\<lambda>r. fst r = Some k) (r # rs))))) =
        (\<Sum>k\<in>K. (if k = j then mset (f r) else {#}) + mset (concat (map f (filter (\<lambda>r. fst r = Some k) rs))))"
      by (rule sum.cong) (auto simp: Some)
    also have "\<dots> = mset (f r) + (\<Sum>k\<in>K. mset (concat (map f (filter (\<lambda>r. fst r = Some k) rs))))"
      using assms(1) j by (simp add: sum.distrib sum.delta)
    finally show ?thesis using Cons Some by (simp add: add_ac)
  qed
qed simp

lemma mset_concat_sorted: "distinct ks \<Longrightarrow> mset (concat (map g ks)) = (\<Sum>k\<in>set ks. mset (g k))"
  by (induction ks) auto

lemma layout_cases:
  assumes "layout_of d_embd d_hidden params = Inr L"
  obtains rs where "param_runs params 0 = Inr rs" "cl_n L = sum_list (map snd params)"
    "cl_experts L = sort (map fst (expert_runs rs))"
    "cl_to_chain L = concat (map run_range (backbone_runs rs)) @
       concat (map (\<lambda>k. concat (map run_range (filter (\<lambda>r. fst r = Some k) rs))) (cl_experts L))"
    "cl_page_spans L = (0, cl_backbone_params L) # expert_spans (cl_expert_page_len L) (cl_backbone_params L) (cl_experts L)"
    "cl_backbone_params L = sum_list (map run_len (backbone_runs rs))"
    "\<forall>k\<in>set (cl_experts L). sum_list (map run_len (filter (\<lambda>r. fst r = Some k) rs)) = cl_expert_page_len L"
    "scatter (cl_to_chain L) [0..<cl_n L] (replicate (cl_n L) 0) = Inr (cl_to_torch L)"
proof -
  have cc: "concat (concat (map (\<lambda>k. map run_range (h k)) ks)) = concat (map (\<lambda>k. concat (map run_range (h k))) ks)" for h :: "expert \<Rightarrow> run list" and ks
    by (induction ks) auto
  from assms that show thesis
    unfolding layout_of_def Let_def expert_runs_facts(1) by (auto simp: res_simps cc)
qed

lemma layout_permutation:
  assumes "layout_of d_embd d_hidden params = Inr L"
  shows "mset (cl_to_chain L) = mset [0..<cl_n L]"
proof -
  obtain rs where rs: "param_runs params 0 = Inr rs" "cl_n L = sum_list (map snd params)" "cl_experts L = sort (map fst (expert_runs rs))"
    "cl_to_chain L = concat (map run_range (backbone_runs rs)) @
       concat (map (\<lambda>k. concat (map run_range (filter (\<lambda>r. fst r = Some k) rs))) (cl_experts L))"
    using layout_cases [OF assms] by metis
  have "distinct (cl_experts L)" "set (cl_experts L) = {k. \<exists>r\<in>set rs. fst r = Some k}"
    using expert_runs_facts(2,3) [of rs] by (simp_all add: rs(3))
  moreover from this have "\<forall>r\<in>set rs. \<forall>k. fst r = Some k \<longrightarrow> k \<in> set (cl_experts L)" by blast
  note mset_groups [OF finite_set this, of run_range]
  ultimately have "mset (cl_to_chain L) = mset (concat (map run_range rs))"
    by (simp only: rs(4) mset_append mset_concat_sorted backbone_runs_def)
  then show ?thesis using param_runs_range [OF rs(1)] rs(2) by simp
qed

lemma to_chain_facts:
  assumes "layout_of d_embd d_hidden params = Inr L"
  shows "length (cl_to_chain L) = cl_n L" "distinct (cl_to_chain L)" "set (cl_to_chain L) = {..<cl_n L}"
proof -
  note m = layout_permutation [OF assms]
  show "length (cl_to_chain L) = cl_n L" using mset_eq_length [OF m] by simp
  show "distinct (cl_to_chain L)" using mset_eq_imp_distinct_iff [OF m] by simp
  have "set (cl_to_chain L) = set [0..<cl_n L]" using mset_eq_setD [OF m] .
  then show "set (cl_to_chain L) = {..<cl_n L}" by (simp only: set_upt lessThan_atLeast0)
qed

text \<open>Position \<open>j\<close> of the chain order comes from \<open>to_chain ! j\<close> and goes back to it.\<close>

lemma to_torch_nth:
  assumes "layout_of d_embd d_hidden params = Inr L"
  shows "length (cl_to_torch L) = cl_n L" "j < cl_n L \<Longrightarrow> cl_to_torch L ! (cl_to_chain L ! j) = j"
    "i < cl_n L \<Longrightarrow> cl_to_chain L ! (cl_to_torch L ! i) = i \<and> cl_to_torch L ! i < cl_n L"
proof -
  note c = to_chain_facts [OF assms]
  let ?ps = "zip (cl_to_chain L) [0..<cl_n L]"
  have sc: "scatter (cl_to_chain L) [0..<cl_n L] (replicate (cl_n L) 0) = Inr (cl_to_torch L)"
    using layout_cases [OF assms] by metis
  then have t: "cl_to_torch L = fold (\<lambda>(i, v) o1. o1[i := v]) ?ps (replicate (cl_n L) 0)"
    using c(1) by (auto simp: scatter_def res_simps)
  have fs: "map fst ?ps = cl_to_chain L" using c(1) by simp
  have fold: "length (cl_to_torch L) = cl_n L \<and>
      (\<forall>i<cl_n L. cl_to_torch L ! i = (case map_of ?ps i of None \<Rightarrow> replicate (cl_n L) 0 ! i | Some v \<Rightarrow> v))"
    using fold_scatter_nth [of ?ps "replicate (cl_n L) 0"] c unfolding t [symmetric] fs by simp
  then show "length (cl_to_torch L) = cl_n L" by simp
  have at: "cl_to_torch L ! (cl_to_chain L ! j) = j" if "j < cl_n L" for j
  proof -
    have "map_of ?ps (cl_to_chain L ! j) = Some ([0..<cl_n L] ! j)"
      using that c by (intro map_of_zip_nth) simp_all
    moreover have "cl_to_chain L ! j < cl_n L" using that c nth_mem [of j "cl_to_chain L"] by simp
    ultimately show ?thesis using fold that by simp
  qed
  then show "j < cl_n L \<Longrightarrow> cl_to_torch L ! (cl_to_chain L ! j) = j" .
  show "i < cl_n L \<Longrightarrow> cl_to_chain L ! (cl_to_torch L ! i) = i \<and> cl_to_torch L ! i < cl_n L"
  proof -
    assume "i < cl_n L"
    then have "i \<in> set (cl_to_chain L)" using c(3) by simp
    then obtain j where j: "j < cl_n L" "cl_to_chain L ! j = i" using c(1) by (auto simp: in_set_conv_nth)
    then show ?thesis using at [OF j(1)] by simp
  qed
qed

lemma layout_roundtrip:
  assumes "layout_of d_embd d_hidden params = Inr L" "length v = cl_n L"
  shows "\<exists>c. chain_of L v = Inr c \<and> length c = cl_n L \<and> torch_of L c = Inr v"
    and "\<exists>t. torch_of L v = Inr t \<and> length t = cl_n L \<and> chain_of L t = Inr v"
proof -
  note c = to_chain_facts [OF assms(1)] and t = to_torch_nth [OF assms(1)]
  have ts: "\<forall>i\<in>set (cl_to_torch L). i < cl_n L" using t(1,3) by (auto simp: in_set_conv_nth)
  have cs: "\<forall>i\<in>set (cl_to_chain L). i < cl_n L" using c(3) by auto
  have g: "gather xs idx = Inr (map ((!) xs) idx)" if "\<forall>i\<in>set idx. i < length xs" for xs :: "'b list" and idx
    using that by (auto simp: gather_def not_le)
  have "map ((!) (map ((!) v) (cl_to_chain L))) (cl_to_torch L) = v"
    using assms(2) c(1) t by (intro nth_equalityI) auto
  then show "\<exists>c. chain_of L v = Inr c \<and> length c = cl_n L \<and> torch_of L c = Inr v"
    using g [of "cl_to_chain L" v] g [of "cl_to_torch L" "map ((!) v) (cl_to_chain L)"] cs ts assms(2) c(1)
    by (simp add: chain_of_def torch_of_def)
  have "map ((!) (map ((!) v) (cl_to_torch L))) (cl_to_chain L) = v"
    using assms(2) c(1) t cs by (intro nth_equalityI) (auto simp: nth_mem)
  then show "\<exists>t. torch_of L v = Inr t \<and> length t = cl_n L \<and> chain_of L t = Inr v"
    using g [of "cl_to_torch L" v] g [of "cl_to_chain L" "map ((!) v) (cl_to_torch L)"] cs ts assms(2) t(1)
    by (simp add: chain_of_def torch_of_def)
qed

subsection \<open>The page table\<close>

text \<open>Spans that follow one another from \<open>a\<close> to \<open>b\<close>.\<close>

fun contiguous :: "nat \<Rightarrow> (nat \<times> nat) list \<Rightarrow> nat \<Rightarrow> bool" where
  "contiguous a [] b \<longleftrightarrow> a = b"
| "contiguous a ((s, e) # sps) b \<longleftrightarrow> s = a \<and> s \<le> e \<and> contiguous e sps b"

lemma contiguous_experts: "contiguous pos (expert_spans len pos ks) (pos + length ks * len)"
  by (induction ks arbitrary: pos) (simp_all flip: add.assoc)

lemma length_ranges: "\<forall>r\<in>set rs. fst (snd r) \<le> snd (snd r) \<Longrightarrow> length (concat (map run_range rs)) = sum_list (map run_len rs)"
  by (induction rs) (auto simp: run_range_def run_len_def)

lemma length_parts: "\<forall>k\<in>set ks. length (g k) = len \<Longrightarrow> length (concat (map g ks)) = length ks * len"
  by (induction ks) auto

lemma layout_lengths:
  assumes "param_runs params 0 = Inr rs"
  shows "length (concat (map run_range (filter Q rs))) = sum_list (map run_len (filter Q rs))"
  using param_runs_range [OF assms] by (intro length_ranges) auto

lemma layout_pages:
  assumes "layout_of d_embd d_hidden params = Inr L"
  shows "contiguous 0 (cl_page_spans L) (cl_n L) \<and> length (cl_page_spans L) = Suc (length (cl_experts L))"
proof -
  obtain rs where rs: "param_runs params 0 = Inr rs"
    "cl_to_chain L = concat (map run_range (backbone_runs rs)) @
       concat (map (\<lambda>k. concat (map run_range (filter (\<lambda>r. fst r = Some k) rs))) (cl_experts L))"
    "cl_page_spans L = (0, cl_backbone_params L) # expert_spans (cl_expert_page_len L) (cl_backbone_params L) (cl_experts L)"
    "cl_backbone_params L = sum_list (map run_len (backbone_runs rs))"
    "\<forall>k\<in>set (cl_experts L). sum_list (map run_len (filter (\<lambda>r. fst r = Some k) rs)) = cl_expert_page_len L"
    using layout_cases [OF assms] by metis
  have "length (cl_to_chain L) = cl_backbone_params L + length (cl_experts L) * cl_expert_page_len L"
    using rs(5) layout_lengths [OF rs(1)] by (simp add: rs(2,4) length_parts backbone_runs_def)
  then have "cl_n L = cl_backbone_params L + length (cl_experts L) * cl_expert_page_len L" using to_chain_facts(1) [OF assms] by simp
  moreover have "length (expert_spans len pos ks) = length ks" for len pos and ks :: "expert list" by (induction ks arbitrary: pos) auto
  ultimately show ?thesis using contiguous_experts by (simp add: rs(3))
qed

lemma mapE_mem: "mapE f xs = Inr ys \<Longrightarrow> y \<in> set ys \<Longrightarrow> \<exists>x\<in>set xs. f x = Inr y"
  by (induction xs arbitrary: ys) (auto simp: res_simps)

lemma contiguous_disjoint:
  "contiguous a sps b \<Longrightarrow> i < length sps \<Longrightarrow> j < length sps \<Longrightarrow> fst (sps ! i) \<le> x \<Longrightarrow> x < snd (sps ! i) \<Longrightarrow>
     fst (sps ! j) \<le> x \<Longrightarrow> x < snd (sps ! j) \<Longrightarrow> i = j"
proof (induction sps arbitrary: a i j)
  case (Cons sp sps)
  have low: "contiguous c xs d \<Longrightarrow> k < length xs \<Longrightarrow> c \<le> fst (xs ! k)" for c xs d k
  proof (induction xs arbitrary: c k)
    case (Cons y ys)
    then show ?case by (cases y; cases k) fastforce+
  qed simp
  obtain s e where sp: "sp = (s, e)" by (cases sp)
  have tl: "contiguous e sps b" using Cons.prems(1) by (simp add: sp)
  show ?case
  proof (cases i; cases j)
    fix i' j' assume "i = Suc i'" "j = Suc j'"
    then show ?thesis using Cons.IH [OF tl, of i' j'] Cons.prems by simp
  qed (use Cons.prems low [OF tl] in \<open>fastforce simp: sp\<close>)+
qed simp

text \<open>A delta restricted to its claim touches no other page.\<close>

lemma zero_outside_touches:
  assumes L: "layout_of d_embd d_hidden params = Inr L" and z: "zero_outside L delta pages = Inr out" and pos: "\<forall>p\<in>set pages. 0 \<le> p"
  shows "length out = cl_n L \<and> (\<forall>pid\<in>set (pages_touched L out). int pid \<in> set pages)"
proof -
  from z obtain sps where sps: "mapE (layout_span L) pages = Inr sps" and len: "length delta = cl_n L"
    and out: "out = map (\<lambda>i. if \<exists>(s, e)\<in>set sps. s \<le> i \<and> i < e then delta ! i else 0) [0..<length delta]"
    by (auto simp: zero_outside_def res_simps)
  have "int pid \<in> set pages" if "pid \<in> set (pages_touched L out)" for pid
  proof -
    from that obtain s e x where pid: "pid < length (cl_page_spans L)" "cl_page_spans L ! pid = (s, e)"
      and x: "x \<in> set (take (e - s) (drop s out))" "x \<noteq> 0"
      by (auto simp: pages_touched_def in_set_enumerate_eq)
    from x(1) obtain k where k: "k < e - s" "s + k < length out" "out ! (s + k) = x"
      by (auto simp: in_set_conv_nth)
    with x(2) obtain s' e' where c: "(s', e') \<in> set sps" "s' \<le> s + k" "s + k < e'"
      by (auto simp: out split: if_splits)
    then obtain p where p: "p \<in> set pages" "layout_span L p = Inr (s', e')" using mapE_mem [OF sps] by blast
    have pn: "nat p < length (cl_page_spans L)" "cl_page_spans L ! nat p = (s', e')"
      using p pos by (auto simp: layout_span_def py_nth_def split: if_splits)
    have "pid = nat p"
      using contiguous_disjoint [OF conjunct1 [OF layout_pages [OF L]] pid(1) pn(1), of "s + k"] pid(2) pn(2) c k(1) by simp
    then show ?thesis using p(1) pos by simp
  qed
  then show ?thesis using len by (simp add: out)
qed

subsection \<open>A planned claim fits the envelope\<close>

lemma claim_fold:
  "used \<le> budget \<Longrightarrow> snd (fold (claim_step budget) infos (claim, used)) \<le> budget \<and>
     set (fst (fold (claim_step budget) infos (claim, used))) \<subseteq> set claim \<union> fst ` set infos"
proof (induction infos arbitrary: claim used)
  case (Cons pg infos)
  obtain c u where cu: "claim_step budget pg (claim, used) = (c, u)" by fastforce
  have "u \<le> budget" "set c \<subseteq> insert (fst pg) (set claim)"
    using cu Cons.prems by (auto simp: claim_step_def Let_def split: prod.splits if_splits)
  with Cons.IH [of u c] show ?case using cu by auto
qed simp

lemma plan_claim_fits:
  assumes "plan_claim L delta active max_nnz quota = Inr (claim, min_nnz)" and "0 \<le> max_nnz" "0 < quota"
  shows "set claim \<subseteq> set active \<and> claim \<noteq> [] \<and> sorted claim \<and> min_nnz \<le> max_nnz"
proof -
  let ?b = "max_nnz * 1000000 div quota"
  from assms(1) obtain infos where
    infos: "mapE (\<lambda>p. bindE (layout_span L p) (\<lambda>sp. Inr (p, sp, page_mass delta sp))) active = Inr infos"
    by (auto simp: plan_claim_def Let_def res_simps)
  obtain c u where f: "fold (claim_step ?b) (sort_key (\<lambda>(p, sp, mass). (- mass, p)) infos) ([], 0) = (c, u)" by fastforce
  from assms(1) obtain c' where
    cl: "(if c = [] then (case sort_key (\<lambda>(p, sp, mass). (- mass, p)) infos of [] \<Rightarrow> Inl IndexError | r # _ \<Rightarrow> Inr [fst r]) else Inr c) = Inr c'"
      "claim = sort c'" "min_nnz = u * quota div 1000000"
    by (auto simp: plan_claim_def Let_def res_simps infos f)
  have b: "0 \<le> ?b" using assms(2,3) by (simp add: pos_imp_zdiv_nonneg_iff)
  from claim_fold [OF b, of "sort_key (\<lambda>(p, sp, mass). (- mass, p)) infos" "[]"] f
  have u: "u \<le> ?b" "set c \<subseteq> fst ` set infos" by simp_all
  have act: "fst ` set infos \<subseteq> set active"
    using mapE_mem [OF infos] by (fastforce simp: res_simps)
  have "u * quota \<le> ?b * quota" using u(1) assms(3) by simp
  also have "\<dots> \<le> max_nnz * 1000000" using assms(3) by (metis div_mult_mod_eq le_add_same_cancel1 pos_mod_sign)
  finally have "min_nnz \<le> max_nnz" unfolding cl(3) by linarith
  moreover have "fst r \<in> set active" if "sort_key (\<lambda>(p, sp, mass). (- mass, p)) infos = r # rs" for r rs
  proof -
    have "r \<in> set (sort_key (\<lambda>(p, sp, mass). (- mass, p)) infos)" by (simp only: that list.set_intros)
    then show ?thesis using act by auto
  qed
  then have "set c' \<subseteq> set active" "c' \<noteq> []" using cl(1) u(2) act by (fastforce split: if_splits list.splits)+
  moreover have "sort c' = [] \<longleftrightarrow> c' = []" by (metis length_0_conv length_sort)
  ultimately show ?thesis by (simp add: cl(2))
qed

end
