(* ===== verification/Beacon.thy ===== *)
theory Beacon
  imports Crypto Poly_Roots
begin

section \<open>The threshold beacon and its key generation (rig/beacon.py, rig/dkg.py)\<close>

text \<open>
  Shamir sharing, partial signatures, Lagrange combination and the Feldman key generation. The pairing library is not part of
  the repository: its operations are the record \<open>bls\<close>, and \<open>bls_laws\<close> states what it documents, that both groups
  are cyclic of the same prime order, that scalar multiplication and addition act on them accordingly, and that the
  pairing is bilinear and not degenerate; \<open>dl1\<close> and \<open>dl2\<close> are the discrete logarithms, which no definition uses.
\<close>

record ('a, 'b, 'c) bls =
  curve_order :: int
  G1 :: 'a
  add1 :: "'a \<Rightarrow> 'a \<Rightarrow> 'a"
  multiply1 :: "'a \<Rightarrow> int \<Rightarrow> 'a"
  normalize_eq :: "'a \<Rightarrow> 'a \<Rightarrow> bool"
  add2 :: "'b \<Rightarrow> 'b \<Rightarrow> 'b"
  multiply2 :: "'b \<Rightarrow> int \<Rightarrow> 'b"
  pairing :: "'b \<Rightarrow> 'a \<Rightarrow> 'c"
  hash_to_G2 :: "bytes \<Rightarrow> bytes \<Rightarrow> 'b"
  G2_to_signature :: "'b \<Rightarrow> bytes"

definition bls_laws :: "('a, 'b, 'c) bls \<Rightarrow> ('a \<Rightarrow> int) \<Rightarrow> ('b \<Rightarrow> int) \<Rightarrow> bool" where
  "bls_laws C dl1 dl2 \<longleftrightarrow> (let r = curve_order C in
     prime_order r \<and> dl1 (G1 C) mod r = 1
     \<and> (\<forall>p q. dl1 (add1 C p q) mod r = (dl1 p + dl1 q) mod r)
     \<and> (\<forall>p k. 0 \<le> k \<longrightarrow> dl1 (multiply1 C p k) mod r = dl1 p * k mod r)
     \<and> (\<forall>p q. normalize_eq C p q \<longleftrightarrow> dl1 p mod r = dl1 q mod r)
     \<and> (\<forall>p q. dl2 (add2 C p q) mod r = (dl2 p + dl2 q) mod r)
     \<and> (\<forall>p k. 0 \<le> k \<longrightarrow> dl2 (multiply2 C p k) mod r = dl2 p * k mod r)
     \<and> (\<forall>p q p' q'. pairing C p q = pairing C p' q' \<longleftrightarrow> dl2 p * dl1 q mod r = dl2 p' * dl1 q' mod r)
     \<and> (\<forall>p q. dl2 p mod r = dl2 q mod r \<longrightarrow> G2_to_signature C p = G2_to_signature C q))"

subsection \<open>Scalars\<close>

definition DST :: bytes where
  "DST = encode ''SESTRIAN-BEACON-BLS12381-SHA256''"

definition round_point :: "('a, 'b, 'c) bls \<Rightarrow> int \<Rightarrow> 'b" where
  "round_point C r = hash_to_G2 C (encode (''sestrian-beacon|'' @ int_str r)) DST"

text \<open>\<^verbatim>\<open>pow(a, -1, m)\<close>: the inverse in \<open>0..m-1\<close>, or \<^verbatim>\<open>ValueError\<close>.\<close>

definition mod_inv :: "int \<Rightarrow> int \<Rightarrow> int res" where
  "mod_inv a m = (case find (\<lambda>x. a * x mod m = 1 mod m) [0..m - 1] of None \<Rightarrow> Inl ValueError | Some x \<Rightarrow> Inr x)"

definition lagrange_coeff :: "int \<Rightarrow> int list \<Rightarrow> int \<Rightarrow> int res" where
  "lagrange_coeff r indices i =
     (let (num, den) = fold (\<lambda>j (num, den). if j = i then (num, den)
            else (num * (- j) mod r, den * (i - j) mod r)) indices (1, 1)
      in bindE (mod_inv den r) (\<lambda>v. Inr (num * v mod r)))"

definition lagrange_at_zero :: "int \<Rightarrow> int list \<Rightarrow> (int, int) dict res" where
  "lagrange_at_zero r indices =
     bindE (mapE (\<lambda>i. bindE (lagrange_coeff r indices i) (\<lambda>l. Inr (i, l))) indices) (\<lambda>ps. Inr (dict_of ps))"

text \<open>\<^verbatim>\<open>bytes([k])\<close>\<close>

definition byte_of :: "nat \<Rightarrow> bytes res" where
  "byte_of k = (if k < 256 then Inr [of_nat k] else Inl ValueError)"

definition rand_scalar :: "prims \<Rightarrow> ('a, 'b, 'c) bls \<Rightarrow> bytes \<Rightarrow> int" where
  "rand_scalar P C sd = int (be_val (sha256 P sd)) mod curve_order C"

text \<open>The loop \<^verbatim>\<open>s = (s + c * pow(x, k, r)) % r\<close>.\<close>

definition share_at :: "int \<Rightarrow> int list \<Rightarrow> int \<Rightarrow> int" where
  "share_at r coeffs x = fold (\<lambda>(k, c) s. (s + c * (x ^ k mod r)) mod r) (enumerate 0 coeffs) 0"

subsection \<open>Dealt keys\<close>

record 'a beacon_keys =
  group_pk :: "'a option"
  shares :: "(int, int) dict"
  partial_pks :: "(int, 'a) dict"
  key_t :: nat
  key_n :: nat

definition deal :: "prims \<Rightarrow> ('a, 'b, 'c) bls \<Rightarrow> nat \<Rightarrow> nat \<Rightarrow> bytes \<Rightarrow> 'a beacon_keys res" where
  "deal P C n t sd =
     bindE (mapE (\<lambda>k. bindE (byte_of k) (\<lambda>b. Inr (rand_scalar P C (sd @ b)))) [0..<t]) (\<lambda>coeffs.
     bindE (raise_if (coeffs = []) IndexError) (\<lambda>_.
     let sh = map (\<lambda>i. (i, share_at (curve_order C) coeffs i)) [1..int n]
     in Inr \<lparr>group_pk = Some (multiply1 C (G1 C) (hd coeffs)), shares = sh,
             partial_pks = map (\<lambda>(i, s). (i, multiply1 C (G1 C) s)) sh, key_t = t, key_n = n\<rparr>))"

subsection \<open>Signing a round\<close>

definition partial_sign :: "('a, 'b, 'c) bls \<Rightarrow> int \<Rightarrow> int \<Rightarrow> 'b" where
  "partial_sign C share r = multiply2 C (round_point C r) share"

definition verify_partial :: "('a, 'b, 'c) bls \<Rightarrow> 'b \<Rightarrow> int \<Rightarrow> 'a \<Rightarrow> bool" where
  "verify_partial C sg r pk \<longleftrightarrow> pairing C sg (G1 C) = pairing C (round_point C r) pk"

definition combine_term ::
  "('a, 'b, 'c) bls \<Rightarrow> (int, int) dict \<Rightarrow> int \<times> 'b \<Rightarrow> 'b option \<Rightarrow> 'b option res" where
  "combine_term C lam e acc = (let (i, sg) = e in
     bindE (case map_of lam i of None \<Rightarrow> Inl KeyError | Some l \<Rightarrow> Inr l) (\<lambda>l.
     let trm = multiply2 C sg (l mod curve_order C)
     in Inr (Some (case acc of None \<Rightarrow> trm | Some a \<Rightarrow> add2 C a trm))))"

definition combine :: "('a, 'b, 'c) bls \<Rightarrow> (int, 'b) dict \<Rightarrow> 'b option res" where
  "combine C partials =
     bindE (lagrange_at_zero (curve_order C) (map fst partials)) (\<lambda>lam.
     foldE (combine_term C lam) partials None)"

definition beacon_verify :: "('a, 'b, 'c) bls \<Rightarrow> 'b option \<Rightarrow> int \<Rightarrow> 'a option \<Rightarrow> bool res" where
  "beacon_verify C sg r pk = (case (sg, pk) of
      (Some s, Some k) \<Rightarrow> Inr (pairing C s (G1 C) = pairing C (round_point C r) k)
    | _ \<Rightarrow> Inl TypeError)"

definition randomness :: "prims \<Rightarrow> ('a, 'b, 'c) bls \<Rightarrow> 'b \<Rightarrow> bytes" where
  "randomness P C sg = sha256 P (G2_to_signature C sg)"

definition signed_by ::
  "('a, 'b, 'c) bls \<Rightarrow> 'a beacon_keys \<Rightarrow> int \<Rightarrow> int \<Rightarrow> (int, 'b) dict \<Rightarrow> (int, 'b) dict res" where
  "signed_by C keys r i partials =
     (case map_of (shares keys) i of
        None \<Rightarrow> Inl KeyError
      | Some s \<Rightarrow>
          let sg = partial_sign C s r
          in case map_of (partial_pks keys) i of
               None \<Rightarrow> Inl KeyError
             | Some pk \<Rightarrow> Inr (if verify_partial C sg r pk then AList.update i sg partials else partials))"

definition produce :: "('a, 'b, 'c) bls \<Rightarrow> 'a beacon_keys \<Rightarrow> int \<Rightarrow> int list \<Rightarrow> ('b option \<times> bool) res" where
  "produce C keys r signer_indices =
     bindE (foldE (signed_by C keys r) signer_indices []) (\<lambda>partials.
     if length partials < key_t keys then Inr (None, False)
     else bindE (combine C (take (key_t keys) partials)) (\<lambda>gsig.
          bindE (beacon_verify C gsig r (group_pk keys)) (\<lambda>ok. Inr (gsig, ok))))"

subsection \<open>Distributed key generation\<close>

record 'a dealer =
  d_idx :: nat
  d_coeffs :: "int list"
  d_commitments :: "'a list"

definition create :: "prims \<Rightarrow> ('a, 'b, 'c) bls \<Rightarrow> nat \<Rightarrow> nat \<Rightarrow> bytes \<Rightarrow> 'a dealer res" where
  "create P C idx t sd =
     bindE (mapE (\<lambda>j. bindE (byte_of idx) (\<lambda>a. bindE (byte_of j) (\<lambda>b. Inr (rand_scalar P C (sd @ a @ b))))) [0..<t]) (\<lambda>coeffs.
     Inr \<lparr>d_idx = idx, d_coeffs = coeffs, d_commitments = map (multiply1 C (G1 C)) coeffs\<rparr>)"

definition share_for :: "('a, 'b, 'c) bls \<Rightarrow> 'a dealer \<Rightarrow> int \<Rightarrow> int" where
  "share_for C d m = share_at (curve_order C) (d_coeffs d) m"

definition committed_share :: "('a, 'b, 'c) bls \<Rightarrow> int \<Rightarrow> 'a list \<Rightarrow> 'a option" where
  "committed_share C m commitments =
     fold (\<lambda>(j, p) rhs. let trm = multiply1 C p (m ^ j mod curve_order C)
            in Some (case rhs of None \<Rightarrow> trm | Some q \<Rightarrow> add1 C q trm)) (enumerate 0 commitments) None"

definition verify_share :: "('a, 'b, 'c) bls \<Rightarrow> int \<Rightarrow> int \<Rightarrow> 'a list \<Rightarrow> bool res" where
  "verify_share C share m commitments =
     (case committed_share C m commitments of
        None \<Rightarrow> Inl TypeError
      | Some rhs \<Rightarrow> Inr (normalize_eq C (multiply1 C (G1 C) share) rhs))"

definition collect_share :: "('a, 'b, 'c) bls \<Rightarrow> int \<Rightarrow> 'a dealer \<Rightarrow> int \<Rightarrow> int res" where
  "collect_share C m d acc =
     (let s = share_for C d m
      in bindE (verify_share C s m (d_commitments d)) (\<lambda>ok.
         bindE (raise_if (\<not> ok) ValueError) (\<lambda>_. Inr ((acc + s) mod curve_order C))))"

definition add_commitment :: "('a, 'b, 'c) bls \<Rightarrow> 'a dealer \<Rightarrow> 'a option \<Rightarrow> 'a option res" where
  "add_commitment C d pk =
     (case d_commitments d of
        [] \<Rightarrow> Inl IndexError
      | c0 # _ \<Rightarrow> Inr (Some (case pk of None \<Rightarrow> c0 | Some q \<Rightarrow> add1 C q c0)))"

definition run_dkg :: "prims \<Rightarrow> ('a, 'b, 'c) bls \<Rightarrow> nat \<Rightarrow> nat \<Rightarrow> bytes \<Rightarrow> 'a beacon_keys res" where
  "run_dkg P C n t sd =
     bindE (mapE (\<lambda>i. create P C i t sd) [1..<Suc n]) (\<lambda>dealers.
     bindE (mapE (\<lambda>m. bindE (foldE (collect_share C m) dealers 0) (\<lambda>s. Inr (m, s))) [1..int n]) (\<lambda>sh.
     bindE (foldE (add_commitment C) dealers None) (\<lambda>pk.
     Inr \<lparr>group_pk = pk, shares = sh, partial_pks = map (\<lambda>(m, s). (m, multiply1 C (G1 C) s)) sh,
          key_t = t, key_n = n\<rparr>)))"

subsection \<open>Scalars modulo the order\<close>

lemma share_fold:
  fixes r :: int
  shows "fold (\<lambda>(k, c) s. (s + c * (x ^ k mod r)) mod r) (enumerate n cs) s mod r
     = (s + (\<Sum>k<length cs. cs ! k * x ^ (n + k))) mod r"
proof (induction cs arbitrary: n s)
  case (Cons c cs)
  have "(\<Sum>k<length (c # cs). (c # cs) ! k * x ^ (n + k)) = c * x ^ n + (\<Sum>k<length cs. cs ! k * x ^ (Suc n + k))"
    unfolding list.size(4) add.right_neutral One_nat_def add_Suc_right sum.lessThan_Suc_shift by simp
  moreover have "fold (\<lambda>(k, c) s. (s + c * (x ^ k mod r)) mod r) (enumerate n (c # cs)) s mod r
      = ((s + c * (x ^ n mod r)) mod r + (\<Sum>k<length cs. cs ! k * x ^ (Suc n + k))) mod r"
    using Cons [of "Suc n" "(s + c * (x ^ n mod r)) mod r"] by simp
  moreover have "((s + c * (x ^ n mod r)) mod r + z) mod r = (s + (c * x ^ n + z)) mod r" for z
  proof -
    have "(s + c * (x ^ n mod r)) mod r = (s + c * x ^ n) mod r"
      by (intro mod_add_cong refl) (simp add: mod_mult_right_eq)
    then show ?thesis by (metis add.assoc mod_add_left_eq)
  qed
  ultimately show ?case by simp
qed simp

lemma share_at_peval: "share_at r cs x mod r = peval (length cs) (\<lambda>k. cs ! k) x mod r"
  unfolding share_at_def peval_def share_fold by simp

lemma share_at_nonneg: "0 < r \<Longrightarrow> 0 \<le> share_at r cs x"
proof -
  assume "0 < r"
  then have "0 \<le> s \<Longrightarrow> 0 \<le> fold (\<lambda>(k, c) s. (s + c * (x ^ k mod r)) mod r) (enumerate n cs) s" for n s
    by (induction cs arbitrary: n s) auto
  then show ?thesis by (simp add: share_at_def)
qed

lemma prime_order_pos: "prime_order r \<Longrightarrow> 1 < r"
  by (simp add: prime_order_def)

lemma mod_inv_exists:
  assumes r: "prime_order r" and a: "\<not> r dvd a"
  obtains v where "mod_inv a r = Inr v" and "r dvd a * v - 1"
proof -
  have pos: "1 < r" by (rule prime_order_pos [OF r])
  let ?S = "{0..<r}" and ?f = "\<lambda>x. a * x mod r"
  have "inj_on ?f ?S"
  proof (rule inj_onI)
    fix x y assume xy: "x \<in> ?S" "y \<in> ?S" "?f x = ?f y"
    then have "r dvd a * (x - y)" by (simp add: mod_eq_dvd_iff right_diff_distrib)
    then have "r dvd x - y" using r a unfolding prime_order_def by blast
    then show "x = y" using xy by (metis atLeastLessThan_iff mod_eq_dvd_iff mod_pos_pos_trivial)
  qed
  moreover have "?f ` ?S \<subseteq> ?S" using pos by auto
  ultimately have "?f ` ?S = ?S" by (intro endo_inj_surj) auto
  moreover have "1 \<in> ?S" using pos by simp
  ultimately have "1 \<in> ?f ` ?S" by simp
  then obtain x where x: "x \<in> ?S" "a * x mod r = 1" by auto
  then have ex: "\<exists>x\<in>set [0..r - 1]. a * x mod r = 1 mod r" using pos by (intro bexI [of _ x]) auto
  then obtain v where f: "find (\<lambda>x. a * x mod r = 1 mod r) [0..r - 1] = Some v"
    by (cases "find (\<lambda>x. a * x mod r = 1 mod r) [0..r - 1]") (auto simp: find_None_iff)
  then have "a * v mod r = 1 mod r" by (auto simp: find_Some_iff)
  then have "r dvd a * v - 1" by (simp add: mod_eq_dvd_iff)
  then show thesis using that f by (simp add: mod_inv_def)
qed

lemma lagrange_fold:
  fixes r :: int
  shows "fold (\<lambda>j (num, den). if j = i then (num, den) else (num * (- j) mod r, den * (i - j) mod r)) xs (a, b) = (num, den) \<Longrightarrow>
   num mod r = a * (\<Prod>j\<leftarrow>filter (\<lambda>j. j \<noteq> i) xs. - j) mod r \<and> den mod r = b * (\<Prod>j\<leftarrow>filter (\<lambda>j. j \<noteq> i) xs. i - j) mod r"
proof (induction xs arbitrary: a b)
  case (Cons j xs)
  show ?case
  proof (cases "j = i")
    case True
    then show ?thesis using Cons(1) [of a b] Cons(2) by simp
  next
    case False
    then have "num mod r = (a * (- j) mod r) * (\<Prod>j\<leftarrow>filter (\<lambda>j. j \<noteq> i) xs. - j) mod r \<and>
        den mod r = (b * (i - j) mod r) * (\<Prod>j\<leftarrow>filter (\<lambda>j. j \<noteq> i) xs. i - j) mod r"
      using Cons(1) [of "a * (- j) mod r" "b * (i - j) mod r"] Cons(2) by simp
    moreover have "filter (\<lambda>j. j \<noteq> i) (j # xs) = j # filter (\<lambda>j. j \<noteq> i) xs" using False by simp
    ultimately show ?thesis by (simp only: mod_mult_left_eq mult.assoc list.map prod_list.Cons)
  qed
qed simp

lemma prod_list_uminus: "(\<Prod>j\<leftarrow>xs. - f j :: int) = (- 1) ^ length xs * (\<Prod>j\<leftarrow>xs. f j)"
  by (induction xs) auto

text \<open>The coefficients exist and interpolate at zero.\<close>

lemma lagrange_coeffs:
  assumes r: "prime_order r" and xs: "distinct xs" "\<forall>x\<in>set xs. \<forall>y\<in>set xs. x \<noteq> y \<longrightarrow> \<not> r dvd x - y"
  obtains l where "\<And>i. i \<in> set xs \<Longrightarrow> lagrange_coeff r xs i = Inr (l i)"
    and "\<And>f. polyfun (length xs) f \<Longrightarrow> (\<Sum>i\<leftarrow>xs. f i * l i) mod r = f 0 mod r"
proof -
  let ?o = "\<lambda>i. filter (\<lambda>j. j \<noteq> i) xs"
  have "\<exists>l v. lagrange_coeff r xs i = Inr l \<and> r dvd (\<Prod>j\<leftarrow>?o i. j - i) * v - 1 \<and> l mod r = (\<Prod>j\<leftarrow>?o i. j) * v mod r"
    if i: "i \<in> set xs" for i
  proof -
    obtain num den where nd: "fold (\<lambda>j (num, den). if j = i then (num, den) else (num * (- j) mod r, den * (i - j) mod r)) xs (1, 1) = (num, den)"
      by fastforce
    note q = lagrange_fold [OF nd]
    have "\<not> r dvd (\<Prod>j\<leftarrow>?o i. i - j)" using prime_order_prod [OF r, of "\<lambda>j. i - j" "?o i"] xs(2) i by auto
    then have "\<not> r dvd den" using q by (metis dvd_eq_mod_eq_0 mult_1)
    then obtain v where v: "mod_inv den r = Inr v" "r dvd den * v - 1" by (rule mod_inv_exists [OF r])
    let ?s = "(- 1 :: int) ^ length (?o i)"
    have s1: "?s * ?s = 1" by (simp flip: power_mult_distrib)
    have D: "(\<Prod>j\<leftarrow>?o i. i - j) = ?s * (\<Prod>j\<leftarrow>?o i. j - i)" using prod_list_uminus [of "\<lambda>j. j - i" "?o i"] by simp
    have N: "(\<Prod>j\<leftarrow>?o i. - j) = ?s * (\<Prod>j\<leftarrow>?o i. j)" using prod_list_uminus [of "\<lambda>j. j" "?o i"] by simp
    have "den * v mod r = (\<Prod>j\<leftarrow>?o i. i - j) * v mod r" using q by (metis mod_mult_left_eq mult_1)
    then have "r dvd (\<Prod>j\<leftarrow>?o i. i - j) * v - 1" using v(2) by (metis mod_eq_dvd_iff)
    then have 1: "r dvd (\<Prod>j\<leftarrow>?o i. j - i) * (?s * v) - 1" by (simp add: D ac_simps)
    have "num * v mod r = (\<Prod>j\<leftarrow>?o i. - j) * v mod r" using q by (metis mod_mult_left_eq mult_1)
    then have 2: "num * v mod r = (\<Prod>j\<leftarrow>?o i. j) * (?s * v) mod r" by (simp add: N ac_simps)
    have "lagrange_coeff r xs i = Inr (num * v mod r)" by (simp add: lagrange_coeff_def nd v(1))
    then show ?thesis using 1 2 by (intro exI [of _ "num * v mod r"] exI [of _ "?s * v"]) simp
  qed
  then obtain l v where l: "\<And>i. i \<in> set xs \<Longrightarrow> lagrange_coeff r xs i = Inr (l i)"
    and v: "\<And>i. i \<in> set xs \<Longrightarrow> r dvd (\<Prod>j\<leftarrow>?o i. j - i) * v i - 1"
    and lv: "\<And>i. i \<in> set xs \<Longrightarrow> l i mod r = (\<Prod>j\<leftarrow>?o i. j) * v i mod r" by metis
  have "(\<Sum>i\<leftarrow>xs. f i * l i) mod r = f 0 mod r" if f: "polyfun (length xs) f" for f
  proof -
    have each: "f i * l i mod r = f i * ((\<Prod>j\<leftarrow>?o i. j) * v i) mod r" if "i \<in> set xs" for i
      using lv [OF that] by (metis mod_mult_right_eq)
    have "set ys \<subseteq> set xs \<Longrightarrow>
        (\<Sum>i\<leftarrow>ys. f i * l i) mod r = (\<Sum>i\<leftarrow>ys. f i * ((\<Prod>j\<leftarrow>?o i. j) * v i)) mod r" for ys
    proof (induction ys)
      case (Cons y ys)
      then have IH: "(\<Sum>i\<leftarrow>ys. f i * l i) mod r = (\<Sum>i\<leftarrow>ys. f i * ((\<Prod>j\<leftarrow>?o i. j) * v i)) mod r" and "y \<in> set xs" by auto
      then show ?case using mod_add_cong [OF each [of y] IH] by simp
    qed simp
    from this [of xs] have "(\<Sum>i\<leftarrow>xs. f i * l i) mod r = (\<Sum>i\<leftarrow>xs. f i * ((\<Prod>j\<leftarrow>?o i. j) * v i)) mod r" by simp
    also have "\<dots> = f 0 mod r" using lagrange_mod [OF r xs f v] by (simp add: mod_eq_dvd_iff)
    finally show ?thesis .
  qed
  then show thesis using that l by blast
qed

subsection \<open>Keys that share a polynomial\<close>

definition keys_ok :: "('a, 'b, 'c) bls \<Rightarrow> ('a \<Rightarrow> int) \<Rightarrow> (int \<Rightarrow> int) \<Rightarrow> 'a beacon_keys \<Rightarrow> bool" where
  "keys_ok C dl1 f keys \<longleftrightarrow> polyfun (key_t keys) f
     \<and> (\<exists>pk. group_pk keys = Some pk \<and> dl1 pk mod curve_order C = f 0 mod curve_order C)
     \<and> (\<forall>i\<in>{1..int (key_n keys)}. \<exists>s. map_of (shares keys) i = Some s \<and> 0 \<le> s
          \<and> s mod curve_order C = f i mod curve_order C
          \<and> map_of (partial_pks keys) i = Some (multiply1 C (G1 C) s))"

lemma bls_lawsD:
  assumes "bls_laws C dl1 dl2"
  shows "prime_order (curve_order C)" and "dl1 (G1 C) mod curve_order C = 1"
    and "\<And>p q. dl1 (add1 C p q) mod curve_order C = (dl1 p + dl1 q) mod curve_order C"
    and "\<And>p k. 0 \<le> k \<Longrightarrow> dl1 (multiply1 C p k) mod curve_order C = dl1 p * k mod curve_order C"
    and "\<And>p q. normalize_eq C p q \<longleftrightarrow> dl1 p mod curve_order C = dl1 q mod curve_order C"
    and "\<And>p q. dl2 (add2 C p q) mod curve_order C = (dl2 p + dl2 q) mod curve_order C"
    and "\<And>p k. 0 \<le> k \<Longrightarrow> dl2 (multiply2 C p k) mod curve_order C = dl2 p * k mod curve_order C"
    and "\<And>p q p' q'. pairing C p q = pairing C p' q' \<longleftrightarrow> dl2 p * dl1 q mod curve_order C = dl2 p' * dl1 q' mod curve_order C"
    and "\<And>p q. dl2 p mod curve_order C = dl2 q mod curve_order C \<Longrightarrow> G2_to_signature C p = G2_to_signature C q"
  using assms unfolding bls_laws_def Let_def by blast+

lemma dl1_G1_mult: "bls_laws C dl1 dl2 \<Longrightarrow> 0 \<le> k \<Longrightarrow> dl1 (multiply1 C (G1 C) k) mod curve_order C = k mod curve_order C"
  using bls_lawsD(4) [of C dl1 dl2 k "G1 C"] bls_lawsD(2) [of C dl1 dl2] mod_mult_left_eq [of "dl1 (G1 C)" "curve_order C" k] by simp

lemma pairing_G1:
  assumes L: "bls_laws C dl1 dl2" and pk: "dl1 pk mod curve_order C = k mod curve_order C"
  shows "pairing C sg (G1 C) = pairing C h pk \<longleftrightarrow> dl2 sg mod curve_order C = dl2 h * k mod curve_order C"
proof -
  have "dl2 sg * dl1 (G1 C) mod curve_order C = dl2 sg mod curve_order C"
    using mod_mult_right_eq [of "dl2 sg" "dl1 (G1 C)" "curve_order C"] bls_lawsD(2) [OF L] by simp
  moreover have "dl2 h * dl1 pk mod curve_order C = dl2 h * k mod curve_order C" by (rule mod_mult_cong [OF refl pk])
  ultimately show ?thesis unfolding bls_lawsD(8) [OF L] by simp
qed

text \<open>Every signer of the group contributes a partial signature that verifies.\<close>

lemma update_same: "AList.update i (g i) (map (\<lambda>i. (i, g i)) ks) = map (\<lambda>i. (i, g i)) (if i \<in> set ks then ks else ks @ [i])"
  by (induction ks) auto

lemma signed_by_ok:
  assumes L: "bls_laws C dl1 dl2" and K: "keys_ok C dl1 f keys" and i: "i \<in> {1..int (key_n keys)}"
  shows "signed_by C keys r i ps = Inr (AList.update i (partial_sign C (the (map_of (shares keys) i)) r) ps)"
    and "dl2 (partial_sign C (the (map_of (shares keys) i)) r) mod curve_order C = dl2 (round_point C r) * f i mod curve_order C"
proof -
  obtain s where s: "map_of (shares keys) i = Some s" "0 \<le> s" "s mod curve_order C = f i mod curve_order C"
    "map_of (partial_pks keys) i = Some (multiply1 C (G1 C) s)"
    using K i unfolding keys_ok_def by blast
  have d: "dl2 (partial_sign C s r) mod curve_order C = dl2 (round_point C r) * s mod curve_order C"
    unfolding partial_sign_def by (rule bls_lawsD(7) [OF L s(2)])
  then have "verify_partial C (partial_sign C s r) r (multiply1 C (G1 C) s)"
    unfolding verify_partial_def using pairing_G1 [OF L dl1_G1_mult [OF L s(2)]] by blast
  then show "signed_by C keys r i ps = Inr (AList.update i (partial_sign C (the (map_of (shares keys) i)) r) ps)"
    using s by (simp add: signed_by_def)
  show "dl2 (partial_sign C (the (map_of (shares keys) i)) r) mod curve_order C = dl2 (round_point C r) * f i mod curve_order C"
    using d s(1) mod_mult_cong [OF refl s(3), of "dl2 (round_point C r)"] by simp
qed

lemma signers_ok:
  assumes L: "bls_laws C dl1 dl2" and K: "keys_ok C dl1 f keys"
  shows "set S \<subseteq> {1..int (key_n keys)} \<Longrightarrow> distinct ks \<Longrightarrow>
    \<exists>ks'. foldE (signed_by C keys r) S (map (\<lambda>i. (i, partial_sign C (the (map_of (shares keys) i)) r)) ks)
       = Inr (map (\<lambda>i. (i, partial_sign C (the (map_of (shares keys) i)) r)) ks') \<and> distinct ks' \<and> set ks' = set ks \<union> set S"
proof (induction S arbitrary: ks)
  case (Cons i S)
  let ?g = "\<lambda>i. partial_sign C (the (map_of (shares keys) i)) r"
  have "signed_by C keys r i (map (\<lambda>i. (i, ?g i)) ks) = Inr (map (\<lambda>i. (i, ?g i)) (if i \<in> set ks then ks else ks @ [i]))"
    using signed_by_ok(1) [OF L K, of i r] Cons(2) update_same [of i ?g ks] by simp
  moreover have "distinct (if i \<in> set ks then ks else ks @ [i])" using Cons(3) by simp
  ultimately show ?case using Cons(1) [of "if i \<in> set ks then ks else ks @ [i]"] Cons(2) by auto
qed auto

text \<open>Combining the partial signatures of any quorum gives the group signature.\<close>

lemma map_of_index: "i \<in> set xs \<Longrightarrow> map_of (dict_of (map (\<lambda>i. (i, l i)) xs)) i = Some (l i)"
proof -
  have "map_of (map (\<lambda>i. (i, l i)) ys) i = (if i \<in> set ys then Some (l i) else None)" for ys by (induction ys) auto
  moreover assume "i \<in> set xs"
  ultimately show ?thesis by (simp add: map_of_dict_of rev_map)
qed

lemma combine_terms_fold:
  assumes L: "bls_laws C dl1 dl2" and lam: "\<And>i. i \<in> set xs \<Longrightarrow> map_of lam i = Some (l i)"
  shows "\<exists>b. foldE (combine_term C lam) (map (\<lambda>i. (i, g i)) xs) (Some a) = Inr (Some b) \<and>
    dl2 b mod curve_order C = (dl2 a + (\<Sum>i\<leftarrow>xs. dl2 (g i) * l i)) mod curve_order C"
  using lam
proof (induction xs arbitrary: a)
  case (Cons i xs)
  let ?r = "curve_order C"
  let ?t = "multiply2 C (g i) (l i mod ?r)"
  have "1 < ?r" using prime_order_pos bls_lawsD(1) [OF L] by blast
  then have t: "dl2 ?t mod ?r = dl2 (g i) * l i mod ?r"
    using bls_lawsD(7) [OF L, of "l i mod ?r" "g i"] by (simp add: mod_mult_right_eq)
  have "foldE (combine_term C lam) (map (\<lambda>i. (i, g i)) (i # xs)) (Some a)
      = foldE (combine_term C lam) (map (\<lambda>i. (i, g i)) xs) (Some (add2 C a ?t))"
    using Cons(2) by (simp add: combine_term_def)
  moreover obtain b where "foldE (combine_term C lam) (map (\<lambda>i. (i, g i)) xs) (Some (add2 C a ?t)) = Inr (Some b)"
    and b: "dl2 b mod ?r = (dl2 (add2 C a ?t) + (\<Sum>i\<leftarrow>xs. dl2 (g i) * l i)) mod ?r"
    using Cons(1) [of "add2 C a ?t"] Cons(2) by auto
  moreover have "dl2 (add2 C a ?t) mod ?r = (dl2 a + dl2 (g i) * l i) mod ?r"
    using bls_lawsD(6) [OF L, of a ?t] mod_add_cong [OF refl t, of "dl2 a"] by simp
  then have "dl2 b mod ?r = (dl2 a + dl2 (g i) * l i + (\<Sum>i\<leftarrow>xs. dl2 (g i) * l i)) mod ?r"
    unfolding b by (rule mod_add_cong [OF _ refl])
  ultimately show ?case by (simp add: add.assoc)
qed auto

lemma combine_ok:
  assumes L: "bls_laws C dl1 dl2" and xs: "distinct xs" "xs \<noteq> []" "\<forall>x\<in>set xs. \<forall>y\<in>set xs. x \<noteq> y \<longrightarrow> \<not> curve_order C dvd x - y"
    and f: "polyfun (length xs) f" and g: "\<And>i. i \<in> set xs \<Longrightarrow> dl2 (g i) mod curve_order C = h * f i mod curve_order C"
  shows "\<exists>b. combine C (map (\<lambda>i. (i, g i)) xs) = Inr (Some b) \<and> dl2 b mod curve_order C = h * f 0 mod curve_order C"
proof -
  let ?r = "curve_order C"
  have r: "prime_order ?r" by (rule bls_lawsD(1) [OF L])
  obtain l where l: "\<And>i. i \<in> set xs \<Longrightarrow> lagrange_coeff ?r xs i = Inr (l i)"
    and s: "\<And>f. polyfun (length xs) f \<Longrightarrow> (\<Sum>i\<leftarrow>xs. f i * l i) mod ?r = f 0 mod ?r"
    by (rule lagrange_coeffs [OF r xs(1,3)]) blast
  let ?lam = "dict_of (map (\<lambda>i. (i, l i)) xs)"
  have lam: "lagrange_at_zero ?r xs = Inr ?lam"
    unfolding lagrange_at_zero_def by (subst mapE_all_Inr [where g = "\<lambda>i. (i, l i)"]) (simp_all add: l)
  obtain x ys where x: "xs = x # ys" using xs(2) by (cases xs) auto
  let ?t = "multiply2 C (g x) (l x mod ?r)"
  have "1 < ?r" by (rule prime_order_pos [OF r])
  then have t: "dl2 ?t mod ?r = dl2 (g x) * l x mod ?r"
    using bls_lawsD(7) [OF L, of "l x mod ?r" "g x"] by (simp add: mod_mult_right_eq)
  have lk: "map_of ?lam i = Some (l i)" if "i \<in> set xs" for i by (rule map_of_index [OF that])
  obtain b where b: "foldE (combine_term C ?lam) (map (\<lambda>i. (i, g i)) ys) (Some ?t) = Inr (Some b)"
    and db: "dl2 b mod ?r = (dl2 ?t + (\<Sum>i\<leftarrow>ys. dl2 (g i) * l i)) mod ?r"
    using combine_terms_fold [OF L, of ys ?lam l g ?t] lk by (auto simp: x)
  have "combine C (map (\<lambda>i. (i, g i)) xs) = Inr (Some b)"
    using b lk [of x] lam by (simp add: combine_def x combine_term_def comp_def)
  moreover have "dl2 b mod ?r = (\<Sum>i\<leftarrow>xs. dl2 (g i) * l i) mod ?r"
    unfolding db x using mod_add_cong [OF t refl] by simp
  moreover have "(\<Sum>i\<leftarrow>zs. dl2 (g i) * l i) mod ?r = (\<Sum>i\<leftarrow>zs. (h * f i) * l i) mod ?r" if "set zs \<subseteq> set xs" for zs
    using that
  proof (induction zs)
    case (Cons z zs)
    then have "dl2 (g z) * l z mod ?r = h * f z * l z mod ?r" by (intro mod_mult_cong refl g) simp
    from mod_add_cong [OF this] Cons show ?case by simp
  qed simp
  moreover have "(\<Sum>i\<leftarrow>xs. (h * f i) * l i) mod ?r = h * f 0 mod ?r"
    using s [of "\<lambda>x. h * f x"] polyfun_scale [OF f, of h] by simp
  ultimately show ?thesis by simp
qed

lemma small_incongruent:
  assumes "x \<in> {1..int n}" "y \<in> {1..int n}" "x \<noteq> y" "int n < r"
  shows "\<not> r dvd x - y"
proof
  assume "r dvd x - y"
  then have "x mod r = y mod r" by (simp add: mod_eq_dvd_iff)
  then show False using assms by simp
qed

text \<open>A round: a quorum signs and the result verifies and is the same for every quorum; fewer signers get nothing.\<close>

lemma produce_ok:
  assumes L: "bls_laws C dl1 dl2" and K: "keys_ok C dl1 f keys" and n: "int (key_n keys) < curve_order C"
    and t: "0 < key_t keys" and S: "set S \<subseteq> {1..int (key_n keys)}"
  shows "if key_t keys \<le> card (set S)
     then \<exists>g. produce C keys r S = Inr (Some g, True) \<and> dl2 g mod curve_order C = dl2 (round_point C r) * f 0 mod curve_order C
     else produce C keys r S = Inr (None, False)"
proof -
  let ?g = "\<lambda>i. partial_sign C (the (map_of (shares keys) i)) r"
  obtain ks where ks: "foldE (signed_by C keys r) S [] = Inr (map (\<lambda>i. (i, ?g i)) ks)" "distinct ks" "set ks = set S"
    using signers_ok [OF L K S, of "[]" r] by auto
  have len: "length ks = card (set S)" using ks(2,3) distinct_card by metis
  show ?thesis
  proof (cases "key_t keys \<le> card (set S)")
    case True
    let ?xs = "take (key_t keys) ks"
    have sub: "set ?xs \<subseteq> {1..int (key_n keys)}" using ks(3) S set_take_subset by fastforce
    have "\<exists>b. combine C (map (\<lambda>i. (i, ?g i)) ?xs) = Inr (Some b) \<and>
        dl2 b mod curve_order C = dl2 (round_point C r) * f 0 mod curve_order C"
    proof (rule combine_ok [OF L])
      show "distinct ?xs" using ks(2) by simp
      show "?xs \<noteq> []" using t True len by (cases ks) (auto simp: take_Cons')
      show "\<forall>x\<in>set ?xs. \<forall>y\<in>set ?xs. x \<noteq> y \<longrightarrow> \<not> curve_order C dvd x - y"
        using sub small_incongruent n by blast
      show "polyfun (length ?xs) f" using K True len by (simp add: keys_ok_def min_absorb2)
      show "dl2 (?g i) mod curve_order C = dl2 (round_point C r) * f i mod curve_order C" if "i \<in> set ?xs" for i
        by (rule signed_by_ok(2) [OF L K]) (use sub that in blast)
    qed
    then obtain b where b: "combine C (map (\<lambda>i. (i, ?g i)) ?xs) = Inr (Some b)"
      "dl2 b mod curve_order C = dl2 (round_point C r) * f 0 mod curve_order C" by blast
    obtain pk where pk: "group_pk keys = Some pk" "dl1 pk mod curve_order C = f 0 mod curve_order C"
      using K by (auto simp: keys_ok_def)
    have "pairing C b (G1 C) = pairing C (round_point C r) pk" using pairing_G1 [OF L pk(2)] b(2) by blast
    then have "produce C keys r S = Inr (Some b, True)"
      using ks(1) True len b(1) pk(1) by (simp add: produce_def take_map beacon_verify_def)
    then show ?thesis using True b(2) by auto
  next
    case False
    then show ?thesis using ks(1) len by (simp add: produce_def)
  qed
qed

subsection \<open>Dealing\<close>

lemma rand_scalar_nonneg: "prime_order (curve_order C) \<Longrightarrow> 0 \<le> rand_scalar P C sd"
  using prime_order_pos [of "curve_order C"] by (simp add: rand_scalar_def)

lemma map_of_range: "i \<in> {1..int n} \<Longrightarrow> map_of (map (\<lambda>i. (i, g i)) [1..int n]) i = Some (g i)"
  by (simp add: map_of_map_restrict)

lemma peval_0: "0 < n \<Longrightarrow> peval n c 0 = c 0"
  by (cases n) (simp_all add: peval_def sum.lessThan_Suc_shift del: sum.lessThan_Suc)

lemma polyfun_peval: "polyfun n (peval n c)"
  unfolding polyfun_def by blast

lemma deal_ok:
  assumes L: "bls_laws C dl1 dl2" and t: "0 < t" "t \<le> 256"
  shows "\<exists>keys f. deal P C n t sd = Inr keys \<and> keys_ok C dl1 f keys \<and> key_t keys = t \<and> key_n keys = n"
proof -
  let ?r = "curve_order C"
  have pr: "prime_order ?r" by (rule bls_lawsD(1) [OF L])
  let ?c = "map (\<lambda>k. rand_scalar P C (sd @ [of_nat k])) [0..<t]"
  have cs: "mapE (\<lambda>k. bindE (byte_of k) (\<lambda>b. Inr (rand_scalar P C (sd @ b)))) [0..<t] = Inr ?c"
    by (rule mapE_all_Inr) (use t in \<open>auto simp: byte_of_def\<close>)
  let ?f = "peval t (\<lambda>k. ?c ! k)"
  let ?sh = "map (\<lambda>i. (i, share_at ?r ?c i)) [1..int n]"
  let ?K = "\<lparr>group_pk = Some (multiply1 C (G1 C) (hd ?c)), shares = ?sh,
             partial_pks = map (\<lambda>(i, s). (i, multiply1 C (G1 C) s)) ?sh, key_t = t, key_n = n\<rparr>"
  have ne: "?c \<noteq> []" using t(1) by simp
  have "hd ?c = ?c ! 0" by (rule hd_conv_nth [OF ne])
  also have "\<dots> = ?f 0" using t(1) by (simp add: peval_0)
  finally have hd: "hd ?c = ?f 0" .
  have "0 \<le> hd ?c" using rand_scalar_nonneg [OF pr] t(1) by (simp add: hd_map)
  then have "dl1 (multiply1 C (G1 C) (hd ?c)) mod ?r = ?f 0 mod ?r" using dl1_G1_mult [OF L] hd by metis
  moreover have "share_at ?r ?c i mod ?r = ?f i mod ?r" "0 \<le> share_at ?r ?c i" for i
    using share_at_peval [of ?r ?c i] share_at_nonneg [of ?r ?c i] prime_order_pos [OF pr] by simp_all
  ultimately have "keys_ok C dl1 ?f ?K"
    unfolding keys_ok_def by (simp add: polyfun_peval map_of_range map_of_map_restrict comp_def)
  moreover have "deal P C n t sd = Inr ?K" by (simp only: deal_def cs bindE_Inr Let_def ne raise_if_False)
  ultimately show ?thesis by (intro exI [of _ ?K] exI [of _ ?f] conjI) (assumption | simp only: beacon_keys.select_convs)+
qed

lemma committed_fold:
  assumes L: "bls_laws C dl1 dl2"
  shows "\<forall>c\<in>set cs. 0 \<le> c \<Longrightarrow> \<exists>q. fold (\<lambda>(j, p) rhs. let trm = multiply1 C p (m ^ j mod curve_order C)
            in Some (case rhs of None \<Rightarrow> trm | Some q \<Rightarrow> add1 C q trm)) (enumerate n (map (multiply1 C (G1 C)) cs)) (Some a) = Some q
      \<and> dl1 q mod curve_order C = (dl1 a + (\<Sum>k<length cs. cs ! k * m ^ (n + k))) mod curve_order C"
proof (induction cs arbitrary: n a)
  case (Cons c cs)
  let ?r = "curve_order C"
  let ?t = "multiply1 C (multiply1 C (G1 C) c) (m ^ n mod ?r)"
  have pos: "1 < ?r" using prime_order_pos bls_lawsD(1) [OF L] by blast
  have t: "dl1 ?t mod ?r = c * m ^ n mod ?r"
  proof -
    have "dl1 ?t mod ?r = dl1 (multiply1 C (G1 C) c) * (m ^ n mod ?r) mod ?r" using bls_lawsD(4) [OF L] pos by simp
    also have "\<dots> = c * m ^ n mod ?r" using Cons(2) by (intro mod_mult_cong dl1_G1_mult [OF L]) auto
    finally show ?thesis .
  qed
  obtain q where q: "fold (\<lambda>(j, p) rhs. let trm = multiply1 C p (m ^ j mod ?r)
            in Some (case rhs of None \<Rightarrow> trm | Some q \<Rightarrow> add1 C q trm)) (enumerate (Suc n) (map (multiply1 C (G1 C)) cs)) (Some (add1 C a ?t)) = Some q"
    and d: "dl1 q mod ?r = (dl1 (add1 C a ?t) + (\<Sum>k<length cs. cs ! k * m ^ (Suc n + k))) mod ?r"
    using Cons(1) [of "Suc n" "add1 C a ?t"] Cons(2) by auto
  have "dl1 (add1 C a ?t) mod ?r = (dl1 a + c * m ^ n) mod ?r"
    using bls_lawsD(3) [OF L, of a ?t] mod_add_cong [OF refl t, of "dl1 a"] by simp
  then have "dl1 q mod ?r = (dl1 a + c * m ^ n + (\<Sum>k<length cs. cs ! k * m ^ (Suc n + k))) mod ?r"
    unfolding d by (rule mod_add_cong [OF _ refl])
  moreover have "(\<Sum>k<length (c # cs). (c # cs) ! k * m ^ (n + k)) = c * m ^ n + (\<Sum>k<length cs. cs ! k * m ^ (Suc n + k))"
    unfolding list.size(4) add.right_neutral One_nat_def add_Suc_right sum.lessThan_Suc_shift by simp
  ultimately show ?case using q by (simp add: add.assoc)
qed simp

text \<open>Every share an honest dealer sends passes its commitments.\<close>

lemma verify_share_ok:
  assumes L: "bls_laws C dl1 dl2" and cs: "cs \<noteq> []" "\<forall>c\<in>set cs. 0 \<le> c"
  shows "verify_share C (share_at (curve_order C) cs m) m (map (multiply1 C (G1 C)) cs) = Inr True"
proof -
  let ?r = "curve_order C"
  obtain c cs' where c: "cs = c # cs'" using cs(1) by (cases cs) auto
  have pos: "1 < ?r" using prime_order_pos bls_lawsD(1) [OF L] by blast
  let ?t = "multiply1 C (multiply1 C (G1 C) c) (m ^ 0 mod ?r)"
  obtain q where q: "committed_share C m (map (multiply1 C (G1 C)) cs) = Some q"
    and d: "dl1 q mod ?r = (dl1 ?t + (\<Sum>k<length cs'. cs' ! k * m ^ (1 + k))) mod ?r"
    using committed_fold [OF L, of cs' m 1 ?t] cs(2) by (auto simp: committed_share_def c Let_def)
  have "dl1 ?t mod ?r = c mod ?r"
    using bls_lawsD(4) [OF L, of 1 "multiply1 C (G1 C) c"] dl1_G1_mult [OF L, of c] cs(2) pos by (simp add: c)
  then have "dl1 q mod ?r = (c + (\<Sum>k<length cs'. cs' ! k * m ^ (1 + k))) mod ?r"
    unfolding d by (rule mod_add_cong [OF _ refl])
  moreover have "peval (length cs) (\<lambda>k. cs ! k) m = c + (\<Sum>k<length cs'. cs' ! k * m ^ (1 + k))"
    unfolding peval_def c list.size(4) add.right_neutral One_nat_def add_Suc_right sum.lessThan_Suc_shift by simp
  ultimately have "dl1 q mod ?r = share_at ?r cs m mod ?r" by (simp add: share_at_peval)
  moreover have "dl1 (multiply1 C (G1 C) (share_at ?r cs m)) mod ?r = share_at ?r cs m mod ?r"
    using pos by (intro dl1_G1_mult [OF L] share_at_nonneg) simp
  ultimately show ?thesis by (simp add: verify_share_def q bls_lawsD(5) [OF L])
qed

definition honest :: "('a, 'b, 'c) bls \<Rightarrow> nat \<Rightarrow> 'a dealer \<Rightarrow> bool" where
  "honest C t d \<longleftrightarrow> length (d_coeffs d) = t \<and> (\<forall>c\<in>set (d_coeffs d). 0 \<le> c)
     \<and> d_commitments d = map (multiply1 C (G1 C)) (d_coeffs d)"

definition dealer_poly :: "'a dealer \<Rightarrow> int \<Rightarrow> int" where
  "dealer_poly d = peval (length (d_coeffs d)) (\<lambda>k. d_coeffs d ! k)"

lemma collect_ok:
  assumes L: "bls_laws C dl1 dl2" and t: "0 < t"
  shows "\<forall>d\<in>set ds. honest C t d \<Longrightarrow> 0 \<le> a \<Longrightarrow> \<exists>s. foldE (collect_share C m) ds a = Inr s \<and> 0 \<le> s \<and>
    s mod curve_order C = (a + (\<Sum>d\<leftarrow>ds. dealer_poly d m)) mod curve_order C"
proof (induction ds arbitrary: a)
  case (Cons d ds)
  let ?r = "curve_order C"
  let ?s = "share_at ?r (d_coeffs d) m"
  have pos: "1 < ?r" using prime_order_pos bls_lawsD(1) [OF L] by blast
  have h: "honest C t d" using Cons(2) by simp
  then have "collect_share C m d a = Inr ((a + ?s) mod ?r)"
    using verify_share_ok [OF L, of "d_coeffs d" m] t by (auto simp: collect_share_def share_for_def honest_def Let_def)
  moreover obtain s where s: "foldE (collect_share C m) ds ((a + ?s) mod ?r) = Inr s" "0 \<le> s"
    "s mod ?r = ((a + ?s) mod ?r + (\<Sum>d\<leftarrow>ds. dealer_poly d m)) mod ?r"
    using Cons(1) [of "(a + ?s) mod ?r"] Cons(2) pos by auto
  moreover have "?s mod ?r = dealer_poly d m mod ?r" by (simp add: share_at_peval dealer_poly_def)
  then have "(a + ?s) mod ?r mod ?r = (a + dealer_poly d m) mod ?r" using mod_add_cong [OF refl] by simp
  then have "s mod ?r = (a + dealer_poly d m + (\<Sum>d\<leftarrow>ds. dealer_poly d m)) mod ?r"
    unfolding s(3) by (rule mod_add_cong [OF _ refl])
  ultimately show ?case by (simp add: add.assoc)
qed simp

lemma add_commitments_ok:
  assumes L: "bls_laws C dl1 dl2" and t: "0 < t"
  shows "\<forall>d\<in>set ds. honest C t d \<Longrightarrow> \<exists>q. foldE (add_commitment C) ds (Some p) = Inr (Some q) \<and>
    dl1 q mod curve_order C = (dl1 p + (\<Sum>d\<leftarrow>ds. dealer_poly d 0)) mod curve_order C"
proof (induction ds arbitrary: p)
  case (Cons d ds)
  let ?r = "curve_order C"
  have h: "honest C t d" using Cons(2) by simp
  then obtain c cs where c: "d_coeffs d = c # cs" "0 \<le> c" using t by (cases "d_coeffs d") (auto simp: honest_def)
  have p0: "dealer_poly d 0 = c" by (simp add: dealer_poly_def c peval_0)
  let ?q = "add1 C p (multiply1 C (G1 C) c)"
  have "add_commitment C d (Some p) = Inr (Some ?q)" using h c by (simp add: add_commitment_def honest_def)
  moreover obtain q where q: "foldE (add_commitment C) ds (Some ?q) = Inr (Some q)"
    "dl1 q mod ?r = (dl1 ?q + (\<Sum>d\<leftarrow>ds. dealer_poly d 0)) mod ?r"
    using Cons(1) [of ?q] Cons(2) by auto
  moreover have "dl1 ?q mod ?r = (dl1 p + c) mod ?r"
    using bls_lawsD(3) [OF L] mod_add_cong [OF refl dl1_G1_mult [OF L c(2)]] by simp
  then have "dl1 q mod ?r = (dl1 p + c + (\<Sum>d\<leftarrow>ds. dealer_poly d 0)) mod ?r"
    unfolding q(2) by (rule mod_add_cong [OF _ refl])
  ultimately show ?case by (simp add: p0 add.assoc)
qed simp

lemma group_pk_ok:
  assumes L: "bls_laws C dl1 dl2" and t: "0 < t" and ds: "ds \<noteq> []" "\<forall>d\<in>set ds. honest C t d"
  shows "\<exists>q. foldE (add_commitment C) ds None = Inr (Some q) \<and> dl1 q mod curve_order C = (\<Sum>d\<leftarrow>ds. dealer_poly d 0) mod curve_order C"
proof -
  let ?r = "curve_order C"
  obtain d ds' where d: "ds = d # ds'" using ds(1) by (cases ds) auto
  then obtain c cs where c: "d_coeffs d = c # cs" "0 \<le> c" using t ds(2) by (cases "d_coeffs d") (auto simp: honest_def)
  have p0: "dealer_poly d 0 = c" by (simp add: dealer_poly_def c peval_0)
  have "add_commitment C d None = Inr (Some (multiply1 C (G1 C) c))" using ds(2) d c by (simp add: add_commitment_def honest_def)
  moreover obtain q where q: "foldE (add_commitment C) ds' (Some (multiply1 C (G1 C) c)) = Inr (Some q)"
    "dl1 q mod ?r = (dl1 (multiply1 C (G1 C) c) + (\<Sum>d\<leftarrow>ds'. dealer_poly d 0)) mod ?r"
    using add_commitments_ok [OF L t, of ds' "multiply1 C (G1 C) c"] ds(2) d by auto
  moreover have "dl1 q mod ?r = (c + (\<Sum>d\<leftarrow>ds'. dealer_poly d 0)) mod ?r"
    unfolding q(2) by (rule mod_add_cong [OF dl1_G1_mult [OF L c(2)] refl])
  ultimately show ?thesis by (simp add: d p0)
qed

lemma run_dkg_ok:
  assumes L: "bls_laws C dl1 dl2" and t: "0 < t" "t \<le> 256" and n: "0 < n" "n < 256"
  shows "\<exists>keys f. run_dkg P C n t sd = Inr keys \<and> keys_ok C dl1 f keys \<and> key_t keys = t \<and> key_n keys = n"
proof -
  let ?r = "curve_order C"
  have pr: "prime_order ?r" by (rule bls_lawsD(1) [OF L])
  let ?cs = "\<lambda>i. map (\<lambda>j. rand_scalar P C (sd @ [of_nat i] @ [of_nat j])) [0..<t]"
  let ?d = "\<lambda>i. \<lparr>d_idx = i, d_coeffs = ?cs i, d_commitments = map (multiply1 C (G1 C)) (?cs i)\<rparr>"
  let ?ds = "map ?d [1..<Suc n]"
  have "create P C i t sd = Inr (?d i)" if "i \<in> set [1..<Suc n]" for i
  proof -
    have "mapE (\<lambda>j. bindE (byte_of i) (\<lambda>a. bindE (byte_of j) (\<lambda>b. Inr (rand_scalar P C (sd @ a @ b))))) [0..<t] = Inr (?cs i)"
      by (rule mapE_all_Inr) (use t n that in \<open>auto simp: byte_of_def\<close>)
    then show ?thesis by (simp only: create_def bindE_Inr)
  qed
  then have ds: "mapE (\<lambda>i. create P C i t sd) [1..<Suc n] = Inr ?ds" by (rule mapE_all_Inr)
  have hon: "\<forall>d\<in>set ?ds. honest C t d" using rand_scalar_nonneg [OF pr] by (auto simp: honest_def)
  have ne: "?ds \<noteq> []" using n by simp
  let ?f = "\<lambda>m. \<Sum>d\<leftarrow>?ds. dealer_poly d m"
  have "\<exists>s. foldE (collect_share C m) ?ds 0 = Inr s \<and> 0 \<le> s \<and> s mod ?r = ?f m mod ?r" for m
    using collect_ok [OF L t(1) hon, of 0 m] by simp
  then obtain s where s: "\<And>m. foldE (collect_share C m) ?ds 0 = Inr (s m)" "\<And>m. 0 \<le> s m" "\<And>m. s m mod ?r = ?f m mod ?r" by metis
  let ?sh = "map (\<lambda>m. (m, s m)) [1..int n]"
  have sh: "mapE (\<lambda>m. bindE (foldE (collect_share C m) ?ds 0) (\<lambda>s. Inr (m, s))) [1..int n] = Inr ?sh"
    by (rule mapE_all_Inr) (simp only: s(1) bindE_Inr)
  obtain q where q: "foldE (add_commitment C) ?ds None = Inr (Some q)" "dl1 q mod ?r = ?f 0 mod ?r"
    using group_pk_ok [OF L t(1) ne hon] by blast
  let ?K = "\<lparr>group_pk = Some q, shares = ?sh, partial_pks = map (\<lambda>(m, s). (m, multiply1 C (G1 C) s)) ?sh,
          key_t = t, key_n = n\<rparr>"
  have "polyfun t (dealer_poly d)" if "d \<in> set ?ds" for d
  proof -
    have "length (d_coeffs d) = t" using hon that unfolding honest_def by blast
    then show ?thesis using polyfun_peval [of t "\<lambda>k. d_coeffs d ! k"] by (simp only: dealer_poly_def)
  qed
  then have "polyfun t ?f" by (rule polyfun_sum)
  then have "keys_ok C dl1 ?f ?K"
    unfolding keys_ok_def using q(2) s(2,3) by (simp add: map_of_range map_of_map_restrict comp_def)
  moreover have "run_dkg P C n t sd = Inr ?K" by (simp only: run_dkg_def ds sh q(1) bindE_Inr)
  ultimately show ?thesis by (intro exI [of _ ?K] exI [of _ ?f] conjI) (assumption | simp only: beacon_keys.select_convs)+
qed

end
