(* ===== verification/Gossip_Sim.thy ===== *)
theory Gossip_Sim
  imports Commitments Tree_Props
begin

section \<open>The gossip network without a coordinator (rig/p2p.py)\<close>

text \<open>
  \<^verbatim>\<open>GossipNode\<close> and the deterministic \<^verbatim>\<open>Network\<close> around it, over the block tree of \<^verbatim>\<open>rig/blockchain.py\<close>. Training
  and evaluation are floating-point code: \<open>train node height weights\<close> is the quantized delta body and
  \<open>score weights height body\<close> the improvement of the loss, which may raise when the shapes differ; both
  are arguments, the scores elements of any ordered group. A handler takes and returns the node with its outbox. \<^verbatim>\<open>recv_block\<close> calls itself on
  the orphans that waited for the block; \<open>recv_stack\<close> keeps the pending calls as a list, children
  before the remaining siblings, which is the order of the recursive calls.
\<close>

subsection \<open>A node\<close>

definition include_k :: nat where "include_k = 4"

datatype gmsg = TxMsg backprop_tx weights | BlockMsg block

record gnode =
  gn_id :: nat
  gn_key :: key
  gn_tree :: tree
  gn_peers :: "nat list"
  gn_mempool :: "(string, backprop_tx \<times> weights) dict"
  gn_seen_tx :: "string set"
  gn_seen_block :: "string set"
  gn_orphans :: "(string, block list) dict"

type_synonym gstate = "gnode \<times> gmsg list"

definition head_height :: "tree \<Rightarrow> int res" where
  "head_height t = bindE (dict_at (bt_blocks t) (bt_head t)) (\<lambda>b. Inr (h_height (b_header b)))"

definition make_tx :: "prims \<Rightarrow> (nat \<Rightarrow> int \<Rightarrow> weights \<Rightarrow> weights) \<Rightarrow> gnode \<Rightarrow> (backprop_tx \<times> weights) res" where
  "make_tx P train s =
     bindE (head_height (gn_tree s)) (\<lambda>h.
     bindE (head_state (gn_tree s)) (\<lambda>w.
     let body = train (gn_id s) h w;
         ptr = ''da://'' @ take 8 (pub (gn_key s)) @ ''/'' @ int_str h @ ''/'' @ nat_str (gn_id s)
     in bindE (bp_signed P \<lparr>bp_miner = pub (gn_key s), bp_base_height = h,
            bp_delta_hash = delta_hash P (tobytes body), bp_da_pointer = ptr, bp_bond = 0, bp_pages = [],
            bp_data_refs = [''genesis''], bp_sig = []\<rparr> (gn_key s)) (\<lambda>tx.
        Inr (tx, body))))"

text \<open>A transaction enters the mempool and is forwarded.\<close>

definition admit_tx :: "prims \<Rightarrow> backprop_tx \<Rightarrow> weights \<Rightarrow> gstate \<Rightarrow> gstate" where
  "admit_tx P tx body st = (let (s, out) = st in
     (s\<lparr>gn_seen_tx := insert (bp_txid P tx) (gn_seen_tx s),
        gn_mempool := AList.update (bp_txid P tx) (tx, body) (gn_mempool s)\<rparr>, out @ [TxMsg tx body]))"

definition submit_own_tx :: "prims \<Rightarrow> (nat \<Rightarrow> int \<Rightarrow> weights \<Rightarrow> weights) \<Rightarrow> gstate \<Rightarrow> gstate res" where
  "submit_own_tx P train st =
     bindE (make_tx P train (fst st)) (\<lambda>(tx, body).
     Inr (if bp_txid P tx \<in> gn_seen_tx (fst st) then st else admit_tx P tx body st))"

definition recv_tx :: "prims \<Rightarrow> backprop_tx \<Rightarrow> weights \<Rightarrow> gstate \<Rightarrow> gstate" where
  "recv_tx P tx body st =
     (if bp_txid P tx \<in> gn_seen_tx (fst st) \<or> \<not> bp_verify P tx then st
      else if delta_hash P (tobytes body) \<noteq> bp_delta_hash tx then st
      else admit_tx P tx body st)"

definition prune_mempool :: "prims \<Rightarrow> block \<Rightarrow> gnode \<Rightarrow> gnode" where
  "prune_mempool P b s = s\<lparr>gn_mempool := fold (\<lambda>tx. AList.delete (bp_txid P tx)) (b_txs b) (gn_mempool s)\<rparr>"

text \<open>A block that landed: known, out of the mempool, forwarded.\<close>

definition landed :: "prims \<Rightarrow> block \<Rightarrow> tree \<Rightarrow> gstate \<Rightarrow> gstate" where
  "landed P b t st = (let (s, out) = st in
     (prune_mempool P b (s\<lparr>gn_tree := t, gn_seen_block := insert (hash_of P b) (gn_seen_block s)\<rparr>),
      out @ [BlockMsg b]))"

subsection \<open>Proposing\<close>

definition candidate ::
  "(weights \<Rightarrow> int \<Rightarrow> weights \<Rightarrow> 's::linordered_ab_group_add res) \<Rightarrow> int \<Rightarrow> weights \<Rightarrow> string \<times> backprop_tx \<times> weights \<Rightarrow>
   ('s \<times> backprop_tx \<times> weights) list \<Rightarrow> ('s \<times> backprop_tx \<times> weights) list res" where
  "candidate score hh w e cands = (let (txid, tx, body) = e in
     if bp_base_height tx \<noteq> hh then Inr cands
     else bindE (score w hh body) (\<lambda>sc. Inr (if 0 < sc then cands @ [(sc, tx, body)] else cands)))"

definition propose ::
  "prims \<Rightarrow> (weights \<Rightarrow> int \<Rightarrow> weights \<Rightarrow> 's::linordered_ab_group_add res) \<Rightarrow> gstate \<Rightarrow> (block option \<times> gstate) res" where
  "propose P score st = (let s = fst st; t = gn_tree s in
     bindE (head_height t) (\<lambda>hh.
     bindE (head_state t) (\<lambda>w.
     bindE (foldE (candidate score hh w) (gn_mempool s) []) (\<lambda>cands.
     if cands = [] then Inr (None, st)
     else
       let chosen = take include_k (sort_key (\<lambda>(sc, tx, body). (- sc, bp_txid P tx)) cands);
           pr = \<lparr>pr_accepted = map (\<lambda>(sc, tx, body). tx) chosen,
                 pr_bodies = dict_of (map (\<lambda>(sc, tx, body). (bp_da_pointer tx, body)) chosen),
                 pr_key = gn_key s, pr_transfers = [], pr_data_txs = [], pr_scores = [],
                 pr_sketches = [], pr_attempt = 0\<rparr>
       in bindE (build_block P t (bt_head t) pr) (\<lambda>b.
          bindE (add_block P b t) (\<lambda>(became_head, t').
          Inr (Some b, if became_head then landed P b t' st else (s\<lparr>gn_tree := t'\<rparr>, snd st))))))))"

subsection \<open>Receiving a block\<close>

text \<open>\<^verbatim>\<open>p in s\<close> on strings.\<close>

fun contains :: "string \<Rightarrow> string \<Rightarrow> bool" where
  "contains p [] = (p = [])"
| "contains p (c # s) = (take (length p) (c # s) = p \<or> contains p s)"

definition buffer_orphan :: "block \<Rightarrow> gnode \<Rightarrow> gnode" where
  "buffer_orphan b s = (let k = h_prev_hash (b_header b)
     in s\<lparr>gn_orphans := AList.update k (dict_get (gn_orphans s) k [] @ [b]) (gn_orphans s)\<rparr>)"

definition waiting :: "prims \<Rightarrow> block list \<Rightarrow> gnode \<Rightarrow> string set" where
  "waiting P bs s = hash_of P ` (set bs \<union> \<Union> (set ` snd ` set (gn_orphans s))) - gn_seen_block s"

lemma dict_get_subset: "set (dict_get d k []) \<subseteq> \<Union> (set ` snd ` set d)"
proof (cases "map_of d k")
  case (Some v)
  then have "(k, v) \<in> set d" by (rule map_of_SomeD)
  then show ?thesis using Some by (force simp: dict_get_def)
qed (simp add: dict_get_def)

lemma finite_waiting: "finite (waiting P bs s)"
  by (simp add: waiting_def)

lemma waiting_buffer: "waiting P bs (buffer_orphan b s) \<subseteq> waiting P (b # bs) s"
proof -
  note dict_get_subset [of "gn_orphans s" "h_prev_hash (b_header b)"]
    and set_update_subset [of "h_prev_hash (b_header b)" "dict_get (gn_orphans s) (h_prev_hash (b_header b)) [] @ [b]" "gn_orphans s"]
  then show ?thesis by (fastforce simp: waiting_def buffer_orphan_def Let_def)
qed

lemma waiting_landed:
  assumes "hash_of P b \<notin> gn_seen_block s"
  shows "waiting P (dict_get (gn_orphans s) (hash_of P b) [] @ bs)
      ((fst (landed P b t (s, out)))\<lparr>gn_orphans := AList.delete (hash_of P b) (gn_orphans s)\<rparr>)
    \<subset> waiting P (b # bs) s"
proof -
  let ?s = "(fst (landed P b t (s, out)))\<lparr>gn_orphans := AList.delete (hash_of P b) (gn_orphans s)\<rparr>"
  note dict_get_subset [of "gn_orphans s"]
  moreover have "set (AList.delete (hash_of P b) (gn_orphans s)) \<subseteq> set (gn_orphans s)"
    by (auto simp: AList.delete_eq)
  moreover have "gn_seen_block ?s = insert (hash_of P b) (gn_seen_block s)"
    by (simp add: landed_def Let_def prune_mempool_def)
  ultimately have "waiting P (dict_get (gn_orphans s) (hash_of P b) [] @ bs) ?s
      \<subseteq> waiting P (b # bs) s - {hash_of P b}"
    by (fastforce simp: waiting_def)
  then show ?thesis using assms by (auto simp: waiting_def)
qed

function recv_stack :: "prims \<Rightarrow> block list \<Rightarrow> gstate \<Rightarrow> gstate res" where
  "recv_stack P [] st = Inr st"
| "recv_stack P (b # bs) (s, out) =
     (if hash_of P b \<in> gn_seen_block s then recv_stack P bs (s, out)
      else case add_block P b (gn_tree s) of
        Inl e \<Rightarrow> (case e of
            ValidationError m \<Rightarrow> recv_stack P bs (if contains ''orphan'' m then buffer_orphan b s else s, out)
          | _ \<Rightarrow> Inl e)
      | Inr (became_head, t) \<Rightarrow>
          let (s', out') = landed P b t (s, out);
              children = dict_get (gn_orphans s) (hash_of P b) []
          in recv_stack P (children @ bs)
               (s'\<lparr>gn_orphans := AList.delete (hash_of P b) (gn_orphans s)\<rparr>, out'))"
  by pat_completeness auto
termination
proof (relation "measures [\<lambda>(P, bs, st). card (waiting P bs (fst st)), \<lambda>(P, bs, st). length bs]", goal_cases)
  case 1
  show ?case by simp
next
  case (2 P b bs s out)
  have "card (waiting P bs s) \<le> card (waiting P (b # bs) s)"
    by (intro card_mono finite_waiting) (auto simp: waiting_def)
  then show ?case by (auto simp: measures_def inv_image_def less_le)
next
  case (3 P b bs s out e m)
  have "waiting P bs s \<subseteq> waiting P (b # bs) s" by (auto simp: waiting_def)
  then have "card (waiting P bs (if contains ''orphan'' m then buffer_orphan b s else s)) \<le> card (waiting P (b # bs) s)"
    using waiting_buffer by (intro card_mono finite_waiting) auto
  then show ?case by (auto simp: measures_def inv_image_def less_le)
next
  case (4 P b bs s out r became_head t x s' out' children)
  then have "s' = fst (landed P b t (s, out))" by (metis fst_conv)
  then have "card (waiting P (children @ bs) (s'\<lparr>gn_orphans := AList.delete (hash_of P b) (gn_orphans s)\<rparr>))
      < card (waiting P (b # bs) s)"
    using 4 psubset_card_mono [OF finite_waiting waiting_landed [OF 4(1)]] by simp
  then show ?case by simp
qed

definition recv_block :: "prims \<Rightarrow> block \<Rightarrow> gstate \<Rightarrow> gstate res" where
  "recv_block P b st = recv_stack P [b] st"

definition rebroadcast_chain :: "prims \<Rightarrow> gstate \<Rightarrow> gstate res option" where
  "rebroadcast_chain P st =
     Option.bind (chain_from_genesis P (gn_tree (fst st)) None) (\<lambda>r.
       Some (bindE r (\<lambda>bs. Inr (fst st, snd st @ map BlockMsg bs))))"

subsection \<open>The network\<close>

record network =
  net_nodes :: "gnode list"
  net_inflight :: "gmsg list list"
  net_partition :: "nat set list option"
  net_round :: nat

text \<open>\<^verbatim>\<open>b.ljust(32, b"0")\<close>\<close>

definition ljust32 :: "bytes \<Rightarrow> bytes" where
  "ljust32 b = b @ replicate (32 - length b) 48"

definition P2P_FOUNDER :: "prims \<Rightarrow> string res" where
  "P2P_FOUNDER P = address P (pub (generate P (encode ''p2p-sim-founder-0000000000000000'')))"

definition new_node :: "prims \<Rightarrow> weights \<Rightarrow> string \<Rightarrow> nat \<Rightarrow> gnode res" where
  "new_node P w0 founder i =
     bindE (new_tree P w0 None (Some founder) None) (\<lambda>t.
     Inr \<lparr>gn_id = i, gn_key = generate P (ljust32 (encode (''node'' @ nat_str i))), gn_tree = t, gn_peers = [],
          gn_mempool = [], gn_seen_tx = {}, gn_seen_block = {}, gn_orphans = []\<rparr>)"

definition peers_of :: "string \<Rightarrow> nat \<Rightarrow> nat \<Rightarrow> nat list res" where
  "peers_of topology n i =
     (if topology = ''ring'' then Inr [nat ((int i - 1) mod int n), (i + 1) mod n]
      else if topology = ''full'' then Inr (filter (\<lambda>j. j \<noteq> i) [0..<n])
      else Inl ValueError)"

definition wire :: "string \<Rightarrow> gnode list \<Rightarrow> gnode list res" where
  "wire topology nodes =
     mapE (\<lambda>(i, s). bindE (peers_of topology (length nodes) i) (\<lambda>ps. Inr (s\<lparr>gn_peers := ps\<rparr>)))
       (enumerate 0 nodes)"

definition new_network :: "prims \<Rightarrow> weights \<Rightarrow> nat \<Rightarrow> string \<Rightarrow> network res" where
  "new_network P w0 n topology =
     bindE (P2P_FOUNDER P) (\<lambda>founder.
     bindE (mapE (new_node P w0 founder) [0..<n]) (\<lambda>nodes.
     bindE (wire topology nodes) (\<lambda>nodes.
     Inr \<lparr>net_nodes = nodes, net_inflight = replicate n [], net_partition = None, net_round = 0\<rparr>)))"

definition set_partition :: "nat set list option \<Rightarrow> network \<Rightarrow> network" where
  "set_partition groups net = net\<lparr>net_partition := groups\<rparr>"

definition can_talk :: "nat set list option \<Rightarrow> nat \<Rightarrow> nat \<Rightarrow> bool" where
  "can_talk part a b = (case part of None \<Rightarrow> True | Some gs \<Rightarrow> list_ex (\<lambda>g. a \<in> g \<and> b \<in> g) gs)"

definition inject_tx :: "nat \<Rightarrow> backprop_tx \<Rightarrow> weights \<Rightarrow> network \<Rightarrow> network res" where
  "inject_tx i tx body net =
     (if i < length (net_inflight net)
      then Inr (net\<lparr>net_inflight := (net_inflight net)[i := net_inflight net ! i @ [TxMsg tx body]]\<rparr>)
      else Inl KeyError)"

definition deliver_msg :: "prims \<Rightarrow> gmsg \<Rightarrow> gstate \<Rightarrow> gstate res" where
  "deliver_msg P m st = (case m of TxMsg tx body \<Rightarrow> Inr (recv_tx P tx body st) | BlockMsg b \<Rightarrow> recv_block P b st)"

definition deliver :: "prims \<Rightarrow> network \<Rightarrow> gstate list res" where
  "deliver P net =
     mapE (\<lambda>(s, msgs). foldE (deliver_msg P) msgs (s, [])) (zip (net_nodes net) (net_inflight net))"

fun rebroadcast_all :: "prims \<Rightarrow> gstate list \<Rightarrow> gstate list res option" where
  "rebroadcast_all P [] = Some (Inr [])"
| "rebroadcast_all P (st # sts) =
     Option.bind (rebroadcast_chain P st) (\<lambda>r. case r of
         Inl e \<Rightarrow> Some (Inl e)
       | Inr st' \<Rightarrow> map_option (\<lambda>q. bindE q (\<lambda>sts'. Inr (st' # sts'))) (rebroadcast_all P sts))"

text \<open>\<^verbatim>\<open>self.nodes[i].propose(outbox[i])\<close>: a list index on the left, a dictionary key on the right.\<close>

definition propose_at ::
  "prims \<Rightarrow> (weights \<Rightarrow> int \<Rightarrow> weights \<Rightarrow> 's::linordered_ab_group_add res) \<Rightarrow> int \<Rightarrow> gstate list \<Rightarrow> gstate list res" where
  "propose_at P score i sts =
     (if i < - int (length sts) \<or> int (length sts) \<le> i then Inl IndexError
      else if i < 0 then Inl KeyError
      else bindE (propose P score (sts ! nat i)) (\<lambda>(b, st). Inr (sts[nat i := st])))"

definition leader :: "network \<Rightarrow> (int \<times> network) res" where
  "leader net = (let net = net\<lparr>net_round := net_round net + 1\<rparr> in
     if net_nodes net = [] then Inl ZeroDivisionError
     else Inr (int (net_round net mod length (net_nodes net)), net))"

definition post_msg :: "nat set list option \<Rightarrow> nat \<Rightarrow> gmsg \<Rightarrow> nat \<Rightarrow> gmsg list list \<Rightarrow> gmsg list list" where
  "post_msg part i m p nxt = (if can_talk part i p then nxt[p := nxt ! p @ [m]] else nxt)"

definition route :: "nat set list option \<Rightarrow> gstate list \<Rightarrow> gmsg list list" where
  "route part sts =
     fold (\<lambda>(i, s, out). fold (\<lambda>m. fold (post_msg part i m) (gn_peers s)) out)
       (enumerate 0 sts) (replicate (length sts) [])"

definition send_all :: "gstate list \<Rightarrow> network \<Rightarrow> network" where
  "send_all sts net = net\<lparr>net_nodes := map fst sts, net_inflight := route (net_partition net) sts\<rparr>"

definition net_step ::
  "prims \<Rightarrow> (nat \<Rightarrow> int \<Rightarrow> weights \<Rightarrow> weights) \<Rightarrow> (weights \<Rightarrow> int \<Rightarrow> weights \<Rightarrow> 's::linordered_ab_group_add res) \<Rightarrow>
   int list option \<Rightarrow> bool \<Rightarrow> bool \<Rightarrow> network \<Rightarrow> network res option" where
  "net_step P train score proposers sync produce net =
     (case deliver P net of
        Inl e \<Rightarrow> Some (Inl e)
      | Inr sts \<Rightarrow>
          if sync
          then map_option (\<lambda>r. bindE r (\<lambda>sts. Inr (send_all sts net))) (rebroadcast_all P sts)
          else Some (
            bindE (if produce then mapE (submit_own_tx P train) sts else Inr sts) (\<lambda>sts.
            bindE (case proposers of Some ps \<Rightarrow> Inr (ps, net)
                   | None \<Rightarrow> bindE (leader net) (\<lambda>(i, net). Inr ([i], net))) (\<lambda>(ps, net).
            bindE (foldE (propose_at P score) ps sts) (\<lambda>sts.
            Inr (send_all sts net))))))"

definition heads :: "network \<Rightarrow> string list" where
  "heads net = map (\<lambda>s. bt_head (gn_tree s)) (net_nodes net)"

definition converged :: "network \<Rightarrow> bool" where
  "converged net \<longleftrightarrow> length (remdups (heads net)) = 1"

definition net_height :: "network \<Rightarrow> int res" where
  "net_height net =
     bindE (mapE (\<lambda>s. head_height (gn_tree s)) (net_nodes net)) (\<lambda>hs.
     if hs = [] then Inl ValueError else Inr (Max (set hs)))"

end
