(* ===== verification/Gossip_Client.thy ===== *)
theory Gossip_Client
  imports Gossip_Sim Wire
begin

section \<open>The gossip client over compressed payloads (client/gossip.py)\<close>

text \<open>
  \<^verbatim>\<open>RealCore\<close>: the consensus state of one node of the real client and all its handlers, and the
  message dispatch and connection rule of \<^verbatim>\<open>GossipNode\<close>. Training and the float side of the compressor
  enter as the payload that \<^verbatim>\<open>submit_delta\<close> is about to sign. A block travels as its header, transactions,
  transfers and data transactions; its bodies are rebuilt from the retained payloads. As in
  \<open>Gossip_Sim\<close>, the recursion of \<^verbatim>\<open>recv_block\<close> and \<^verbatim>\<open>_install\<close> is a stack of pending calls.
\<close>

subsection \<open>State and messages\<close>

definition INCLUDE_K :: nat where "INCLUDE_K = 8"
definition PRUNE_DEPTH :: int where "PRUNE_DEPTH = 8"

record wire_block =
  wb_header :: header
  wb_txs :: "backprop_tx list"
  wb_transfers :: "transfer_tx list"
  wb_data_txs :: "data_tx list"

datatype cmsg =
    CTx backprop_tx payload
  | CXfer transfer_tx
  | CDtx data_tx
  | CBlock wire_block
  | CFull wire_block "(string, payload) dict"
  | CGet string

record real_core =
  co_id :: nat
  co_key :: key
  co_tree :: tree
  co_mempool :: "(string, backprop_tx) dict"
  co_seen_tx :: "string set"
  co_seen_block :: "string set"
  co_orphans :: "(string, wire_block list) dict"
  co_pending :: "(string, wire_block) dict"
  co_payloads :: "(string, payload) dict"
  co_transfer_pool :: "(string, transfer_tx) dict"
  co_seen_xfer :: "string set"
  co_data_pool :: "(string, data_tx) dict"
  co_seen_dtx :: "string set"

type_synonym cstate = "real_core \<times> cmsg list"

definition new_core :: "prims \<Rightarrow> nat \<Rightarrow> weights \<Rightarrow> string option \<Rightarrow> real_core res" where
  "new_core P node_id w dc =
     bindE (new_tree P w (Some PRUNE_DEPTH) dc None) (\<lambda>t.
     Inr \<lparr>co_id = node_id, co_key = generate P (ljust32 (encode (''node'' @ nat_str node_id))), co_tree = t,
          co_mempool = [], co_seen_tx = {}, co_seen_block = {}, co_orphans = [], co_pending = [], co_payloads = [],
          co_transfer_pool = [], co_seen_xfer = {}, co_data_pool = [], co_seen_dtx = {}\<rparr>)"

subsection \<open>Pools\<close>

definition recv_transfer :: "prims \<Rightarrow> transfer_tx \<Rightarrow> cstate \<Rightarrow> cstate" where
  "recv_transfer P tx st = (let (s, out) = st in
     if tr_txid P tx \<in> co_seen_xfer s \<or> \<not> tr_verify P tx then st
     else (s\<lparr>co_seen_xfer := insert (tr_txid P tx) (co_seen_xfer s),
             co_transfer_pool := AList.update (tr_txid P tx) tx (co_transfer_pool s)\<rparr>, out @ [CXfer tx]))"

definition recv_data_tx :: "prims \<Rightarrow> data_tx \<Rightarrow> cstate \<Rightarrow> cstate" where
  "recv_data_tx P tx st = (let (s, out) = st in
     if data_txid P tx \<in> co_seen_dtx s \<or> \<not> data_verify P tx then st
     else (s\<lparr>co_seen_dtx := insert (data_txid P tx) (co_seen_dtx s),
             co_data_pool := AList.update (data_txid P tx) tx (co_data_pool s)\<rparr>, out @ [CDtx tx]))"

definition core_body :: "real_core \<Rightarrow> string \<Rightarrow> weights res" where
  "core_body s k = bindE (dict_at (co_payloads s) k) decompress"

definition core_admit :: "prims \<Rightarrow> backprop_tx \<Rightarrow> payload \<Rightarrow> cstate \<Rightarrow> cstate" where
  "core_admit P tx pl st = (let (s, out) = st; k = bp_txid P tx in
     (s\<lparr>co_seen_tx := insert k (co_seen_tx s), co_mempool := AList.update k tx (co_mempool s),
        co_payloads := AList.update k pl (co_payloads s)\<rparr>, out @ [CTx tx pl]))"

definition active_refs :: "ledger \<Rightarrow> string list" where
  "active_refs led =
     (let refs = sort (remdups (map (\<lambda>(k, e). ent_data_hash e) (filter (\<lambda>(k, e). active e) (registry led))))
      in if refs = [] then [''genesis''] else refs)"

definition submit_delta :: "prims \<Rightarrow> int \<Rightarrow> payload \<Rightarrow> cstate \<Rightarrow> cstate res" where
  "submit_delta P hh pl st = (let s = fst st in
     bindE (head_height (co_tree s)) (\<lambda>h.
     if hh \<noteq> h then Inr st
     else bindE (decompress pl) (\<lambda>dense.
       let dh = delta_hash P (tobytes dense)
       in bindE (head_ledger (co_tree s)) (\<lambda>led.
          bindE (bp_signed P \<lparr>bp_miner = pub (co_key s), bp_base_height = hh, bp_delta_hash = dh,
                   bp_da_pointer = ''da://'' @ dh, bp_bond = 0, bp_pages = [], bp_data_refs = active_refs led,
                   bp_sig = []\<rparr> (co_key s)) (\<lambda>tx.
          Inr (if bp_txid P tx \<in> co_seen_tx s then st else core_admit P tx pl st))))))"

subsection \<open>Installing a block\<close>

text \<open>\<^verbatim>\<open>d.pop(k, None)\<close> for the ids of what a block settles.\<close>

definition settle_pools :: "prims \<Rightarrow> transfer_tx list \<Rightarrow> data_tx list \<Rightarrow> real_core \<Rightarrow> real_core" where
  "settle_pools P xs ds s =
     s\<lparr>co_transfer_pool := fold (\<lambda>t. AList.delete (tr_txid P t)) xs (co_transfer_pool s),
       co_data_pool := fold (\<lambda>t. AList.delete (data_txid P t)) ds (co_data_pool s)\<rparr>"

definition prune_txs :: "prims \<Rightarrow> backprop_tx list \<Rightarrow> real_core \<Rightarrow> real_core" where
  "prune_txs P txs s = s\<lparr>co_mempool := fold (\<lambda>tx. AList.delete (bp_txid P tx)) txs (co_mempool s)\<rparr>"

definition wire_of :: "block \<Rightarrow> wire_block" where
  "wire_of b = \<lparr>wb_header = b_header b, wb_txs = b_txs b, wb_transfers = b_transfers b, wb_data_txs = b_data_txs b\<rparr>"

text \<open>\<^verbatim>\<open>Block(header, txs, bodies, list(transfers), list(data_txs))\<close>: scores and sketches take their empty
  defaults.\<close>

definition rebuilt :: "wire_block \<Rightarrow> (string, weights) dict \<Rightarrow> block" where
  "rebuilt wb bodies = \<lparr>b_header = wb_header wb, b_txs = wb_txs wb, b_bodies = bodies, b_transfers = wb_transfers wb,
     b_data_txs = wb_data_txs wb, b_scores = [], b_sketches = []\<rparr>"

lemma rebuilt_simps [simp]:
  "wire_of (rebuilt wb bodies) = wb" "b_header (rebuilt wb bodies) = wb_header wb" "b_txs (rebuilt wb bodies) = wb_txs wb"
  "b_scores (rebuilt wb bodies) = []"
  by (simp_all add: wire_of_def rebuilt_def)

text \<open>\<^verbatim>\<open>_install\<close> up to the orphans it hands back to \<^verbatim>\<open>recv_block\<close>.\<close>

definition installed :: "prims \<Rightarrow> block \<Rightarrow> tree \<Rightarrow> real_core \<Rightarrow> real_core" where
  "installed P b t s =
     (let s = settle_pools P (b_transfers b) (b_data_txs b) (prune_txs P (b_txs b) (s\<lparr>co_tree := t\<rparr>))
      in s\<lparr>co_seen_block := insert (hash_of P b) (co_seen_block s),
           co_seen_xfer := co_seen_xfer s \<union> set (map (tr_txid P) (b_transfers b)),
           co_seen_dtx := co_seen_dtx s \<union> set (map (data_txid P) (b_data_txs b)),
           co_orphans := AList.delete (hash_of P b) (co_orphans s)\<rparr>)"

definition install :: "prims \<Rightarrow> block \<Rightarrow> cstate \<Rightarrow> (wire_block list \<times> cstate) res" where
  "install P b st = (let (s, out) = st in
     case add_block P b (co_tree s) of
       Inl e \<Rightarrow> (case e of
           ValidationError m \<Rightarrow>
             Inr ([], (if contains ''orphan'' m
               then let k = h_prev_hash (b_header b)
                    in s\<lparr>co_orphans := AList.update k (dict_get (co_orphans s) k [] @ [wire_of b]) (co_orphans s)\<rparr>
               else s), out)
         | _ \<Rightarrow> Inl e)
     | Inr (r, t) \<Rightarrow>
         Inr (dict_get (co_orphans s) (hash_of P b) [], installed P b t s, out @ [CBlock (wire_of b)]))"

subsection \<open>Receiving blocks\<close>

definition densify ::
  "prims \<Rightarrow> real_core \<Rightarrow> backprop_tx \<Rightarrow> (string, weights) dict \<times> bool \<Rightarrow> ((string, weights) dict \<times> bool) res" where
  "densify P s tx acc = (let (bodies, missing) = acc in
     if bp_txid P tx \<in> set (map fst (co_payloads s))
     then bindE (core_body s (bp_txid P tx)) (\<lambda>d. Inr (AList.update (bp_da_pointer tx) d bodies, missing))
     else Inr (bodies, True))"

text \<open>One call of \<^verbatim>\<open>recv_block\<close>: the orphans to receive next, and the state.\<close>

definition recv_one :: "prims \<Rightarrow> wire_block \<Rightarrow> cstate \<Rightarrow> (wire_block list \<times> cstate) res" where
  "recv_one P wb st = (let (s, out) = st; bh = block_hash P (wb_header wb) in
     if bh \<in> co_seen_block s then Inr ([], st)
     else bindE (foldE (densify P s) (wb_txs wb) ([], False)) (\<lambda>(bodies, missing).
       if missing then Inr ([], s\<lparr>co_pending := AList.update bh wb (co_pending s)\<rparr>, out @ [CGet bh])
       else install P (rebuilt wb bodies) st))"

definition unseen :: "prims \<Rightarrow> wire_block list \<Rightarrow> real_core \<Rightarrow> string set" where
  "unseen P wbs s = (\<lambda>w. block_hash P (wb_header w)) ` (set wbs \<union> \<Union> (set ` snd ` set (co_orphans s))) - co_seen_block s"

lemma finite_unseen: "finite (unseen P wbs s)"
  by (simp add: unseen_def)

text \<open>Either the block lands and its hash is seen from now on, or no new block waits.\<close>

lemma recv_one_unseen:
  assumes "recv_one P wb (s, out) = Inr (cs, s', out')"
  shows "unseen P (cs @ wbs) s' \<subset> unseen P (wb # wbs) s \<or> cs = [] \<and> unseen P wbs s' \<subseteq> unseen P (wb # wbs) s"
proof -
  let ?h = "block_hash P (wb_header wb)"
  consider (same) "cs = []" "co_orphans s' = co_orphans s" "co_seen_block s' = co_seen_block s"
    | (orphan) k where "cs = []" "co_seen_block s' = co_seen_block s"
        "co_orphans s' = AList.update k (dict_get (co_orphans s) k [] @ [wb]) (co_orphans s)"
    | (land) "?h \<notin> co_seen_block s" "cs = dict_get (co_orphans s) ?h []"
        "co_seen_block s' = insert ?h (co_seen_block s)" "co_orphans s' = AList.delete ?h (co_orphans s)"
    using assms
    by (auto simp: recv_one_def Let_def res_simps install_def installed_def settle_pools_def prune_txs_def hash_of_def
        split: if_splits sum.splits error.splits prod.splits)
  then show ?thesis
  proof cases
    case same
    then show ?thesis by (auto simp: unseen_def)
  next
    case orphan
    then show ?thesis using set_update_subset [of k _ "co_orphans s"] dict_get_subset [of "co_orphans s" k]
      by (fastforce simp: unseen_def)
  next
    case land
    have "set (AList.delete ?h (co_orphans s)) \<subseteq> set (co_orphans s)" by (auto simp: AList.delete_eq)
    then have "unseen P (cs @ wbs) s' \<subseteq> unseen P (wb # wbs) s - {?h}"
      using dict_get_subset [of "co_orphans s" ?h] land by (fastforce simp: unseen_def)
    then show ?thesis using land(1) by (auto simp: unseen_def)
  qed
qed

function recv_blocks :: "prims \<Rightarrow> wire_block list \<Rightarrow> cstate \<Rightarrow> cstate res" where
  "recv_blocks P [] st = Inr st"
| "recv_blocks P (wb # wbs) st = bindE (recv_one P wb st) (\<lambda>(cs, st). recv_blocks P (cs @ wbs) st)"
  by pat_completeness auto
termination
proof (relation "measures [\<lambda>(P, wbs, st). card (unseen P wbs (fst st)), \<lambda>(P, wbs, st). length wbs]", goal_cases)
  case (2 P wb wbs st r cs st')
  then have "recv_one P wb (fst st, snd st) = Inr (cs, fst st', snd st')" by simp
  from recv_one_unseen [OF this, of wbs]
  have "card (unseen P (cs @ wbs) (fst st')) < card (unseen P (wb # wbs) (fst st)) \<or>
      cs = [] \<and> card (unseen P wbs (fst st')) \<le> card (unseen P (wb # wbs) (fst st))"
    using psubset_card_mono [OF finite_unseen] card_mono [OF finite_unseen] by blast
  then show ?case by (auto simp: less_le)
qed simp

definition recv_wire_block :: "prims \<Rightarrow> wire_block \<Rightarrow> cstate \<Rightarrow> cstate res" where
  "recv_wire_block P wb st = recv_blocks P [wb] st"

definition retry_one :: "prims \<Rightarrow> string \<times> wire_block \<Rightarrow> cstate \<Rightarrow> cstate res" where
  "retry_one P e st = (let (bh, wb) = e; (s, out) = st in
     if \<forall>tx\<in>set (wb_txs wb). bp_txid P tx \<in> set (map fst (co_payloads s))
     then bindE (dict_at (co_pending s) bh) (\<lambda>_.
          recv_wire_block P wb (s\<lparr>co_pending := AList.delete bh (co_pending s)\<rparr>, out))
     else Inr st)"

definition retry_pending :: "prims \<Rightarrow> cstate \<Rightarrow> cstate res" where
  "retry_pending P st = foldE (retry_one P) (co_pending (fst st)) st"

definition core_recv_tx :: "prims \<Rightarrow> backprop_tx \<Rightarrow> payload \<Rightarrow> cstate \<Rightarrow> cstate res" where
  "core_recv_tx P tx pl st =
     (if bp_txid P tx \<in> co_seen_tx (fst st) \<or> \<not> bp_verify P tx then Inr st
      else bindE (decompress pl) (\<lambda>dense.
        if delta_hash P (tobytes dense) \<noteq> bp_delta_hash tx then Inr st
        else retry_pending P (core_admit P tx pl st)))"

definition serve_block :: "prims \<Rightarrow> string \<Rightarrow> cstate \<Rightarrow> cstate" where
  "serve_block P bh st = (let (s, out) = st in
     case map_of (bt_blocks (co_tree s)) bh of
       None \<Rightarrow> st
     | Some b \<Rightarrow>
         if \<forall>tx\<in>set (b_txs b). bp_txid P tx \<in> set (map fst (co_payloads s))
         then (s, out @ [CFull (wire_of b)
                 (dict_of (map (\<lambda>tx. (bp_txid P tx, the (map_of (co_payloads s) (bp_txid P tx)))) (b_txs b)))])
         else st)"

text \<open>The loop of \<^verbatim>\<open>recv_fullblock\<close>; \<open>None\<close> as bodies is the early return, which keeps the payloads stored so far.\<close>

fun full_bodies ::
  "prims \<Rightarrow> (string, payload) dict \<Rightarrow> backprop_tx list \<Rightarrow> (string, weights) dict \<Rightarrow> real_core \<Rightarrow> ((string, weights) dict option \<times> real_core) res" where
  "full_bodies P pls [] bodies s = Inr (Some bodies, s)"
| "full_bodies P pls (tx # txs) bodies s =
     bindE (dict_at pls (bp_txid P tx)) (\<lambda>pl.
     bindE (decompress pl) (\<lambda>dense.
     if delta_hash P (tobytes dense) \<noteq> bp_delta_hash tx then Inr (None, s)
     else full_bodies P pls txs (AList.update (bp_da_pointer tx) dense bodies)
            (s\<lparr>co_payloads := AList.update (bp_txid P tx) pl (co_payloads s)\<rparr>)))"

definition recv_fullblock :: "prims \<Rightarrow> wire_block \<Rightarrow> (string, payload) dict \<Rightarrow> cstate \<Rightarrow> cstate res" where
  "recv_fullblock P wb pls st = (let (s, out) = st in
     if block_hash P (wb_header wb) \<in> co_seen_block s then Inr st
     else bindE (full_bodies P pls (wb_txs wb) [] s) (\<lambda>(bodies, s).
       case bodies of
         None \<Rightarrow> Inr (s, out)
       | Some bodies \<Rightarrow> bindE (install P (rebuilt wb bodies) (s, out)) (\<lambda>(cs, st). recv_blocks P cs st)))"

definition rebroadcast :: "prims \<Rightarrow> cstate \<Rightarrow> cstate res option" where
  "rebroadcast P st =
     Option.bind (chain_from_genesis P (co_tree (fst st)) None) (\<lambda>r. Some (bindE r (\<lambda>bs.
       Inr (fold (\<lambda>b st. let (s, out) = st in
              if \<forall>tx\<in>set (b_txs b). bp_txid P tx \<in> set (map fst (co_payloads s))
              then (s, out @ [CFull (wire_of b)
                      (dict_of (map (\<lambda>tx. (bp_txid P tx, the (map_of (co_payloads s) (bp_txid P tx)))) (b_txs b)))])
              else st) bs st))))"

definition core_handle :: "prims \<Rightarrow> cmsg \<Rightarrow> cstate \<Rightarrow> cstate res" where
  "core_handle P m st = (case m of
      CTx tx pl \<Rightarrow> core_recv_tx P tx pl st
    | CXfer tx \<Rightarrow> Inr (recv_transfer P tx st)
    | CDtx tx \<Rightarrow> Inr (recv_data_tx P tx st)
    | CBlock wb \<Rightarrow> recv_wire_block P wb st
    | CFull wb pls \<Rightarrow> recv_fullblock P wb pls st
    | CGet bh \<Rightarrow> Inr (serve_block P bh st))"

text \<open>The rule that keeps one of two simultaneous connections: the one whose dialer has the smaller id.\<close>

definition keep_connection :: "nat \<Rightarrow> nat \<Rightarrow> bool \<Rightarrow> nat set \<Rightarrow> bool" where
  "keep_connection node_id pid dialer peer_ids \<longleftrightarrow>
     (if dialer then node_id < pid else pid < node_id) \<and> pid \<notin> peer_ids"

subsection \<open>Proposing\<close>

fun choose_txs :: "backprop_tx list \<Rightarrow> string set \<Rightarrow> backprop_tx list \<Rightarrow> backprop_tx list" where
  "choose_txs [] seen_miners chosen = chosen"
| "choose_txs (tx # cands) seen_miners chosen =
     (if bp_miner tx \<in> seen_miners then choose_txs cands seen_miners chosen
      else if INCLUDE_K \<le> length (chosen @ [tx]) then chosen @ [tx]
      else choose_txs cands (insert (bp_miner tx) seen_miners) (chosen @ [tx]))"

definition dry_credits :: "ledger \<Rightarrow> backprop_tx list \<Rightarrow> (string, int) dict" where
  "dry_credits led txs =
     (let hash_weight = dict_of (map (\<lambda>(k, e). (ent_data_hash e, ent_weight e))
            (filter (\<lambda>(k, e). active e \<and> 0 < ent_weight e) (registry led)))
      in fold (\<lambda>tx. fold (\<lambda>r credits. case map_of hash_weight r of
              None \<Rightarrow> credits
            | Some w \<Rightarrow> AList.update r (dict_get credits r 0 + w) credits) (canonical_refs tx)) txs [])"

text \<open>The dry run of one pool transaction on the scratch ledger.\<close>

definition dry_run ::
  "prims \<Rightarrow> int \<Rightarrow> string set \<Rightarrow> account_tx \<Rightarrow> ledger \<times> transfer_tx list \<times> data_tx list \<Rightarrow>
   (ledger \<times> transfer_tx list \<times> data_tx list) res" where
  "dry_run P h jurors tx acc = (let (led, xs, ds) = acc in
     case tx of
       Transfer t \<Rightarrow>
         if tr_verify P t
         then bindE (apply_transfer P t led) (\<lambda>(ok, led). Inr (led, if ok then xs @ [t] else xs, ds))
         else Inr acc
     | DataTx t \<Rightarrow> bindE (apply_data_tx P t h jurors led) (\<lambda>(ok, led). Inr (led, xs, if ok then ds @ [t] else ds)))"

definition pool_txs :: "prims \<Rightarrow> string option \<Rightarrow> int \<Rightarrow> backprop_tx list \<Rightarrow> real_core \<Rightarrow> (transfer_tx list \<times> data_tx list) res" where
  "pool_txs P dc hh accepted s =
     (let t = co_tree s in
      bindE (head_ledger t) (\<lambda>led.
      bindE (resolve_expired_challenges (hh + 1) led) (\<lambda>led.
      bindE (apply_reward P (hh + 1) (map bp_miner accepted) (pub (co_key s)) (truthy dc)
               (dry_credits led accepted) [] led) (\<lambda>led.
      bindE (canonical_account_txs P (map snd (co_data_pool s)) (map snd (co_transfer_pool s))) (\<lambda>txs.
      bindE (foldE (dry_run P (hh + 1) (recent_proposers P t (bt_head t))) txs (led, [], [])) (\<lambda>(led, xs, ds).
      Inr (xs, ds)))))))"

text \<open>The block goes through the own tree; what it includes leaves the pools.\<close>

definition offer_block :: "prims \<Rightarrow> block \<Rightarrow> transfer_tx list \<Rightarrow> data_tx list \<Rightarrow> cstate \<Rightarrow> cstate res" where
  "offer_block P b xs ds st = (let (s, out) = st in
     case add_block P b (co_tree s) of
       Inl e \<Rightarrow> (case e of ValidationError m \<Rightarrow> Inr st | _ \<Rightarrow> Inl e)
     | Inr (became_head, t) \<Rightarrow>
         let s = settle_pools P xs ds (s\<lparr>co_tree := t\<rparr>)
         in Inr (if became_head
                 then (prune_txs P (b_txs b) (s\<lparr>co_seen_block := insert (hash_of P b) (co_seen_block s)\<rparr>),
                       out @ [CBlock (wire_of b)])
                 else (s, out)))"

definition core_propose :: "prims \<Rightarrow> string option \<Rightarrow> cstate \<Rightarrow> cstate res" where
  "core_propose P dc st = (let s = fst st; t = co_tree s in
     bindE (head_height t) (\<lambda>hh.
     let cands = filter (\<lambda>tx. bp_base_height tx = hh) (map snd (co_mempool s))
     in if cands = [] then Inr st
        else
          let chosen = choose_txs (sort_key (bp_txid P) cands) {} []
          in bindE (mapE (\<lambda>tx. bindE (core_body s (bp_txid P tx)) (\<lambda>d. Inr (bp_da_pointer tx, d))) chosen) (\<lambda>bodies.
             bindE (pool_txs P dc hh chosen s) (\<lambda>(xs, ds).
             bindE (build_block P t (bt_head t) \<lparr>pr_accepted = chosen, pr_bodies = dict_of bodies, pr_key = co_key s,
                      pr_transfers = xs, pr_data_txs = ds, pr_scores = [], pr_sketches = [], pr_attempt = 0\<rparr>) (\<lambda>b.
             offer_block P b xs ds st)))))"

end
