(* ===== verification/Gossip_Props.thy ===== *)
theory Gossip_Props
  imports Gossip_Sim
begin

section \<open>What the gossip network keeps\<close>

text \<open>
  The invariant of a node (its tree is reachable, its mempool holds verified transactions under
  their ids, the blocks it has seen are the blocks of its tree), the preorder of its steps (knowledge grows, what is learnt is
  forwarded), and from them: nodes that have seen the same blocks have the same head, and a
  transaction floods a fully connected network in two steps.
\<close>

subsection \<open>Attaching blocks\<close>

lemma add_block_keys:
  assumes inv: "tree_inv P t" and add: "add_block P b t = Inr (r, t')"
  shows "dom (map_of (bt_blocks t')) = insert (hash_of P b) (dom (map_of (bt_blocks t)))"
    and "bt_genesis t' = bt_genesis t"
proof -
  have "dom (core_of t') = insert (hash_of P b) (dom (core_of t)) \<and> bt_genesis t' = bt_genesis t"
  proof (cases "hash_of P b \<in> dom (map_of (bt_blocks t))")
    case True
    with add_block_known [OF add] show ?thesis by (auto simp: dom_core_of)
  next
    case False
    obtain w led m where at: "attach P b w led m t = Inr (r, t')" by (rule add_block_new [OF add False])
    show ?thesis by (rule attach_effect [OF at]) simp
  qed
  then show "dom (map_of (bt_blocks t')) = insert (hash_of P b) (dom (map_of (bt_blocks t)))"
    and "bt_genesis t' = bt_genesis t" by (simp_all add: dom_core_of)
qed

text \<open>A new block on top of the head becomes the head.\<close>

lemma add_block_on_head:
  assumes inv: "tree_inv P t" and add: "add_block P b t = Inr (r, t')"
    and new: "hash_of P b \<notin> dom (map_of (bt_blocks t))" and prev: "h_prev_hash (b_header b) = bt_head t"
  shows "r"
proof -
  obtain w led m where at: "attach P b w led m t = Inr (r, t')" by (rule add_block_new [OF add new])
  obtain cw chead where cw: "map_of (bt_cum_work t) (bt_head t) = Some cw"
    and ch: "((map_of (bt_cum_work t))(hash_of P b \<mapsto> cw + max 1 (h_work (b_header b)))) (bt_head t) = Some chead"
    and r: "r \<longleftrightarrow> heavier t (hash_of P b) (cw + max 1 (h_work (b_header b))) chead"
    by (rule attach_effect [OF at]) (simp add: prev)
  have "bt_head t \<in> dom (core_of t)" using cw tree_inv_fields(1) [OF inv] by blast
  then have "bt_head t \<noteq> hash_of P b" using new by (metis dom_core_of)
  then have "chead = cw" using ch cw by simp
  moreover have "0 < max 1 (h_work (b_header b))" by simp
  ultimately show ?thesis using r by (simp add: heavier_def)
qed

subsection \<open>The invariant of a node\<close>

definition valid_tx :: "prims \<Rightarrow> string \<Rightarrow> backprop_tx \<times> weights \<Rightarrow> bool" where
  "valid_tx P k e \<longleftrightarrow> bp_txid P (fst e) = k \<and> bp_verify P (fst e) \<and> delta_hash P (tobytes (snd e)) = bp_delta_hash (fst e)"

definition node_ok :: "prims \<Rightarrow> weights \<Rightarrow> string \<Rightarrow> gnode \<Rightarrow> bool" where
  "node_ok P w0 founder s \<longleftrightarrow> tree_reach P w0 None (Some founder) None (gn_tree s)
     \<and> dom (map_of (bt_blocks (gn_tree s))) = insert (genesis_hash P (gn_tree s)) (gn_seen_block s)
     \<and> (\<forall>k e. map_of (gn_mempool s) k = Some e \<longrightarrow> k \<in> gn_seen_tx s \<and> valid_tx P k e)
     \<and> key_pk (gn_key s) = ed_pub P (key_sk (gn_key s))"

text \<open>A step keeps identity and peers, forgets nothing it has seen, and forwards what it learns.\<close>

definition st_le :: "prims \<Rightarrow> gstate \<Rightarrow> gstate \<Rightarrow> bool" where
  "st_le P st st' \<longleftrightarrow> gn_id (fst st') = gn_id (fst st) \<and> gn_key (fst st') = gn_key (fst st)
     \<and> gn_peers (fst st') = gn_peers (fst st)
     \<and> gn_seen_tx (fst st) \<subseteq> gn_seen_tx (fst st') \<and> gn_seen_block (fst st) \<subseteq> gn_seen_block (fst st')
     \<and> set (snd st) \<subseteq> set (snd st')
     \<and> (\<forall>k\<in>gn_seen_tx (fst st') - gn_seen_tx (fst st). \<exists>e. TxMsg (fst e) (snd e) \<in> set (snd st') \<and> valid_tx P k e)
     \<and> (\<forall>k\<in>gn_seen_block (fst st') - gn_seen_block (fst st). \<exists>b. BlockMsg b \<in> set (snd st') \<and> hash_of P b = k)"

lemma st_le_refl: "st_le P st st"
  by (simp add: st_le_def)

lemma st_le_trans:
  assumes ab: "st_le P a b" and bc: "st_le P b c"
  shows "st_le P a c"
proof -
  have "\<exists>e. TxMsg (fst e) (snd e) \<in> set (snd c) \<and> valid_tx P k e"
    if "k \<in> gn_seen_tx (fst c) - gn_seen_tx (fst a)" for k
    using that ab bc unfolding st_le_def by (cases "k \<in> gn_seen_tx (fst b)") blast+
  moreover have "\<exists>x. BlockMsg x \<in> set (snd c) \<and> hash_of P x = k"
    if "k \<in> gn_seen_block (fst c) - gn_seen_block (fst a)" for k
    using that ab bc unfolding st_le_def by (cases "k \<in> gn_seen_block (fst b)") blast+
  ultimately show ?thesis using ab bc unfolding st_le_def by auto
qed

definition ok_step :: "prims \<Rightarrow> weights \<Rightarrow> string \<Rightarrow> gstate \<Rightarrow> gstate \<Rightarrow> bool" where
  "ok_step P w0 founder st st' \<longleftrightarrow> node_ok P w0 founder (fst st') \<and> st_le P st st'"

lemma ok_step_trans: "ok_step P w0 f a b \<Longrightarrow> ok_step P w0 f b c \<Longrightarrow> ok_step P w0 f a c"
  unfolding ok_step_def using st_le_trans by blast

lemma admit_tx_ok:
  assumes "node_ok P w0 f (fst st)" and "valid_tx P (bp_txid P tx) (tx, body)"
  shows "ok_step P w0 f st (admit_tx P tx body st)"
  using assms by (cases st) (auto simp: ok_step_def node_ok_def st_le_def admit_tx_def Let_def update_conv'
      split: if_splits intro: exI [of _ "(tx, body)"])

lemma recv_tx_ok: "node_ok P w0 f (fst st) \<Longrightarrow> ok_step P w0 f st (recv_tx P tx body st)"
  using admit_tx_ok [of P w0 f st tx body] by (auto simp: recv_tx_def valid_tx_def ok_step_def st_le_refl)

lemma recv_tx_seen: "valid_tx P k (tx, body) \<Longrightarrow> k \<in> gn_seen_tx (fst (recv_tx P tx body st))"
  by (cases st) (auto simp: recv_tx_def valid_tx_def admit_tx_def Let_def)

lemma submit_own_tx_ok:
  assumes "sig_correct P" and ok: "node_ok P w0 f (fst st)" and "submit_own_tx P train st = Inr st'"
  shows "ok_step P w0 f st st'"
proof -
  from assms(3) obtain tx body where mk: "make_tx P train (fst st) = Inr (tx, body)"
    and st': "st' = (if bp_txid P tx \<in> gn_seen_tx (fst st) then st else admit_tx P tx body st)"
    by (auto simp: submit_own_tx_def res_simps)
  from mk obtain u where u: "bp_signed P u (gn_key (fst st)) = Inr tx" and d: "bp_delta_hash u = delta_hash P (tobytes body)"
    by (force simp: make_tx_def res_simps Let_def)
  have "bp_verify P tx" using bp_signed_verify [OF assms(1) _ u] ok by (simp add: node_ok_def)
  moreover have "bp_delta_hash tx = bp_delta_hash u" using u by (auto simp: bp_signed_def split: if_splits)
  ultimately have "valid_tx P (bp_txid P tx) (tx, body)" using d by (simp add: valid_tx_def)
  from admit_tx_ok [OF ok this] show ?thesis using st' ok by (simp add: ok_step_def st_le_refl)
qed

lemma map_of_delete_Some: "map_of (fold (\<lambda>x. AList.delete (g x)) xs d) k = Some v \<Longrightarrow> map_of d k = Some v"
proof (induction xs arbitrary: d)
  case (Cons x xs)
  then have "map_of (AList.delete (g x) d) k = Some v" by simp
  then show ?case by (simp add: delete_conv' split: if_splits)
qed simp

lemma landed_ok:
  assumes ok: "node_ok P w0 f s" and add: "add_block P b (gn_tree s) = Inr (r, t)"
  shows "ok_step P w0 f (s, out) (landed P b t (s, out))"
proof -
  have reach: "tree_reach P w0 None (Some f) None (gn_tree s)" using ok by (simp add: node_ok_def)
  have "tree_reach P w0 None (Some f) None t" by (rule reach_add [OF reach add])
  moreover have "dom (map_of (bt_blocks t)) = insert (genesis_hash P t) (insert (hash_of P b) (gn_seen_block s))"
    using add_block_keys [OF _ add] tree_reach_inv [OF reach] ok by (auto simp: node_ok_def)
  ultimately show ?thesis
    using ok unfolding ok_step_def node_ok_def st_le_def landed_def prune_mempool_def Let_def
    by (auto dest: map_of_delete_Some)
qed

lemma ok_orphans: "ok_step P w0 f st (s, out) \<Longrightarrow> ok_step P w0 f st (s\<lparr>gn_orphans := orphs\<rparr>, out)"
  by (auto simp: ok_step_def node_ok_def st_le_def)

lemma recv_stack_ok:
  "node_ok P w0 f (fst st) \<Longrightarrow> recv_stack P bs st = Inr st' \<Longrightarrow> ok_step P w0 f st st'"
proof (induction P bs st rule: recv_stack.induct)
  case (1 P st)
  then show ?case by (simp add: ok_step_def st_le_refl)
next
  case (2 P b bs s out)
  show ?case
  proof (cases "hash_of P b \<in> gn_seen_block s")
    case True
    then show ?thesis using 2(1) [OF True] 2(4,5) by simp
  next
    case new: False
    show ?thesis
    proof (cases "add_block P b (gn_tree s)")
      case (Inl e)
      with 2(5) new obtain m where m: "e = ValidationError m"
        and r: "recv_stack P bs (if contains ''orphan'' m then buffer_orphan b s else s, out) = Inr st'"
        by (auto split: error.splits)
      let ?s = "if contains ''orphan'' m then buffer_orphan b s else s"
      have buf: "ok_step P w0 f (s, out) (?s, out)"
        using 2(4) by (simp add: ok_step_def node_ok_def st_le_def buffer_orphan_def Let_def)
      then have "ok_step P w0 f (?s, out) st'" using 2(2) [OF new Inl m _ r] by (simp add: ok_step_def)
      with buf show ?thesis by (rule ok_step_trans)
    next
      case (Inr rt)
      obtain r t where rt: "rt = (r, t)" by (cases rt)
      obtain s' out' where l: "landed P b t (s, out) = (s', out')" by (cases "landed P b t (s, out)")
      let ?s = "s'\<lparr>gn_orphans := AList.delete (hash_of P b) (gn_orphans s)\<rparr>"
      let ?c = "dict_get (gn_orphans s) (hash_of P b) []"
      have rec: "recv_stack P (?c @ bs) (?s, out') = Inr st'" using 2(5) new Inr rt l by simp
      have "ok_step P w0 f (s, out) (?s, out')"
        using landed_ok [of P w0 f s b r t out] 2(4) Inr rt l by (simp add: ok_orphans)
      moreover from this have "ok_step P w0 f (?s, out') st'"
        using 2(3) [OF new Inr rt [symmetric] refl l [symmetric] refl _ rec] by (simp add: ok_step_def)
      ultimately show ?thesis by (rule ok_step_trans)
    qed
  qed
qed

lemma build_block_prev: "build_block P t k pr = Inr b \<Longrightarrow> h_prev_hash (b_header b) = k"
  by (auto simp: build_block_def Let_def res_simps split: prod.splits)

lemma propose_ok:
  assumes ok: "node_ok P w0 f (fst st)" and "propose P score st = Inr (r, st')"
  shows "ok_step P w0 f st st'"
proof -
  let ?s = "fst st"
  let ?t = "gn_tree ?s"
  have stp: "st = (?s, snd st)" by simp
  consider "st' = st"
    | b h t' where "h_prev_hash (b_header b) = bt_head ?t" "add_block P b ?t = Inr (h, t')"
        "st' = (if h then landed P b t' st else (?s\<lparr>gn_tree := t'\<rparr>, snd st))"
    using assms(2) by (auto simp: propose_def Let_def res_simps dest!: build_block_prev split: if_splits)
  then show ?thesis
  proof cases
    case 1
    then show ?thesis using ok by (simp add: ok_step_def st_le_refl)
  next
    case (2 b h t')
    show ?thesis
    proof (cases h)
      case True
      then show ?thesis using landed_ok [OF ok 2(2), of "snd st"] 2(3) by simp
    next
      case False
      have inv: "tree_inv P ?t" using ok tree_reach_inv by (auto simp: node_ok_def)
      have "hash_of P b \<in> dom (map_of (bt_blocks ?t))"
        using add_block_on_head [OF inv 2(2) _ 2(1)] False by blast
      then have "t' = ?t" using add_block_known [OF 2(2)] by simp
      then have "st' = st" using 2(3) False by (cases st) simp
      then show ?thesis using ok by (simp add: ok_step_def st_le_refl)
    qed
  qed
qed

lemma deliver_msg_ok: "node_ok P w0 f (fst st) \<Longrightarrow> deliver_msg P m st = Inr st' \<Longrightarrow> ok_step P w0 f st st'"
  using recv_tx_ok [of P w0 f st] recv_stack_ok [of P w0 f st]
  by (cases m) (auto simp: deliver_msg_def recv_block_def)

lemma deliver_all_ok:
  "node_ok P w0 f (fst st) \<Longrightarrow> foldE (deliver_msg P) ms st = Inr st' \<Longrightarrow> ok_step P w0 f st st'"
proof (induction ms arbitrary: st)
  case Nil
  then show ?case by (simp add: ok_step_def st_le_refl)
next
  case (Cons m ms)
  then obtain st1 where m: "deliver_msg P m st = Inr st1" and r: "foldE (deliver_msg P) ms st1 = Inr st'"
    by (auto simp: res_simps)
  have 1: "ok_step P w0 f st st1" by (rule deliver_msg_ok [OF Cons(2) m])
  then have "node_ok P w0 f (fst st1)" by (simp add: ok_step_def)
  from Cons(1) [OF this r] 1 show ?case using ok_step_trans by blast
qed

lemma deliver_all_seen:
  assumes ok: "node_ok P w0 f (fst st)" and "foldE (deliver_msg P) ms st = Inr st'"
    and "TxMsg (fst e) (snd e) \<in> set ms" and v: "valid_tx P k e"
  shows "k \<in> gn_seen_tx (fst st')"
proof -
  obtain as bs where ms: "ms = as @ TxMsg (fst e) (snd e) # bs" using assms(3) by (auto dest: split_list)
  from assms(2) obtain st1 where a: "foldE (deliver_msg P) as st = Inr st1"
    and b: "foldE (deliver_msg P) bs (recv_tx P (fst e) (snd e) st1) = Inr st'"
    by (auto simp: ms foldE_append res_simps deliver_msg_def)
  have "node_ok P w0 f (fst st1)" using deliver_all_ok [OF ok a] by (simp add: ok_step_def)
  then have "node_ok P w0 f (fst (recv_tx P (fst e) (snd e) st1))" using recv_tx_ok by (simp add: ok_step_def)
  from deliver_all_ok [OF this b] show ?thesis
    using recv_tx_seen [of P k "fst e" "snd e" st1] v by (auto simp: ok_step_def st_le_def)
qed

subsection \<open>The network\<close>

text \<open>States of all nodes move pointwise.\<close>

definition ok_steps :: "prims \<Rightarrow> weights \<Rightarrow> string \<Rightarrow> gstate list \<Rightarrow> gstate list \<Rightarrow> bool" where
  "ok_steps P w0 f = list_all2 (\<lambda>a b. node_ok P w0 f (fst a) \<longrightarrow> ok_step P w0 f a b)"

lemma ok_steps_trans: "ok_steps P w0 f a b \<Longrightarrow> ok_steps P w0 f b c \<Longrightarrow> ok_steps P w0 f a c"
  unfolding ok_steps_def list_all2_conv_all_nth by (metis ok_step_def ok_step_trans)

lemma ok_steps_refl: "ok_steps P w0 f a a"
  by (simp add: ok_steps_def list_all2_same ok_step_def st_le_refl)

lemma mapE_ok: "mapE g sts = Inr sts' \<Longrightarrow>
    (\<And>a b. node_ok P w0 f (fst a) \<Longrightarrow> g a = Inr b \<Longrightarrow> ok_step P w0 f a b) \<Longrightarrow> ok_steps P w0 f sts sts'"
  by (auto simp: mapE_eq_Inr ok_steps_def elim!: list_all2_mono)

lemma propose_all_ok: "foldE (propose_at P score) ps sts = Inr sts' \<Longrightarrow> ok_steps P w0 f sts sts'"
proof (induction ps arbitrary: sts)
  case Nil
  then show ?case by (simp add: ok_steps_refl)
next
  case (Cons i ps)
  then obtain sts1 where i: "propose_at P score i sts = Inr sts1" and r: "foldE (propose_at P score) ps sts1 = Inr sts'"
    by (auto simp: res_simps)
  then obtain b st where p: "propose P score (sts ! nat i) = Inr (b, st)" and sts1: "sts1 = sts[nat i := st]"
    and n: "nat i < length sts"
    by (auto simp: propose_at_def res_simps split: if_splits)
  have "ok_step P w0 f (sts ! j) (sts1 ! j)" if "node_ok P w0 f (fst (sts ! j))" for j
    using that propose_ok [OF _ p] n by (cases "j = nat i") (auto simp: sts1 ok_step_def st_le_refl)
  then have "ok_steps P w0 f sts sts1" by (simp add: ok_steps_def list_all2_conv_all_nth sts1)
  then show ?case using Cons(1) [OF r] ok_steps_trans by blast
qed

lemma rebroadcast_all_ok: "rebroadcast_all P sts = Some (Inr sts') \<Longrightarrow> ok_steps P w0 f sts sts'"
proof (induction sts arbitrary: sts')
  case (Cons st sts)
  from Cons(2) obtain r where r: "rebroadcast_chain P st = Some r" by (auto simp: bind_eq_Some_conv)
  with Cons(2) obtain st' where st': "rebroadcast_chain P st = Some (Inr st')" by (cases r) auto
  with Cons(2) obtain ss where ss: "rebroadcast_all P sts = Some (Inr ss)" "sts' = st' # ss"
    by (auto simp: res_simps)
  have "node_ok P w0 f (fst st) \<longrightarrow> ok_step P w0 f st st'"
    using st' by (auto simp: rebroadcast_chain_def bind_eq_Some_conv res_simps ok_step_def st_le_def)
  then show ?case using Cons(1) [OF ss(1)] ss(2) by (simp add: ok_steps_def)
qed (simp add: ok_steps_refl)

text \<open>One step of the network: what every node holds afterwards, and what travels next.\<close>

definition net_ok :: "prims \<Rightarrow> weights \<Rightarrow> string \<Rightarrow> network \<Rightarrow> bool" where
  "net_ok P w0 f net \<longleftrightarrow> (\<forall>s\<in>set (net_nodes net). node_ok P w0 f s)
     \<and> length (net_inflight net) = length (net_nodes net)"

lemma deliver_ok:
  assumes ok: "net_ok P w0 f net" and "deliver P net = Inr sts"
  shows "ok_steps P w0 f (map (\<lambda>s. (s, [])) (net_nodes net)) sts"
    and "\<And>i e k. i < length (net_nodes net) \<Longrightarrow> TxMsg (fst e) (snd e) \<in> set (net_inflight net ! i) \<Longrightarrow>
      valid_tx P k e \<Longrightarrow> k \<in> gn_seen_tx (fst (sts ! i))"
proof -
  let ?n = "length (net_nodes net)"
  have len: "length sts = ?n" "length (net_inflight net) = ?n"
    using assms by (auto simp: net_ok_def deliver_def mapE_eq_Inr dest: list_all2_lengthD)
  have each: "foldE (deliver_msg P) (net_inflight net ! i) (net_nodes net ! i, []) = Inr (sts ! i)" if "i < ?n" for i
    using assms that len by (auto simp: deliver_def mapE_eq_Inr list_all2_conv_all_nth)
  have node: "node_ok P w0 f (net_nodes net ! i)" if "i < ?n" for i using ok that by (simp add: net_ok_def)
  show "ok_steps P w0 f (map (\<lambda>s. (s, [])) (net_nodes net)) sts"
    unfolding ok_steps_def list_all2_conv_all_nth using len deliver_all_ok [OF _ each] node by simp
  show "k \<in> gn_seen_tx (fst (sts ! i))" if "i < ?n" "TxMsg (fst e) (snd e) \<in> set (net_inflight net ! i)" "valid_tx P k e" for i e k
    by (rule deliver_all_seen [of P w0 f, OF _ each [OF that(1)] that(2,3)]) (simp add: node that(1))
qed

lemma fold_keeps: "I s \<Longrightarrow> (\<And>x s. x \<in> set xs \<Longrightarrow> I s \<Longrightarrow> I (f x s)) \<Longrightarrow> I (fold f xs s)"
  by (induction xs arbitrary: s) auto

lemma fold_hits:
  assumes "x \<in> set xs" and "I s" and I: "\<And>y s. y \<in> set xs \<Longrightarrow> I s \<Longrightarrow> I (f y s)"
    and "\<And>s. I s \<Longrightarrow> Q (f x s)" and Q: "\<And>y s. y \<in> set xs \<Longrightarrow> I s \<Longrightarrow> Q s \<Longrightarrow> Q (f y s)"
  shows "Q (fold f xs s)"
proof -
  obtain as bs where xs: "xs = as @ x # bs" using assms(1) by (auto dest: split_list)
  have "I (fold f as s)" by (rule fold_keeps [where I = I]) (use assms(2) I in \<open>auto simp: xs\<close>)
  then have "I (f x (fold f as s)) \<and> Q (f x (fold f as s))" using assms(4) I by (simp add: xs)
  then have "I (fold f bs (f x (fold f as s))) \<and> Q (fold f bs (f x (fold f as s)))"
    by (rule fold_keeps [where I = "\<lambda>s. I s \<and> Q s"]) (simp add: I Q xs)
  then show ?thesis by (simp add: xs)
qed

text \<open>What a node sends reaches the inbox of each peer it can talk to.\<close>

lemma route_reaches:
  assumes i: "i < length sts" and m: "m \<in> set (snd (sts ! i))" and p: "p \<in> set (gn_peers (fst (sts ! i)))"
    and talk: "can_talk part i p" and pn: "p < length sts"
  shows "m \<in> set (route part sts ! p)"
proof -
  let ?I = "\<lambda>nxt :: gmsg list list. length nxt = length sts" and ?Q = "\<lambda>nxt. m \<in> set (nxt ! p)"
  have I1: "?I (post_msg part j x q nxt)" if "?I nxt" for j x q nxt using that by (simp add: post_msg_def)
  have Q1: "?Q (post_msg part j x q nxt)" if "?I nxt" "?Q nxt" for j x q nxt
    using that pn by (cases "q = p") (auto simp: post_msg_def)
  have I2: "?I (fold (post_msg part j x) qs nxt)" if "?I nxt" for j x qs nxt
    by (rule fold_keeps [where I = ?I, OF that I1])
  have Q2: "?I (fold (post_msg part j x) qs nxt) \<and> ?Q (fold (post_msg part j x) qs nxt)" if "?I nxt" "?Q nxt" for j x qs nxt
    by (rule fold_keeps [where I = "\<lambda>nxt. ?I nxt \<and> ?Q nxt"]) (use that I1 Q1 in auto)
  have I3: "?I (fold (\<lambda>x. fold (post_msg part j x) qs) out nxt)" if "?I nxt" for j qs out nxt
    by (rule fold_keeps [where I = ?I, OF that I2])
  have Q3: "?I (fold (\<lambda>x. fold (post_msg part j x) qs) out nxt) \<and> ?Q (fold (\<lambda>x. fold (post_msg part j x) qs) out nxt)"
    if "?I nxt" "?Q nxt" for j qs out nxt
    by (rule fold_keeps [where I = "\<lambda>nxt. ?I nxt \<and> ?Q nxt"]) (use that I2 Q2 in auto)
  have hit1: "?Q (fold (post_msg part i m) (gn_peers (fst (sts ! i))) nxt)" if "?I nxt" for nxt
    by (rule fold_hits [where I = ?I and Q = ?Q, OF p that I1]) (use Q1 talk pn in \<open>auto simp: post_msg_def\<close>)
  have hit2: "?Q (fold (\<lambda>x. fold (post_msg part i x) (gn_peers (fst (sts ! i)))) (snd (sts ! i)) nxt)" if "?I nxt" for nxt
    by (rule fold_hits [where I = ?I and Q = ?Q, OF m that]) (use I2 hit1 Q2 in auto)
  have mem: "(i, sts ! i) \<in> set (enumerate 0 sts)" using i by (simp add: in_set_enumerate_eq)
  show ?thesis unfolding route_def
    by (rule fold_hits [where I = ?I and Q = ?Q, OF mem]) (use I3 Q3 hit2 in \<open>auto simp: split_def\<close>)
qed

lemma length_route: "length (route part sts) = length sts"
  unfolding route_def
  by (rule fold_keeps [where I = "\<lambda>nxt. length nxt = length sts"])
     (auto simp: split_def post_msg_def intro!: fold_keeps [where I = "\<lambda>nxt. length nxt = length sts"])

lemma net_step_ok:
  assumes ok: "net_ok P w0 f net" and sc: "sig_correct P"
    and step: "net_step P train score proposers sync produce net = Some (Inr net')"
  obtains sts sts0 where "deliver P net = Inr sts0"
    and "ok_steps P w0 f (map (\<lambda>s. (s, [])) (net_nodes net)) sts0" and "ok_steps P w0 f sts0 sts"
    and "net_nodes net' = map fst sts" and "net_inflight net' = route (net_partition net) sts"
    and "net_partition net' = net_partition net" and "net_ok P w0 f net'"
proof -
  obtain sts0 where d: "deliver P net = Inr sts0" using step by (auto simp: net_step_def split: sum.splits)
  have s0: "ok_steps P w0 f (map (\<lambda>s. (s, [])) (net_nodes net)) sts0" by (rule deliver_ok(1) [OF ok d])
  have "\<exists>sts neta. ok_steps P w0 f sts0 sts \<and> net' = send_all sts neta \<and> net_partition neta = net_partition net"
  proof (cases sync)
    case True
    then obtain sts where "rebroadcast_all P sts0 = Some (Inr sts)" "net' = send_all sts net"
      using step d by (auto simp: net_step_def res_simps)
    then show ?thesis using rebroadcast_all_ok by blast
  next
    case False
    then obtain s1 ps neta sts where s1: "(if produce then mapE (submit_own_tx P train) sts0 else Inr sts0) = Inr s1"
      and "(case proposers of Some ps \<Rightarrow> Inr (ps, net) | None \<Rightarrow> bindE (leader net) (\<lambda>(i, net). Inr ([i], net))) = Inr (ps, neta)"
      and p: "foldE (propose_at P score) ps s1 = Inr sts" and n': "net' = send_all sts neta"
      using step d by (auto simp: net_step_def res_simps)
    moreover from this(2) have "net_partition neta = net_partition net"
      by (auto simp: leader_def Let_def res_simps split: option.splits if_splits)
    moreover have "ok_steps P w0 f sts0 s1"
      using s1 mapE_ok [of "submit_own_tx P train" sts0 s1 P w0 f] submit_own_tx_ok [OF sc]
      by (auto simp: ok_steps_refl split: if_splits)
    ultimately show ?thesis using ok_steps_trans propose_all_ok by blast
  qed
  then obtain sts neta where s: "ok_steps P w0 f sts0 sts" and n': "net' = send_all sts neta"
    and pt: "net_partition neta = net_partition net" by blast
  have "ok_steps P w0 f (map (\<lambda>s. (s, [])) (net_nodes net)) sts" using s0 s ok_steps_trans by blast
  then have l: "length sts = length (net_nodes net)" and each: "\<And>i. i < length sts \<Longrightarrow> node_ok P w0 f (fst (sts ! i))"
    using ok by (auto simp: ok_steps_def list_all2_conv_all_nth ok_step_def net_ok_def)
  then have "\<forall>st\<in>set sts. node_ok P w0 f (fst st)" by (metis in_set_conv_nth)
  then have "net_ok P w0 f net'" using ok l by (auto simp: net_ok_def n' send_all_def length_route)
  then show thesis using that [OF d s0 s] pt by (simp add: n' send_all_def)
qed

inductive net_reach ::
  "prims \<Rightarrow> (nat \<Rightarrow> int \<Rightarrow> weights \<Rightarrow> weights) \<Rightarrow> (weights \<Rightarrow> int \<Rightarrow> weights \<Rightarrow> 's::linordered_ab_group_add res) \<Rightarrow>
   weights \<Rightarrow> nat \<Rightarrow> string \<Rightarrow> network \<Rightarrow> bool" for P train score w0 n topology where
  net_new: "new_network P w0 n topology = Inr net \<Longrightarrow> net_reach P train score w0 n topology net"
| net_part: "net_reach P train score w0 n topology net \<Longrightarrow> net_reach P train score w0 n topology (set_partition gs net)"
| net_inject: "net_reach P train score w0 n topology net \<Longrightarrow> inject_tx i tx body net = Inr net' \<Longrightarrow>
    net_reach P train score w0 n topology net'"
| net_go: "net_reach P train score w0 n topology net \<Longrightarrow>
    net_step P train score proposers sync produce net = Some (Inr net') \<Longrightarrow> net_reach P train score w0 n topology net'"

text \<open>Node \<open>i\<close> sits at index \<open>i\<close> with the peers of the topology.\<close>

definition net_shape :: "nat \<Rightarrow> string \<Rightarrow> network \<Rightarrow> bool" where
  "net_shape n topology net \<longleftrightarrow> length (net_nodes net) = n
     \<and> (\<forall>i<n. gn_id (net_nodes net ! i) = i \<and> peers_of topology n i = Inr (gn_peers (net_nodes net ! i)))"

lemma new_network_ok:
  assumes "new_network P w0 n topology = Inr net"
  shows "\<exists>f. P2P_FOUNDER P = Inr f \<and> net_ok P w0 f net" and "net_shape n topology net"
proof -
  from assms obtain f nodes nodes' where f: "P2P_FOUNDER P = Inr f"
    and a: "mapE (new_node P w0 f) [0..<n] = Inr nodes" and b: "wire topology nodes = Inr nodes'"
    and net: "net = \<lparr>net_nodes = nodes', net_inflight = replicate n [], net_partition = None, net_round = 0\<rparr>"
    by (auto simp: new_network_def res_simps)
  have l: "length nodes = n" "length nodes' = n"
    using a b by (auto simp: mapE_eq_Inr wire_def dest!: list_all2_lengthD)
  have each: "\<exists>t ps. new_tree P w0 None (Some f) None = Inr t \<and> peers_of topology n i = Inr ps \<and>
      nodes' ! i = \<lparr>gn_id = i, gn_key = generate P (ljust32 (encode (''node'' @ nat_str i))), gn_tree = t, gn_peers = ps,
          gn_mempool = [], gn_seen_tx = {}, gn_seen_block = {}, gn_orphans = []\<rparr>" if "i < n" for i
  proof -
    have "new_node P w0 f i = Inr (nodes ! i)" using a that l by (auto simp: mapE_eq_Inr list_all2_conv_all_nth)
    moreover have "bindE (peers_of topology n i) (\<lambda>ps. Inr ((nodes ! i)\<lparr>gn_peers := ps\<rparr>)) = Inr (nodes' ! i)"
      using b that l by (auto simp: wire_def mapE_eq_Inr list_all2_conv_all_nth nth_enumerate_eq)
    ultimately show ?thesis by (auto simp: new_node_def res_simps dest!: sym [of _ "nodes ! i"] sym [of _ "nodes' ! i"])
  qed
  have "dom (map_of (bt_blocks t)) = {genesis_hash P t}" if "new_tree P w0 None (Some f) None = Inr t" for t
    using that by (auto simp: new_tree_def tree_of_def Let_def split: if_splits)
  then have "node_ok P w0 f (nodes' ! i)" if "i < n" for i
    using each [OF that] by (elim exE conjE) (simp add: node_ok_def pk_generate reach_new)
  then show "\<exists>f. P2P_FOUNDER P = Inr f \<and> net_ok P w0 f net" using f l by (auto simp: net_ok_def net in_set_conv_nth)
  show "net_shape n topology net" using each l by (fastforce simp: net_shape_def net)
qed

lemma ok_steps_shape:
  assumes "ok_steps P w0 f (map (\<lambda>s. (s, [])) (net_nodes net)) sts" and "net_ok P w0 f net" and "i < length (net_nodes net)"
  shows "gn_id (fst (sts ! i)) = gn_id (net_nodes net ! i)" and "gn_peers (fst (sts ! i)) = gn_peers (net_nodes net ! i)"
    and "gn_seen_tx (net_nodes net ! i) \<subseteq> gn_seen_tx (fst (sts ! i))" and "length sts = length (net_nodes net)"
    and "node_ok P w0 f (fst (sts ! i))"
  using assms by (auto simp: ok_steps_def list_all2_conv_all_nth ok_step_def st_le_def net_ok_def)

lemma net_reach_ok:
  assumes "net_reach P train score w0 n topology net" and sc: "sig_correct P"
  shows "(\<exists>f. P2P_FOUNDER P = Inr f \<and> net_ok P w0 f net) \<and> net_shape n topology net"
  using assms(1)
proof induction
  case (net_new net)
  then show ?case using new_network_ok by blast
next
  case (net_part net gs)
  then show ?case by (auto simp: net_ok_def net_shape_def set_partition_def)
next
  case (net_inject net i tx body net')
  then show ?case by (auto simp: net_ok_def net_shape_def inject_tx_def split: if_splits)
next
  case (net_go net proposers sync produce net')
  then obtain f where f: "P2P_FOUNDER P = Inr f" and ok: "net_ok P w0 f net" and sh: "net_shape n topology net" by blast
  obtain sts0 sts where a: "ok_steps P w0 f (map (\<lambda>s. (s, [])) (net_nodes net)) sts0" "ok_steps P w0 f sts0 sts"
    and n': "net_nodes net' = map fst sts" and ok': "net_ok P w0 f net'"
    by (rule net_step_ok [OF ok sc net_go(2)])
  note q = ok_steps_shape [OF ok_steps_trans [OF a] ok]
  have "net_shape n topology net'"
    using sh q ok_steps_trans [OF a] unfolding net_shape_def n' by (auto simp: ok_steps_def dest: list_all2_lengthD)
  then show ?case using f ok' by blast
qed

lemma genesis_same:
  assumes "tree_reach P w pd dc params t" and "tree_reach P w pd dc params t'"
  shows "bt_genesis t = bt_genesis t'"
proof -
  have "\<exists>t0. new_tree P w pd dc params = Inr t0 \<and> bt_genesis t = bt_genesis t0" if "tree_reach P w pd dc params t" for t
    using that
  proof induction
    case (reach_add t b r t')
    then show ?case using add_block_keys(2) [OF _ reach_add(2)] tree_reach_inv [OF reach_add(1)] by simp
  qed auto
  from this [OF assms(1)] this [OF assms(2)] show ?thesis by auto
qed

text \<open>The headers two nodes hold under the same hash are the same, or they collide.\<close>

definition header_inputs :: "tree \<Rightarrow> bytes set" where
  "header_inputs t = (\<lambda>(k, b). encode (dumps_default (header_json (b_header b)))) ` set (bt_blocks t)"

lemma collides_mono: "collides_on P A \<Longrightarrow> A \<subseteq> B \<Longrightarrow> collides_on P B"
  by (auto simp: collides_on_def)

lemma same_seen_same_head:
  assumes a: "node_ok P w0 f a" and b: "node_ok P w0 f b"
    and seen: "insert (genesis_hash P (gn_tree a)) (gn_seen_block a) = insert (genesis_hash P (gn_tree b)) (gn_seen_block b)"
    and free: "\<not> collides_on P (header_inputs (gn_tree a) \<union> header_inputs (gn_tree b))"
  shows "bt_head (gn_tree a) = bt_head (gn_tree b)"
proof -
  have inv: "tree_inv P (gn_tree a)" "tree_inv P (gn_tree b)" using a b tree_reach_inv by (auto simp: node_ok_def)
  have g: "bt_genesis (gn_tree a) = bt_genesis (gn_tree b)" using genesis_same [of P w0 None "Some f" None] a b by (simp add: node_ok_def)
  have keys: "dom (map_of (bt_blocks (gn_tree a))) = dom (map_of (bt_blocks (gn_tree b)))"
    using a b seen by (simp add: node_ok_def)
  have hash: "hash_of P x = k" if "map_of (bt_blocks t) k = Some x" "tree_inv P t" for k x t
    using tree_inv_fields(5) [OF that(2), of k "core x"] that(1) by (simp add: core_of_def)
  have "map_option b_header (map_of (bt_blocks (gn_tree a)) k) = map_option b_header (map_of (bt_blocks (gn_tree b)) k)" for k
  proof (cases "map_of (bt_blocks (gn_tree a)) k")
    case None
    then have "k \<notin> dom (map_of (bt_blocks (gn_tree b)))" using keys by blast
    then have "map_of (bt_blocks (gn_tree b)) k = None" by (simp only: domIff not_not)
    then show ?thesis using None by simp
  next
    case (Some x)
    then obtain y where y: "map_of (bt_blocks (gn_tree b)) k = Some y" using keys by blast
    have "block_hash P (b_header x) = block_hash P (b_header y)"
      using hash [OF Some inv(1)] hash [OF y inv(2)] by (simp add: hash_of_def)
    then have "b_header x = b_header y \<or>
        collides_on P {encode (dumps_default (header_json (b_header x))), encode (dumps_default (header_json (b_header y)))}"
      by (rule block_hash_inject)
    moreover have "{encode (dumps_default (header_json (b_header x))), encode (dumps_default (header_json (b_header y)))}
        \<subseteq> header_inputs (gn_tree a) \<union> header_inputs (gn_tree b)"
      using map_of_SomeD [OF Some] map_of_SomeD [OF y] unfolding header_inputs_def by force
    ultimately have "b_header x = b_header y" using free collides_mono by blast
    then show ?thesis using Some y by simp
  qed
  then show ?thesis by (intro heads_agree [OF inv]) (simp add: same_headers_def g)
qed

text \<open>A fully connected network floods a transaction in two steps.\<close>

lemma tx_floods:
  assumes reach: "net_reach P train score w0 n ''full'' net" and sc: "sig_correct P" and part: "net_partition net = None"
    and i: "i < n" and new: "k \<notin> gn_seen_tx (net_nodes net ! i)"
    and m: "TxMsg (fst e) (snd e) \<in> set (net_inflight net ! i)" and v: "valid_tx P k e"
    and s1: "net_step P train score ps1 y1 p1 net = Some (Inr net1)"
    and s2: "net_step P train score ps2 y2 p2 net1 = Some (Inr net2)" and j: "j < n"
  shows "k \<in> gn_seen_tx (net_nodes net2 ! j)"
proof -
  from net_reach_ok [OF reach sc] obtain f where ok: "net_ok P w0 f net" and sh: "net_shape n ''full'' net" by blast
  have n: "length (net_nodes net) = n" using sh by (simp add: net_shape_def)
  obtain d0 d where dl: "deliver P net = Inr d0" and a: "ok_steps P w0 f (map (\<lambda>s. (s, [])) (net_nodes net)) d0"
    "ok_steps P w0 f d0 d" and n1: "net_nodes net1 = map fst d" "net_inflight net1 = route None d" "net_partition net1 = None"
    and ok1: "net_ok P w0 f net1"
    by (rule net_step_ok [OF ok sc s1]) (auto simp: part)
  have tot: "ok_steps P w0 f (map (\<lambda>s. (s, [])) (net_nodes net)) d" using a ok_steps_trans by blast
  have i': "i < length (net_nodes net)" using i n by simp
  note sh0 = ok_steps_shape [OF a(1) ok i'] and shd = ok_steps_shape [OF tot ok i']
  have ld: "length d = n" "length d0 = n" using shd(4) sh0(4) n by auto
  have "k \<in> gn_seen_tx (fst (d0 ! i))" by (rule deliver_ok(2) [OF ok dl i' m v])
  moreover have step: "ok_step P w0 f (d0 ! i) (d ! i)" using a(2) sh0(5) ld i by (auto simp: ok_steps_def list_all2_conv_all_nth)
  ultimately have ki: "k \<in> gn_seen_tx (fst (d ! i))" by (auto simp: ok_step_def st_le_def)
  have "st_le P (net_nodes net ! i, []) (d ! i)"
    using tot ok i' ld n by (auto simp: ok_steps_def list_all2_conv_all_nth ok_step_def net_ok_def)
  then obtain e' where e': "TxMsg (fst e') (snd e') \<in> set (snd (d ! i))" "valid_tx P k e'"
    using ki new unfolding st_le_def by fastforce
  obtain d20 d2 where dl2: "deliver P net1 = Inr d20" and b: "ok_steps P w0 f (map (\<lambda>s. (s, [])) (net_nodes net1)) d20"
    "ok_steps P w0 f d20 d2" and n2: "net_nodes net2 = map fst d2"
    by (rule net_step_ok [OF ok1 sc s2])
  have j1: "j < length (net_nodes net1)" using j ld by (simp add: n1)
  note shj = ok_steps_shape [OF b(1) ok1 j1]
  have "k \<in> gn_seen_tx (fst (d20 ! j))"
  proof (cases "j = i")
    case True
    then show ?thesis using shj(3) ki j ld by (auto simp: n1)
  next
    case False
    have "gn_peers (net_nodes net ! i) = filter (\<lambda>j. j \<noteq> i) [0..<n]"
      using sh i by (auto simp: net_shape_def peers_of_def)
    then have "j \<in> set (gn_peers (fst (d ! i)))" using j False shd(2) by simp
    then have "TxMsg (fst e') (snd e') \<in> set (net_inflight net1 ! j)"
      unfolding n1 using route_reaches [of i d _ j None] e' i j ld by (simp add: can_talk_def)
    then show ?thesis by (rule deliver_ok(2) [OF ok1 dl2 j1 _ e'(2)])
  qed
  moreover have "length d20 = n" "length d2 = n" using shj(4) b(2) ld by (auto simp: n1 ok_steps_def dest: list_all2_lengthD)
  moreover from this have "ok_step P w0 f (d20 ! j) (d2 ! j)"
    using b(2) shj(5) j by (auto simp: ok_steps_def list_all2_conv_all_nth)
  ultimately show ?thesis using j by (auto simp: n2 ok_step_def st_le_def)
qed

end
