(* ===== verification/Client_Props.thy ===== *)
theory Client_Props
  imports Gossip_Client Gossip_Props
begin

section \<open>What the gossip client keeps\<close>

text \<open>
  The invariant of \<^verbatim>\<open>RealCore\<close> under every message, submission and proposal: the tree is reachable and its blocks are the
  blocks seen, the pools hold verified transactions under their ids, every mempool entry has its payload, and every
  retained payload densifies to the body its transaction commits to. The invariant also shows what the wire format costs:
  blocks travel without their scores, validation demands one score per delta, so a block with deltas is only ever accepted by the node that built it.
\<close>

subsection \<open>Blocks without scores\<close>

lemma add_block_scores:
  assumes "add_block P b t = Inr (r, t')" and "hash_of P b \<notin> dom (map_of (bt_blocks t))"
  shows "set (map fst (b_scores b)) = txids P b"
proof -
  from assms(2) have "hash_of P b \<notin> set (map fst (bt_blocks t))" by (simp add: dom_map_of_conv_image_fst)
  then obtain pw ph pl dc J pm params v where "validate_block P b pw ph pl dc J pm params = Inr v"
    using assms(1) by (auto simp: add_block_def Let_def res_simps split: option.splits)
  then have "check_scores P b = Inr ()" by (auto simp: validate_block_def res_simps)
  then show ?thesis by (auto simp: check_scores_def res_simps)
qed

lemma add_block_new_core:
  assumes "add_block P b t = Inr (r, t')" and "core_of t' k = Some c"
  shows "core_of t k = Some c \<or> c = core b \<and> hash_of P b \<notin> dom (map_of (bt_blocks t))"
proof (cases "hash_of P b \<in> dom (map_of (bt_blocks t))")
  case True
  with add_block_known [OF assms(1)] assms(2) show ?thesis by simp
next
  case False
  obtain w led m where at: "attach P b w led m t = Inr (r, t')" by (rule add_block_new [OF assms(1) False])
  have "core_of t' = (core_of t)(hash_of P b \<mapsto> core b)" by (rule attach_effect [OF at])
  then show ?thesis using assms(2) False by (auto split: if_splits)
qed

subsection \<open>The invariant\<close>

definition payload_ok :: "prims \<Rightarrow> string \<Rightarrow> payload \<Rightarrow> bool" where
  "payload_ok P k p \<longleftrightarrow> (\<exists>tx d. bp_txid P tx = k \<and> decompress p = Inr d \<and> delta_hash P (tobytes d) = bp_delta_hash tx)"

definition pools_ok :: "prims \<Rightarrow> real_core \<Rightarrow> bool" where
  "pools_ok P s \<longleftrightarrow>
     (\<forall>k tx. map_of (co_mempool s) k = Some tx \<longrightarrow>
        bp_txid P tx = k \<and> bp_verify P tx \<and> k \<in> co_seen_tx s \<and> k \<in> dom (map_of (co_payloads s)))
     \<and> (\<forall>k p. map_of (co_payloads s) k = Some p \<longrightarrow> payload_ok P k p)
     \<and> (\<forall>k tx. map_of (co_transfer_pool s) k = Some tx \<longrightarrow> tr_txid P tx = k \<and> tr_verify P tx \<and> k \<in> co_seen_xfer s)
     \<and> (\<forall>k tx. map_of (co_data_pool s) k = Some tx \<longrightarrow> data_txid P tx = k \<and> data_verify P tx \<and> k \<in> co_seen_dtx s)"

definition core_ok :: "prims \<Rightarrow> weights \<Rightarrow> string option \<Rightarrow> key \<Rightarrow> real_core \<Rightarrow> bool" where
  "core_ok P w dc ky s \<longleftrightarrow> tree_reach P w (Some PRUNE_DEPTH) dc None (co_tree s)
     \<and> dom (map_of (bt_blocks (co_tree s))) = insert (genesis_hash P (co_tree s)) (co_seen_block s)
     \<and> pools_ok P s \<and> co_key s = ky
     \<and> (\<forall>k b. core_of (co_tree s) k = Some b \<longrightarrow> b_txs b \<noteq> [] \<longrightarrow> h_proposer (b_header b) = pub ky)"

lemma core_ok_orphans [simp]:
  "core_ok P w dc ky (s\<lparr>co_orphans := x\<rparr>) = core_ok P w dc ky s"
  "core_ok P w dc ky (s\<lparr>co_pending := y\<rparr>) = core_ok P w dc ky s"
  by (simp_all add: core_ok_def pools_ok_def)

lemma recv_transfer_ok: "core_ok P w dc ky (fst st) \<Longrightarrow> core_ok P w dc ky (fst (recv_transfer P tx st))"
  by (cases st) (auto simp: recv_transfer_def core_ok_def pools_ok_def update_conv' split: if_splits)

lemma recv_data_tx_ok: "core_ok P w dc ky (fst st) \<Longrightarrow> core_ok P w dc ky (fst (recv_data_tx P tx st))"
  by (cases st) (auto simp: recv_data_tx_def core_ok_def pools_ok_def update_conv' split: if_splits)

lemma core_admit_ok:
  assumes "core_ok P w dc ky (fst st)" and "bp_verify P tx" and "decompress pl = Inr d"
    and "delta_hash P (tobytes d) = bp_delta_hash tx"
  shows "core_ok P w dc ky (fst (core_admit P tx pl st))"
proof -
  have "payload_ok P (bp_txid P tx) pl" using assms(3,4) by (auto simp: payload_ok_def)
  then show ?thesis using assms(1,2)
    by (cases st) (auto simp: core_admit_def core_ok_def pools_ok_def update_conv' Let_def split: if_splits)
qed

lemma submit_delta_ok:
  assumes sc: "sig_correct P" and ok: "core_ok P w dc ky (fst st)" and ky: "key_pk ky = ed_pub P (key_sk ky)"
    and "submit_delta P hh pl st = Inr st'"
  shows "core_ok P w dc ky (fst st')"
proof -
  consider "st' = st" | u tx d where "bp_signed P u ky = Inr tx" "decompress pl = Inr d"
      "bp_delta_hash u = delta_hash P (tobytes d)" "st' = core_admit P tx pl st"
    using assms(4) ok by (force simp: submit_delta_def Let_def res_simps core_ok_def split: if_splits)
  then show ?thesis
  proof cases
    case (2 u tx d)
    have "bp_delta_hash tx = bp_delta_hash u" using 2(1) by (auto simp: bp_signed_def split: if_splits)
    then show ?thesis using core_admit_ok [OF ok _ 2(2)] bp_signed_verify [OF sc ky 2(1)] 2(3,4) by simp
  qed (use ok in simp)
qed

text \<open>A tree that took one more block.\<close>

lemma core_ok_tree:
  assumes ok: "core_ok P w dc ky s" and add: "add_block P b (co_tree s) = Inr (r, t)"
    and own: "b_txs b \<noteq> [] \<Longrightarrow> hash_of P b \<notin> dom (map_of (bt_blocks (co_tree s))) \<Longrightarrow> h_proposer (b_header b) = pub ky"
  shows "core_ok P w dc ky (s\<lparr>co_tree := t, co_seen_block := insert (hash_of P b) (co_seen_block s)\<rparr>)"
proof -
  have reach: "tree_reach P w (Some PRUNE_DEPTH) dc None (co_tree s)" using ok by (simp add: core_ok_def)
  have "tree_reach P w (Some PRUNE_DEPTH) dc None t" by (rule reach_add [OF reach add])
  moreover have "dom (map_of (bt_blocks t)) = insert (genesis_hash P t) (insert (hash_of P b) (co_seen_block s))"
    using add_block_keys [OF _ add] tree_reach_inv [OF reach] ok by (auto simp: core_ok_def)
  moreover have "h_proposer (b_header c) = pub ky" if "core_of t k = Some c" "b_txs c \<noteq> []" for k c
    using add_block_new_core [OF add that(1)] that(2) own ok by (auto simp: core_ok_def)
  ultimately show ?thesis using ok by (auto simp: core_ok_def pools_ok_def)
qed

lemma settle_pools_ok: "core_ok P w dc ky s \<Longrightarrow> core_ok P w dc ky (settle_pools P xs ds s)"
  unfolding core_ok_def pools_ok_def settle_pools_def by (auto dest!: map_of_delete_Some)

lemma prune_txs_ok: "core_ok P w dc ky s \<Longrightarrow> core_ok P w dc ky (prune_txs P txs s)"
  unfolding core_ok_def pools_ok_def prune_txs_def by (auto dest!: map_of_delete_Some)

lemma core_ok_seen:
  "core_ok P w dc ky s \<Longrightarrow> core_ok P w dc ky (s\<lparr>co_seen_xfer := co_seen_xfer s \<union> A, co_seen_dtx := co_seen_dtx s \<union> B\<rparr>)"
  by (auto simp: core_ok_def pools_ok_def)

lemma installed_alt:
  "installed P b t s =
     (settle_pools P (b_transfers b) (b_data_txs b) (prune_txs P (b_txs b)
        ((s\<lparr>co_tree := t, co_seen_block := insert (hash_of P b) (co_seen_block s)\<rparr>)
          \<lparr>co_seen_xfer := co_seen_xfer s \<union> set (map (tr_txid P) (b_transfers b)),
           co_seen_dtx := co_seen_dtx s \<union> set (map (data_txid P) (b_data_txs b))\<rparr>)))
     \<lparr>co_orphans := AList.delete (hash_of P b) (co_orphans s)\<rparr>"
  by (simp add: installed_def settle_pools_def prune_txs_def)

lemma install_ok:
  assumes ok: "core_ok P w dc ky (fst st)" and "install P b st = Inr (cs, st')" and "b_scores b = []"
  shows "core_ok P w dc ky (fst st')"
proof (cases "add_block P b (co_tree (fst st))")
  case (Inl e)
  then show ?thesis using assms(1,2) by (cases st) (auto simp: install_def Let_def split: error.splits if_splits)
next
  case (Inr rt)
  obtain r t where rt: "rt = (r, t)" by (cases rt)
  let ?s = "fst st"
  have add: "add_block P b (co_tree ?s) = Inr (r, t)" using Inr rt by simp
  have "b_txs b = []" if "hash_of P b \<notin> dom (map_of (bt_blocks (co_tree ?s)))"
    using add_block_scores [OF add that] assms(3) by (simp add: txids_def)
  then have "core_ok P w dc ky (?s\<lparr>co_tree := t, co_seen_block := insert (hash_of P b) (co_seen_block ?s)\<rparr>)"
    using core_ok_tree [OF ok add] by blast
  from core_ok_seen [OF this] have "core_ok P w dc ky (installed P b t ?s)"
    unfolding installed_alt core_ok_orphans by (intro settle_pools_ok prune_txs_ok) simp
  moreover have "fst st' = installed P b t ?s" using assms(2) add by (cases st) (auto simp: install_def)
  ultimately show ?thesis by simp
qed

lemma recv_one_ok: "core_ok P w dc ky (fst st) \<Longrightarrow> recv_one P wb st = Inr (cs, st') \<Longrightarrow> core_ok P w dc ky (fst st')"
  using install_ok [of P w dc ky st _ cs st']
  by (cases st) (auto simp: recv_one_def Let_def res_simps split: if_splits)

lemma recv_blocks_ok: "core_ok P w dc ky (fst st) \<Longrightarrow> recv_blocks P wbs st = Inr st' \<Longrightarrow> core_ok P w dc ky (fst st')"
proof (induction P wbs st rule: recv_blocks.induct)
  case (2 P wb wbs st)
  then obtain cs st1 where 1: "recv_one P wb st = Inr (cs, st1)" and r: "recv_blocks P (cs @ wbs) st1 = Inr st'"
    by (auto simp: res_simps)
  show ?case by (rule 2(1) [OF 1 refl recv_one_ok [OF 2(2) 1] r])
qed simp

lemma retry_ok: "core_ok P w dc ky (fst st) \<Longrightarrow> foldE (retry_one P) es st = Inr st' \<Longrightarrow> core_ok P w dc ky (fst st')"
proof (induction es arbitrary: st)
  case (Cons e es)
  then obtain st1 where 1: "retry_one P e st = Inr st1" and r: "foldE (retry_one P) es st1 = Inr st'" by (auto simp: res_simps)
  obtain s out where st: "st = (s, out)" by (cases st)
  obtain bh wb where e: "e = (bh, wb)" by (cases e)
  from 1 consider "st1 = st" | "recv_blocks P [wb] (s\<lparr>co_pending := AList.delete bh (co_pending s)\<rparr>, out) = Inr st1"
    by (cases "\<forall>tx\<in>set (wb_txs wb). bp_txid P tx \<in> set (map fst (co_payloads s))")
       (simp_all only: retry_one_def st e Let_def prod.case recv_wire_block_def bindE_eq_Inr if_True if_False sum.inject, auto simp: bindE_eq_Inr)
  then have "core_ok P w dc ky (fst st1)"
  proof cases
    case 2
    show ?thesis by (rule recv_blocks_ok [OF _ 2]) (use Cons(2) st in simp)
  qed (use Cons(2) in simp)
  then show ?case using Cons(1) r by blast
qed simp

lemma full_bodies_ok:
  "core_ok P w dc ky s \<Longrightarrow> full_bodies P pls txs bodies s = Inr (r, s') \<Longrightarrow> core_ok P w dc ky s'"
proof (induction P pls txs bodies s rule: full_bodies.induct)
  case (2 P pls tx txs bodies s)
  then obtain pl d where pl: "dict_at pls (bp_txid P tx) = Inr pl" and d: "decompress pl = Inr d"
    by (auto simp: res_simps)
  show ?case
  proof (cases "delta_hash P (tobytes d) = bp_delta_hash tx")
    case True
    then have "payload_ok P (bp_txid P tx) pl" using d by (auto simp: payload_ok_def)
    then have "core_ok P w dc ky (s\<lparr>co_payloads := AList.update (bp_txid P tx) pl (co_payloads s)\<rparr>)"
      using 2(2) by (auto simp: core_ok_def pools_ok_def update_conv')
    from 2(1) [OF pl d _ this] show ?thesis using 2(3) True pl d by simp
  next
    case False
    then show ?thesis using 2(2,3) pl d by simp
  qed
qed simp

lemma core_handle_ok:
  assumes ok: "core_ok P w dc ky (fst st)" and "core_handle P m st = Inr st'"
  shows "core_ok P w dc ky (fst st')"
proof (cases m)
  case (CTx tx pl)
  then consider "st' = st" | d where "bp_verify P tx" "decompress pl = Inr d" "delta_hash P (tobytes d) = bp_delta_hash tx"
      "foldE (retry_one P) (co_pending (fst (core_admit P tx pl st))) (core_admit P tx pl st) = Inr st'"
    using assms(2) by (auto simp: core_handle_def core_recv_tx_def retry_pending_def res_simps split: if_splits)
  then show ?thesis
  proof cases
    case (2 d)
    show ?thesis by (rule retry_ok [OF core_admit_ok [OF ok 2(1-3)] 2(4)])
  qed (use ok in simp)
next
  case (CFull wb pls)
  obtain s out where st: "st = (s, out)" by (cases st)
  from assms(2) CFull consider "st' = st" | b s1 where "full_bodies P pls (wb_txs wb) [] s = Inr (b, s1)" "st' = (s1, out)"
    | bodies s1 cs st1 where "full_bodies P pls (wb_txs wb) [] s = Inr (Some bodies, s1)"
        "install P (rebuilt wb bodies) (s1, out) = Inr (cs, st1)" "recv_blocks P cs st1 = Inr st'"
    by (auto simp: core_handle_def recv_fullblock_def st res_simps Let_def split: if_splits option.splits)
  then show ?thesis
  proof cases
    case (3 bodies s1 cs st1)
    have "core_ok P w dc ky (fst (s1, out))" using full_bodies_ok [OF _ 3(1)] ok st by simp
    from install_ok [OF this 3(2)] have "core_ok P w dc ky (fst st1)" by simp
    then show ?thesis using recv_blocks_ok 3(3) by blast
  qed (use ok st full_bodies_ok in auto)
next
  case (CGet bh)
  then show ?thesis using assms by (cases st) (auto simp: core_handle_def serve_block_def Let_def split: option.splits if_splits)
next
  case (CBlock wb)
  then have "recv_blocks P [wb] st = Inr st'" using assms(2) by (simp only: core_handle_def cmsg.case recv_wire_block_def)
  then show ?thesis by (rule recv_blocks_ok [OF ok])
next
  case (CXfer tx)
  then show ?thesis using recv_transfer_ok [OF ok, of tx] assms(2) by (auto simp: core_handle_def)
next
  case (CDtx tx)
  then show ?thesis using recv_data_tx_ok [OF ok, of tx] assms(2) by (auto simp: core_handle_def)
qed

lemma build_block_proposer:
  "build_block P t k pr = Inr b \<Longrightarrow> h_prev_hash (b_header b) = k \<and> h_proposer (b_header b) = pub (pr_key pr)"
  by (auto simp: build_block_def Let_def res_simps split: prod.splits)

lemma core_propose_cases:
  assumes "core_propose P dc st = Inr st'"
  obtains "st' = st" | b xs ds where "h_prev_hash (b_header b) = bt_head (co_tree (fst st))"
    "h_proposer (b_header b) = pub (co_key (fst st))" "offer_block P b xs ds st = Inr st'"
  using assms unfolding core_propose_def Let_def
  by (auto simp: res_simps split: if_splits dest!: build_block_proposer)

lemma settle_seen:
  "settle_pools P xs ds (s\<lparr>co_tree := t, co_seen_block := X\<rparr>) = (settle_pools P xs ds (s\<lparr>co_tree := t\<rparr>))\<lparr>co_seen_block := X\<rparr>"
  "co_seen_block (settle_pools P xs ds s) = co_seen_block s"
  by (cases s, simp add: settle_pools_def)+

lemma offer_block_ok:
  assumes ok: "core_ok P w dc ky (fst st)" and "offer_block P b xs ds st = Inr st'"
    and prev: "h_prev_hash (b_header b) = bt_head (co_tree (fst st))" and own: "h_proposer (b_header b) = pub ky"
  shows "core_ok P w dc ky (fst st')"
proof (cases "add_block P b (co_tree (fst st))")
  case (Inl e)
  then show ?thesis using assms(1,2) by (cases st) (auto simp: offer_block_def split: error.splits)
next
  case (Inr rt)
  obtain r t where rt: "rt = (r, t)" by (cases rt)
  let ?s = "fst st"
  have add: "add_block P b (co_tree ?s) = Inr (r, t)" using Inr rt by simp
  show ?thesis
  proof (cases r)
    case True
    have "fst st' = prune_txs P (b_txs b) (settle_pools P xs ds
        (?s\<lparr>co_tree := t, co_seen_block := insert (hash_of P b) (co_seen_block ?s)\<rparr>))"
      using assms(2) add True by (cases st) (auto simp: offer_block_def settle_seen Let_def)
    then show ?thesis using core_ok_tree [OF ok add own] settle_pools_ok prune_txs_ok by simp
  next
    case False
    have inv: "tree_inv P (co_tree ?s)" using ok tree_reach_inv by (auto simp: core_ok_def)
    have "hash_of P b \<in> dom (map_of (bt_blocks (co_tree ?s)))"
      using add_block_on_head [OF inv add _ prev] False by blast
    then have "t = co_tree ?s" using add_block_known [OF add] by simp
    then have "?s\<lparr>co_tree := t\<rparr> = ?s" by (cases ?s) simp
    then have "fst st' = settle_pools P xs ds ?s" using assms(2) add False by (cases st) (auto simp: offer_block_def Let_def)
    then show ?thesis using ok settle_pools_ok by simp
  qed
qed

lemma core_propose_ok:
  assumes ok: "core_ok P w dc ky (fst st)" and "core_propose P dcc st = Inr st'"
  shows "core_ok P w dc ky (fst st')"
proof (rule core_propose_cases [OF assms(2)])
  assume "st' = st"
  then show ?thesis using ok by simp
next
  fix b xs ds
  assume "h_prev_hash (b_header b) = bt_head (co_tree (fst st))" "h_proposer (b_header b) = pub (co_key (fst st))"
    "offer_block P b xs ds st = Inr st'"
  then show ?thesis using offer_block_ok [OF ok] ok by (simp add: core_ok_def)
qed

subsection \<open>Reachable nodes\<close>

inductive core_reach :: "prims \<Rightarrow> nat \<Rightarrow> weights \<Rightarrow> string option \<Rightarrow> real_core \<Rightarrow> bool" for P i w dc where
  core_new: "new_core P i w dc = Inr s \<Longrightarrow> core_reach P i w dc s"
| core_msg: "core_reach P i w dc s \<Longrightarrow> core_handle P m (s, []) = Inr (s', out) \<Longrightarrow> core_reach P i w dc s'"
| core_submit: "core_reach P i w dc s \<Longrightarrow> submit_delta P hh pl (s, []) = Inr (s', out) \<Longrightarrow> core_reach P i w dc s'"
| core_prop: "core_reach P i w dc s \<Longrightarrow> core_propose P dc (s, []) = Inr (s', out) \<Longrightarrow> core_reach P i w dc s'"

lemma core_reach_ok:
  assumes "core_reach P i w dc s" and sc: "sig_correct P"
  shows "core_ok P w dc (generate P (ljust32 (encode (''node'' @ nat_str i)))) s"
  using assms(1)
proof induction
  case (core_new s)
  let ?ky = "generate P (ljust32 (encode (''node'' @ nat_str i)))"
  from core_new obtain t where t: "new_tree P w (Some PRUNE_DEPTH) dc None = Inr t" and s: "co_tree s = t" "co_key s = ?ky"
    "co_mempool s = []" "co_payloads s = []" "co_transfer_pool s = []" "co_data_pool s = []" "co_seen_block s = {}"
    by (auto simp: new_core_def res_simps)
  have "bt_blocks t = [(genesis_hash P t, bt_genesis t)]" "b_txs (bt_genesis t) = []"
    using t by (auto simp: new_tree_def tree_of_def Let_def)
  then show ?case using t by (auto simp: core_ok_def pools_ok_def s core_of_def reach_new split: if_splits)
next
  case (core_msg s m s' out)
  then show ?case using core_handle_ok [of P w dc _ "(s, [])" m "(s', out)"] by simp
next
  case (core_submit s hh pl s' out)
  then show ?case using submit_delta_ok [OF sc, of w dc _ "(s, [])" hh pl "(s', out)"] by (simp add: pk_generate)
next
  case (core_prop s s' out)
  then show ?case using core_propose_ok [of P w dc _ "(s, [])" dc "(s', out)"] by simp
qed

text \<open>Of two simultaneous connections between two nodes exactly one is kept, and both ends agree which.\<close>

lemma one_connection:
  assumes "a \<noteq> b"
  shows "keep_connection a b True {} = keep_connection b a False {}"
    and "keep_connection a b True {} \<noteq> keep_connection b a True {}"
  using assms by (auto simp: keep_connection_def)

subsection \<open>Blocks from the wire\<close>

text \<open>A block with deltas that arrives from a peer is refused, announced or in full.\<close>

lemma wire_install_refused:
  assumes b: "wb_txs wb \<noteq> []" and new: "block_hash P (wb_header wb) \<notin> dom (map_of (bt_blocks (co_tree s)))"
    and r: "install P (rebuilt wb bodies) (s, out) = Inr (cs, st')"
  shows "cs = [] \<and> co_tree (fst st') = co_tree s"
proof (cases "add_block P (rebuilt wb bodies) (co_tree s)")
  case (Inl e)
  then show ?thesis using r by (auto simp: install_def Let_def split: error.splits if_splits)
next
  case (Inr rt)
  have "hash_of P (rebuilt wb bodies) \<notin> dom (map_of (bt_blocks (co_tree s)))" using new by (simp add: hash_of_def)
  with add_block_scores [of P "rebuilt wb bodies" "co_tree s" "fst rt" "snd rt"] Inr
  have "txids P (rebuilt wb bodies) = {}" by simp
  then show ?thesis using b by (simp add: txids_def)
qed

lemma wire_block_refused:
  assumes b: "wb_txs wb \<noteq> []" and new: "block_hash P (wb_header wb) \<notin> dom (map_of (bt_blocks (co_tree s)))"
    and m: "m = CBlock wb \<or> m = CFull wb pls" and r: "core_handle P m (s, out) = Inr st'"
  shows "co_tree (fst st') = co_tree s"
  using m
proof
  assume "m = CBlock wb"
  then have "bindE (recv_one P wb (s, out)) (\<lambda>(cs, st). recv_blocks P (cs @ []) st) = Inr st'"
    using r by (simp add: core_handle_def recv_wire_block_def)
  then obtain cs st where o: "recv_one P wb (s, out) = Inr (cs, st)" and rb: "recv_blocks P cs st = Inr st'" by (auto simp: res_simps)
  have "cs = [] \<and> co_tree (fst st) = co_tree s"
    using o wire_install_refused [OF b new] by (cases st) (fastforce simp: recv_one_def Let_def res_simps split: if_splits)
  then show ?thesis using rb by auto
next
  assume "m = CFull wb pls"
  have keep: "full_bodies P pls txs bodies s1 = Inr (x, s2) \<Longrightarrow> co_tree s2 = co_tree s1" for txs bodies s1 x s2
    by (induction txs arbitrary: bodies s1) (auto simp: res_simps split: if_splits)
  from r \<open>m = CFull wb pls\<close> have "recv_fullblock P wb pls (s, out) = Inr st'" by (simp add: core_handle_def)
  then consider "st' = (s, out)" | x s1 where "full_bodies P pls (wb_txs wb) [] s = Inr (x, s1)"
      "(case x of None \<Rightarrow> Inr (s1, out) | Some bodies \<Rightarrow> bindE (install P (rebuilt wb bodies) (s1, out)) (\<lambda>(cs, st). recv_blocks P cs st)) = Inr st'"
    by (auto simp: recv_fullblock_def bindE_eq_Inr split: if_splits)
  then show ?thesis
  proof cases
    case 2
    then have "co_tree s1 = co_tree s" using keep by blast
    then show ?thesis using 2(2) wire_install_refused [OF b, of P s1] new by (auto simp: bindE_eq_Inr split: option.splits) fastforce+
  qed simp
qed

end
