(* ===== verification/Coordinator.thy ===== *)
theory Coordinator
  imports Storage
begin

section \<open>Coordinators: synchronous rounds and stale deltas (rig/node.py, rig/async_node.py)\<close>

text \<open>
  The scoring and block loop of the synchronous coordinator, with and without a chain directory, and the event-driven
  simulator of miners that submit late. The float side enters as functions: \<open>work\<close> is the quantized delta of a miner,
  \<open>score\<close> the improvement of the loss at a height (it may raise on a shape mismatch) and \<open>dur\<close> the seeded
  duration of a round. Accuracy and the float rewards of the logs are reports and are left out.
\<close>

definition N_MINERS :: nat where "N_MINERS = 6"
definition node_include_k :: nat where "node_include_k = 4"

subsection \<open>Synchronous rounds (rig/node.py)\<close>

definition score_cand ::
  "(nat \<Rightarrow> weights \<Rightarrow> weights \<Rightarrow> 's::linordered_ab_group_add res) \<Rightarrow> nat \<Rightarrow> weights \<Rightarrow> int \<times> weights \<Rightarrow>
   ('s \<times> int \<times> weights) list \<Rightarrow> ('s \<times> int \<times> weights) list res" where
  "score_cand score h w e cands = (let (mid, d) = e in
     bindE (score h w d) (\<lambda>s. Inr (if 0 < s then cands @ [(s, mid, d)] else cands)))"

definition score_and_apply ::
  "prims \<Rightarrow> (nat \<Rightarrow> weights \<Rightarrow> weights \<Rightarrow> 's::linordered_ab_group_add res) \<Rightarrow> (int \<times> weights) list \<Rightarrow> nat \<Rightarrow> chain \<Rightarrow>
   (('s \<times> int \<times> weights) list \<times> chain) res" where
  "score_and_apply P score deltas height c =
     bindE (foldE (score_cand score height (w_int c)) deltas []) (\<lambda>cands.
     let chosen = take node_include_k (sort_key (\<lambda>(s, mid, d). (- s, mid)) cands)
     in bindE (chain_apply_block P (map (\<lambda>(s, mid, d). d) chosen) (map (\<lambda>(s, mid, d). mid) chosen) c) (\<lambda>(b, c).
        Inr (chosen, c)))"

definition sync_round ::
  "prims \<Rightarrow> (nat \<Rightarrow> nat \<Rightarrow> weights \<Rightarrow> weights) \<Rightarrow> (nat \<Rightarrow> weights \<Rightarrow> weights \<Rightarrow> 's::linordered_ab_group_add res) \<Rightarrow> nat \<Rightarrow>
   chain \<times> chain_store option \<Rightarrow> (chain \<times> chain_store option) res" where
  "sync_round P work score i st = (let (c, store) = st; h = chain_height c in
     bindE (score_and_apply P score (map (\<lambda>mid. (int mid, work h mid (w_int c))) [0..<N_MINERS]) h c) (\<lambda>(chosen, c).
     case store of
       None \<Rightarrow> Inr (c, None)
     | Some s \<Rightarrow>
         (case rev (chain_blocks c) of
            [] \<Rightarrow> Inl IndexError
          | b # _ \<Rightarrow> bindE (append_block P (cb_height b) (cb_deltas b) (cb_miner_ids b) (cb_root b) (w_int c) s) (\<lambda>s.
                      Inr (c, Some s)))))"

definition run_in_memory ::
  "prims \<Rightarrow> (nat \<Rightarrow> nat \<Rightarrow> weights \<Rightarrow> weights) \<Rightarrow> (nat \<Rightarrow> weights \<Rightarrow> weights \<Rightarrow> 's::linordered_ab_group_add res) \<Rightarrow> nat \<Rightarrow>
   weights \<Rightarrow> chain_store option \<Rightarrow> (chain \<times> chain_store option) res" where
  "run_in_memory P work score blocks w0 store =
     foldE (sync_round P work score) [0..<blocks] (new_chain w0, map_option (init_genesis w0) store)"

subsection \<open>Stale deltas (rig/async_node.py)\<close>

definition BLOCK_TICKS :: nat where "BLOCK_TICKS = 2"
definition GRACE_G :: int where "GRACE_G = 3"

record mem_item =
  mi_miner :: nat
  mi_base_height :: nat
  mi_delta :: weights

definition sort_item ::
  "(nat \<Rightarrow> weights \<Rightarrow> weights \<Rightarrow> 's::linordered_ab_group_add res) \<Rightarrow> chain \<Rightarrow> mem_item \<Rightarrow>
   ('s \<times> int \<times> mem_item) list \<times> mem_item list \<times> mem_item list \<Rightarrow>
   (('s \<times> int \<times> mem_item) list \<times> mem_item list \<times> mem_item list) res" where
  "sort_item score c it acc = (let (cands, dropped, keep) = acc; lag = int (chain_height c) - int (mi_base_height it) in
     if GRACE_G < lag then Inr (cands, dropped @ [it], keep)
     else bindE (score (chain_height c) (w_int c) (mi_delta it)) (\<lambda>s.
       Inr (if 0 < s then (cands @ [(s, lag, it)], dropped, keep) else (cands, dropped, keep @ [it]))))"

definition score_mempool ::
  "(nat \<Rightarrow> weights \<Rightarrow> weights \<Rightarrow> 's::linordered_ab_group_add res) \<Rightarrow> chain \<Rightarrow> mem_item list \<Rightarrow>
   (('s \<times> int \<times> mem_item) list \<times> mem_item list \<times> mem_item list) res" where
  "score_mempool score c mempool =
     bindE (foldE (sort_item score c) mempool ([], [], [])) (\<lambda>(cands, dropped, keep).
     let cands = sort_key (\<lambda>(s, lag, it). (- s, mi_miner it)) cands
     in Inr (take node_include_k cands, keep @ map (\<lambda>(s, lag, it). it) (drop node_include_k cands), dropped))"

record sim_miner =
  sm_base_h :: nat
  sm_base :: weights
  sm_ready :: nat
  sm_rnd :: nat

record async_state =
  as_chain :: chain
  as_miners :: "sim_miner list"
  as_mempool :: "mem_item list"
  as_heights :: "nat list"
  as_included :: "nat list"
  as_lags :: "int list"
  as_stale_dropped :: nat

definition complete ::
  "(nat \<Rightarrow> nat \<Rightarrow> nat) \<Rightarrow> (nat \<Rightarrow> nat \<Rightarrow> weights \<Rightarrow> weights) \<Rightarrow> nat \<Rightarrow> nat \<Rightarrow> async_state \<Rightarrow> async_state" where
  "complete dur work t mid s = (let m = as_miners s ! mid in
     if sm_ready m \<noteq> t then s
     else s\<lparr>as_mempool := as_mempool s @ [\<lparr>mi_miner = mid, mi_base_height = sm_base_h m,
               mi_delta = work mid (sm_rnd m) (sm_base m)\<rparr>],
            as_miners := (as_miners s)[mid := \<lparr>sm_base_h = chain_height (as_chain s), sm_base = w_int (as_chain s),
               sm_ready = t + dur mid (sm_rnd m + 1), sm_rnd = sm_rnd m + 1\<rparr>]\<rparr>)"

definition produce_block ::
  "prims \<Rightarrow> (nat \<Rightarrow> weights \<Rightarrow> weights \<Rightarrow> 's::linordered_ab_group_add res) \<Rightarrow> async_state \<Rightarrow> async_state res" where
  "produce_block P score s =
     bindE (score_mempool score (as_chain s) (as_mempool s)) (\<lambda>(chosen, leftover, dropped).
     bindE (chain_apply_block P (map (\<lambda>(sc, lag, it). mi_delta it) chosen) (map (\<lambda>(sc, lag, it). int (mi_miner it)) chosen)
              (as_chain s)) (\<lambda>(b, c).
     Inr (s\<lparr>as_chain := c, as_mempool := leftover, as_lags := as_lags s @ map (\<lambda>(sc, lag, it). lag) chosen,
            as_stale_dropped := as_stale_dropped s + length dropped, as_heights := as_heights s @ [chain_height c],
            as_included := as_included s @ [length chosen]\<rparr>)))"

definition async_tick ::
  "prims \<Rightarrow> (nat \<Rightarrow> nat \<Rightarrow> nat) \<Rightarrow> (nat \<Rightarrow> nat \<Rightarrow> weights \<Rightarrow> weights) \<Rightarrow> (nat \<Rightarrow> weights \<Rightarrow> weights \<Rightarrow> 's::linordered_ab_group_add res) \<Rightarrow>
   nat \<Rightarrow> async_state \<Rightarrow> async_state res" where
  "async_tick P dur work score t s =
     (let s = fold (complete dur work t) [0..<N_MINERS] s
      in if t mod BLOCK_TICKS = 0 then produce_block P score s else Inr s)"

definition run_async_sim ::
  "prims \<Rightarrow> (nat \<Rightarrow> nat \<Rightarrow> nat) \<Rightarrow> (nat \<Rightarrow> nat \<Rightarrow> weights \<Rightarrow> weights) \<Rightarrow> (nat \<Rightarrow> weights \<Rightarrow> weights \<Rightarrow> 's::linordered_ab_group_add res) \<Rightarrow>
   nat \<Rightarrow> weights \<Rightarrow> async_state res" where
  "run_async_sim P dur work score ticks w0 =
     foldE (async_tick P dur work score) [1..<Suc ticks]
       \<lparr>as_chain = new_chain w0,
        as_miners = map (\<lambda>mid. \<lparr>sm_base_h = 0, sm_base = w0, sm_ready = dur mid 0, sm_rnd = 0\<rparr>) [0..<N_MINERS],
        as_mempool = [], as_heights = [], as_included = [], as_lags = [], as_stale_dropped = 0\<rparr>"

subsection \<open>A running coordinator and its directory\<close>

lemma score_and_apply_chain:
  assumes "score_and_apply P score ds h c = Inr (chosen, c')"
  shows "\<exists>b. chain_apply_block P (map (\<lambda>(s, mid, d). d) chosen) (map (\<lambda>(s, mid, d). mid) chosen) c = Inr (b, c')"
  using assms by (auto simp: score_and_apply_def res_simps Let_def)

lemma run_in_memory_represents:
  assumes k: "cs_k s0 \<noteq> 0" and fresh: "cs_ckpts s0 = []"
  shows "foldE (sync_round P work score) ns (new_chain w0, Some (init_genesis w0 s0)) = Inr (c, st) \<Longrightarrow>
    chain_reach P w0 c \<and> chain_height c = length ns \<and> (\<exists>s. st = Some s \<and> represents P [] s c \<and> cs_k s \<noteq> 0)"
proof (induction ns arbitrary: c st rule: rev_induct)
  case Nil
  then show ?case using k fresh
    by (auto simp: represents_def init_genesis_def new_chain_def chain_height_def intro: chain_start [unfolded new_chain_def])
next
  case (snoc n ns)
  then obtain c1 st1 where 1: "foldE (sync_round P work score) ns (new_chain w0, Some (init_genesis w0 s0)) = Inr (c1, st1)"
    and r: "sync_round P work score n (c1, st1) = Inr (c, st)" by (auto simp: foldE_append res_simps)
  from snoc(1) [OF 1] obtain s1 where reach: "chain_reach P w0 c1" and len: "chain_height c1 = length ns"
    and s1: "st1 = Some s1" "represents P [] s1 c1" "cs_k s1 \<noteq> 0" by blast
  from r obtain chosen c2 where "score_and_apply P score (map (\<lambda>mid. (int mid, work (chain_height c1) mid (w_int c1))) [0..<N_MINERS])
      (chain_height c1) c1 = Inr (chosen, c2)"
    by (auto simp: sync_round_def Let_def bindE_eq_Inr)
  moreover from this have "c2 = c" using r by (auto simp: sync_round_def s1 bindE_eq_Inr split: list.splits)
  ultimately have sa: "score_and_apply P score (map (\<lambda>mid. (int mid, work (chain_height c1) mid (w_int c1))) [0..<N_MINERS])
      (chain_height c1) c1 = Inr (chosen, c)" by simp
  from score_and_apply_chain [OF this] obtain ids es b where ap: "chain_apply_block P es ids c1 = Inr (b, c)" by blast
  then have cb: "chain_blocks c = chain_blocks c1 @ [b]" by (auto simp: chain_apply_block_eq_Inr)
  obtain s where s: "append_block P (cb_height b) (cb_deltas b) (cb_miner_ids b) (cb_root b) (w_int c) s1 = Inr s"
    "represents P [] s c" "cs_k s = cs_k s1"
    using append_block_represents [OF reach s1(2,3) ap] by blast
  have "st = Some s" using r sa s(1) by (simp add: sync_round_def s1(1) cb)
  then show ?case using chain_block [OF reach ap] s s1(3) len cb by (auto simp: chain_height_def)
qed

lemma run_in_memory_durable:
  assumes "cs_k s0 \<noteq> 0" and "cs_ckpts s0 = []" and "run_in_memory P work score blocks w0 (Some s0) = Inr (c, st)"
  shows "\<exists>s. st = Some s \<and> chain_height c = blocks \<and> full_replay s = Inr (w_int c) \<and> fast_sync s = Inr (w_int c) \<and>
    store_verify P s = Inr True \<and> load_chain P s = Inr c"
proof -
  have "chain_reach P w0 c \<and> chain_height c = length [0..<blocks] \<and> (\<exists>s. st = Some s \<and> represents P [] s c \<and> cs_k s \<noteq> 0)"
    by (rule run_in_memory_represents [OF assms(1,2)]) (use assms(3) in \<open>simp add: run_in_memory_def\<close>)
  then show ?thesis using represents_reads by fastforce
qed

subsection \<open>Every delta is accounted for once\<close>

definition async_ok :: "prims \<Rightarrow> weights \<Rightarrow> async_state \<Rightarrow> bool" where
  "async_ok P w0 s \<longleftrightarrow> chain_reach P w0 (as_chain s) \<and> length (as_miners s) = N_MINERS
     \<and> (\<forall>m\<in>set (as_miners s). sm_base_h m \<le> chain_height (as_chain s))
     \<and> (\<forall>it\<in>set (as_mempool s). mi_base_height it \<le> chain_height (as_chain s))
     \<and> (\<forall>l\<in>set (as_lags s). 0 \<le> l \<and> l \<le> GRACE_G)
     \<and> (\<forall>n\<in>set (as_included s). n \<le> node_include_k)
     \<and> (\<Sum>m\<leftarrow>as_miners s. sm_rnd m) = length (as_lags s) + as_stale_dropped s + length (as_mempool s)"

lemma sum_list_update:
  "i < length xs \<Longrightarrow> (\<Sum>x\<leftarrow>xs[i := y]. f x :: nat) + f (xs ! i) = (\<Sum>x\<leftarrow>xs. f x) + f y"
  by (induction xs arbitrary: i) (auto split: nat.splits)

lemma complete_ok:
  assumes ok: "async_ok P w0 s" and mid: "mid < N_MINERS"
  shows "async_ok P w0 (complete dur work t mid s)"
proof (cases "sm_ready (as_miners s ! mid) = t")
  case True
  let ?m = "as_miners s ! mid"
  let ?n = "\<lparr>sm_base_h = chain_height (as_chain s), sm_base = w_int (as_chain s),
               sm_ready = t + dur mid (sm_rnd ?m + 1), sm_rnd = sm_rnd ?m + 1\<rparr>"
  have len: "mid < length (as_miners s)" using ok mid by (simp add: async_ok_def)
  then have "(\<Sum>m\<leftarrow>(as_miners s)[mid := ?n]. sm_rnd m) = (\<Sum>m\<leftarrow>as_miners s. sm_rnd m) + 1"
    using sum_list_update [of mid "as_miners s" sm_rnd ?n] by simp
  moreover have "\<forall>m\<in>set ((as_miners s)[mid := ?n]). sm_base_h m \<le> chain_height (as_chain s)"
    using ok set_update_subset_insert [of "as_miners s" mid ?n] by (auto simp: async_ok_def)
  moreover have "sm_base_h ?m \<le> chain_height (as_chain s)" using ok len by (simp add: async_ok_def)
  ultimately show ?thesis using ok True by (auto simp: async_ok_def complete_def Let_def)
qed (use ok in \<open>simp add: complete_def\<close>)

lemma completions_ok: "async_ok P w0 s \<Longrightarrow> set ms \<subseteq> {..<N_MINERS} \<Longrightarrow> async_ok P w0 (fold (complete dur work t) ms s)"
  by (induction ms arbitrary: s) (auto intro: complete_ok)

lemma sort_items:
  assumes "foldE (sort_item score c) ms (cands, dropped, keep) = Inr (cands', dropped', keep')"
    and "\<forall>it\<in>set ms. mi_base_height it \<le> chain_height c" and "\<forall>(s, l, it)\<in>set cands. 0 \<le> l \<and> l \<le> GRACE_G"
  shows "length cands' + length dropped' + length keep' = length cands + length dropped + length keep + length ms
     \<and> (\<forall>(s, l, it)\<in>set cands'. 0 \<le> l \<and> l \<le> GRACE_G)
     \<and> (\<lambda>(s, l, it). it) ` set cands' \<union> set keep' \<subseteq> (\<lambda>(s, l, it). it) ` set cands \<union> set keep \<union> set ms"
  using assms
proof (induction ms arbitrary: cands dropped keep)
  case (Cons it ms)
  from Cons(2) obtain a where st: "sort_item score c it (cands, dropped, keep) = Inr a"
    and rest: "foldE (sort_item score c) ms a = Inr (cands', dropped', keep')" by (auto simp: res_simps)
  let ?lag = "int (chain_height c) - int (mi_base_height it)"
  from st consider "a = (cands, dropped @ [it], keep)" | s where "a = (cands @ [(s, ?lag, it)], dropped, keep)" "?lag \<le> GRACE_G"
    | "a = (cands, dropped, keep @ [it])"
    by (auto simp: sort_item_def Let_def res_simps split: if_splits)
  then show ?case
  proof cases
    case 1
    then show ?thesis using Cons(1) [of cands "dropped @ [it]" keep] rest Cons(3,4) by auto
  next
    case (2 s)
    have "0 \<le> ?lag" using Cons(3) by simp
    then show ?thesis using Cons(1) [of "cands @ [(s, ?lag, it)]" dropped keep] rest 2 Cons(3,4) by auto
  next
    case 3
    then show ?thesis using Cons(1) [of cands dropped "keep @ [it]"] rest Cons(3,4) by auto
  qed
qed auto

lemma produce_block_ok:
  assumes ok: "async_ok P w0 s" and "produce_block P score s = Inr s'"
  shows "async_ok P w0 s'"
proof -
  from assms(2) obtain cands dropped keep b c where
    sc: "foldE (sort_item score (as_chain s)) (as_mempool s) ([], [], []) = Inr (cands, dropped, keep)"
    and ap: "chain_apply_block P
        (map (\<lambda>(sc, lag, it). mi_delta it) (take node_include_k (sort_key (\<lambda>(s, lag, it). (- s, mi_miner it)) cands)))
        (map (\<lambda>(sc, lag, it). int (mi_miner it)) (take node_include_k (sort_key (\<lambda>(s, lag, it). (- s, mi_miner it)) cands)))
        (as_chain s) = Inr (b, c)"
    and s': "s' = (let cs = sort_key (\<lambda>(s, lag, it). (- s, mi_miner it)) cands in
        s\<lparr>as_chain := c, as_mempool := keep @ map (\<lambda>(s, lag, it). it) (drop node_include_k cs),
          as_lags := as_lags s @ map (\<lambda>(sc, lag, it). lag) (take node_include_k cs),
          as_stale_dropped := as_stale_dropped s + length dropped, as_heights := as_heights s @ [chain_height c],
          as_included := as_included s @ [length (take node_include_k cs)]\<rparr>)"
    by (auto simp: produce_block_def score_mempool_def res_simps Let_def)
  let ?cs = "sort_key (\<lambda>(s, lag, it). (- s, mi_miner it)) cands"
  have base: "\<forall>it\<in>set (as_mempool s). mi_base_height it \<le> chain_height (as_chain s)" using ok by (simp add: async_ok_def)
  have q: "length cands + length dropped + length keep = length (as_mempool s)"
    "\<forall>(s, l, it)\<in>set cands. 0 \<le> l \<and> l \<le> GRACE_G" "(\<lambda>(s, l, it). it) ` set cands \<union> set keep \<subseteq> set (as_mempool s)"
    using sort_items [OF sc base] by auto
  have "chain_reach P w0 (as_chain s)" using ok by (simp add: async_ok_def)
  from chain_block [OF this ap] have h: "chain_height c = Suc (chain_height (as_chain s))" "chain_reach P w0 c"
    using ap by (auto simp: chain_apply_block_eq_Inr chain_height_def)
  have lags: "\<forall>l\<in>set (map (\<lambda>(sc, lag, it). lag) (take node_include_k ?cs)). 0 \<le> l \<and> l \<le> GRACE_G"
    using q(2) set_take_subset [of node_include_k ?cs] by fastforce
  have "(\<lambda>(s, l, it). it) ` set (drop node_include_k ?cs) \<subseteq> (\<lambda>(s, l, it). it) ` set cands"
    by (intro image_mono) (metis set_drop_subset set_sort)
  then have mem: "\<forall>it\<in>set (keep @ map (\<lambda>(s, lag, it). it) (drop node_include_k ?cs)). mi_base_height it \<le> chain_height c"
    using q(3) base h(1) by fastforce
  have cnt: "length (take node_include_k ?cs) + length (drop node_include_k ?cs) = length cands"
    by (metis append_take_drop_id length_append length_sort)
  show ?thesis using ok q(1) lags mem cnt h unfolding s' Let_def async_ok_def by auto
qed

lemma run_async_sim_ok:
  assumes "run_async_sim P dur work score ticks w0 = Inr s"
  shows "async_ok P w0 s"
proof -
  have "async_ok P w0 s0 \<Longrightarrow> foldE (async_tick P dur work score) ts s0 = Inr s \<Longrightarrow> async_ok P w0 s" for ts s0
  proof (induction ts arbitrary: s0)
    case (Cons t ts)
    let ?s = "fold (complete dur work t) [0..<N_MINERS] s0"
    have "async_ok P w0 ?s" using Cons(2) by (intro completions_ok) auto
    moreover from Cons(3) obtain s1 where "async_tick P dur work score t s0 = Inr s1"
      and r: "foldE (async_tick P dur work score) ts s1 = Inr s" by (auto simp: res_simps)
    ultimately have "async_ok P w0 s1" using produce_block_ok by (auto simp: async_tick_def Let_def split: if_splits)
    then show ?case using Cons(1) r by blast
  qed simp
  moreover have "async_ok P w0 \<lparr>as_chain = new_chain w0,
        as_miners = map (\<lambda>mid. \<lparr>sm_base_h = 0, sm_base = w0, sm_ready = dur mid 0, sm_rnd = 0\<rparr>) [0..<N_MINERS],
        as_mempool = [], as_heights = [], as_included = [], as_lags = [], as_stale_dropped = 0\<rparr>"
    by (simp add: async_ok_def chain_start comp_def)
  ultimately show ?thesis using assms unfolding run_async_sim_def by blast
qed

end
