(* ===== verification/Ed25519.thy ===== *)
theory Ed25519
  imports Wire
begin

section \<open>The reference Ed25519 implementation (rig/ed25519.py)\<close>

text \<open>
  The arithmetic of the fallback signature scheme, translated operation by operation. SHA-512 is the argument \<open>H\<close>;
  Python's \<^verbatim>\<open>pow(a, n, m)\<close> is repeated squaring, shown equal to the power. The lemmas are about representation, not about the group: coordinates
  stay reduced, keys are 32 and signatures 64 bytes, the response scalar is below the group order, an encoded point gives its ordinate and sign back, and verification
  always answers.
\<close>

definition ed_b :: nat where "ed_b = 256"
definition ed_q :: int where "ed_q = 2 ^ 255 - 19"
definition ed_L :: int where "ed_L = 2 ^ 252 + 27742317777372353535851937790883648493"

fun powmod :: "int \<Rightarrow> nat \<Rightarrow> int \<Rightarrow> int" where
  "powmod a n m =
     (if n = 0 then 1 mod m
      else let h = powmod a (n div 2) m; s = h * h mod m
           in if even n then s else s * a mod m)"

declare powmod.simps [simp del]

definition ed_inv :: "int \<Rightarrow> int" where
  "ed_inv x = powmod x (nat (ed_q - 2)) ed_q"

definition ed_d :: int where "ed_d = - 121665 * ed_inv 121666 mod ed_q"
definition ed_I :: int where "ed_I = powmod 2 (nat ((ed_q - 1) div 4)) ed_q"

definition xrecover :: "int \<Rightarrow> int" where
  "xrecover y =
     (let xx = (y * y - 1) * ed_inv (ed_d * y * y + 1);
          x = powmod xx (nat ((ed_q + 3) div 8)) ed_q;
          x = (if (x * x - xx) mod ed_q \<noteq> 0 then x * ed_I mod ed_q else x)
      in if x mod 2 \<noteq> 0 then ed_q - x else x)"

definition ed_By :: int where "ed_By = 4 * ed_inv 5 mod ed_q"
definition ed_Bx :: int where "ed_Bx = xrecover ed_By"
definition ed_B :: "int \<times> int" where "ed_B = (ed_Bx mod ed_q, ed_By mod ed_q)"

definition edwards :: "int \<times> int \<Rightarrow> int \<times> int \<Rightarrow> int \<times> int" where
  "edwards p1 p2 =
     (let (x1, y1) = p1; (x2, y2) = p2;
          x3 = (x1 * y2 + x2 * y1) * ed_inv (1 + ed_d * x1 * x2 * y1 * y2);
          y3 = (y1 * y2 + x1 * x2) * ed_inv (1 - ed_d * x1 * x2 * y1 * y2)
      in (x3 mod ed_q, y3 mod ed_q))"

fun scalarmult :: "int \<times> int \<Rightarrow> nat \<Rightarrow> int \<times> int" where
  "scalarmult p e =
     (if e = 0 then (0, 1)
      else let r = scalarmult p (e div 2); r = edwards r r
           in if odd e then edwards r p else r)"

declare scalarmult.simps [simp del]

text \<open>\<^verbatim>\<open>int.to_bytes(y, 32, "little")\<close>\<close>

definition encodeint :: "int \<Rightarrow> bytes res" where
  "encodeint y = (if 0 \<le> y \<and> y < 2 ^ 256 then Inr (le_bytes 32 (nat y)) else Inl OverflowError)"

definition encodepoint :: "int \<times> int \<Rightarrow> bytes" where
  "encodepoint p =
     (let (x, y) = p; bits = map (\<lambda>i. y div 2 ^ i mod 2) [0..<ed_b - 1] @ [x mod 2]
      in map (\<lambda>i. word_of_int (\<Sum>j\<leftarrow>[0..<8]. bits ! (i * 8 + j) * 2 ^ j)) [0..<ed_b div 8])"

definition ed_bit :: "bytes \<Rightarrow> nat \<Rightarrow> int res" where
  "ed_bit h i = (if i div 8 < length h then Inr (uint (h ! (i div 8)) div 2 ^ (i mod 8) mod 2) else Inl IndexError)"

text \<open>\<^verbatim>\<open>sum(2 ** i * _bit(h, i) for i in ...)\<close>\<close>

definition bit_sum :: "bytes \<Rightarrow> nat list \<Rightarrow> int res" where
  "bit_sum h is = bindE (mapE (\<lambda>i. bindE (ed_bit h i) (\<lambda>b. Inr (2 ^ i * b))) is) (\<lambda>vs. Inr (sum_list vs))"

definition secret_scalar :: "(bytes \<Rightarrow> bytes) \<Rightarrow> bytes \<Rightarrow> int res" where
  "secret_scalar H sk = bindE (bit_sum (H sk) [3..<ed_b - 2]) (\<lambda>s. Inr (2 ^ (ed_b - 2) + s))"

definition publickey :: "(bytes \<Rightarrow> bytes) \<Rightarrow> bytes \<Rightarrow> bytes res" where
  "publickey H sk = bindE (secret_scalar H sk) (\<lambda>a. Inr (encodepoint (scalarmult ed_B (nat a))))"

definition Hint :: "(bytes \<Rightarrow> bytes) \<Rightarrow> bytes \<Rightarrow> int res" where
  "Hint H m = bit_sum (H m) [0..<2 * ed_b]"

definition signature :: "(bytes \<Rightarrow> bytes) \<Rightarrow> bytes \<Rightarrow> bytes \<Rightarrow> bytes \<Rightarrow> bytes res" where
  "signature H m sk pk =
     bindE (secret_scalar H sk) (\<lambda>a.
     bindE (Hint H (take (ed_b div 8) (drop (ed_b div 8) (H sk)) @ m)) (\<lambda>r.
     let R = encodepoint (scalarmult ed_B (nat r))
     in bindE (Hint H (R @ pk @ m)) (\<lambda>h.
        bindE (encodeint ((r + h * a) mod ed_L)) (\<lambda>S. Inr (R @ S)))))"

definition isoncurve :: "int \<times> int \<Rightarrow> bool" where
  "isoncurve p \<longleftrightarrow> (let (x, y) = p in (- x * x + y * y - 1 - ed_d * x * x * y * y) mod ed_q = 0)"

definition decodeint :: "bytes \<Rightarrow> int" where
  "decodeint s = int (le_val s)"

definition decodepoint :: "bytes \<Rightarrow> (int \<times> int) res" where
  "decodepoint s =
     bindE (bit_sum s [0..<ed_b - 1]) (\<lambda>y.
     let x = xrecover y
     in bindE (ed_bit s (ed_b - 1)) (\<lambda>sg.
        let p = (if x mod 2 \<noteq> sg then ed_q - x else x, y)
        in if isoncurve p then Inr p else Inl ValueError))"

definition checkvalid :: "(bytes \<Rightarrow> bytes) \<Rightarrow> bytes \<Rightarrow> bytes \<Rightarrow> bytes \<Rightarrow> bool res" where
  "checkvalid H sg m pk =
     (if length sg \<noteq> ed_b div 4 then Inr False
      else if length pk \<noteq> ed_b div 8 then Inr False
      else case bindE (decodepoint (take (ed_b div 8) sg)) (\<lambda>R. bindE (decodepoint pk) (\<lambda>A. Inr (R, A))) of
        Inl e \<Rightarrow> (case e of ValueError \<Rightarrow> Inr False | _ \<Rightarrow> Inl e)
      | Inr (R, A) \<Rightarrow>
          let S = decodeint (drop (ed_b div 8) sg)
          in bindE (Hint H (encodepoint R @ pk @ m)) (\<lambda>h.
             Inr (scalarmult ed_B (nat S) = edwards R (scalarmult A (nat h)))))"

subsection \<open>Lemmas\<close>

lemma powmod_power: "powmod a n m = a ^ n mod m"
proof (induction a n m rule: powmod.induct)
  case (1 a n m)
  show ?case
  proof (cases "n = 0")
    case False
    define k where "k = n div 2"
    have IH: "powmod a k m = a ^ k mod m" using 1 [OF False] by (simp add: k_def)
    have "n = (if even n then k + k else Suc (k + k))" by (simp add: k_def) presburger
    then have "a ^ n = (if even n then a ^ k * a ^ k else a ^ k * a ^ k * a)" by (metis power_Suc2 power_add)
    moreover have "(a ^ k mod m) * (a ^ k mod m) mod m = a ^ k * a ^ k mod m" by (rule mod_mult_eq)
    moreover have "(a ^ k * a ^ k mod m) * a mod m = a ^ k * a ^ k * a mod m" by (rule mod_mult_left_eq)
    ultimately show ?thesis using False IH by (simp only: powmod.simps [of a n] Let_def k_def [symmetric] if_False simp_thms split: if_splits)
  qed (simp add: powmod.simps)
qed

lemma ed_q_pos: "0 < ed_q"
  by (simp add: ed_q_def)

lemma edwards_reduced: "edwards p r = (x, y) \<Longrightarrow> 0 \<le> x \<and> x < ed_q \<and> 0 \<le> y \<and> y < ed_q"
  using ed_q_pos by (auto simp: edwards_def Let_def split: prod.splits)

lemma scalarmult_reduced: "scalarmult p e = (x, y) \<Longrightarrow> 0 \<le> x \<and> x < ed_q \<and> 0 \<le> y \<and> y < ed_q"
  using edwards_reduced by (subst (asm) scalarmult.simps) (auto simp: Let_def ed_q_def split: if_splits)

lemma length_encodepoint: "length (encodepoint p) = 32"
  by (simp add: encodepoint_def Let_def ed_b_def split: prod.splits)

lemma bit_sum_returns: "\<forall>i\<in>set is. i div 8 < length h \<Longrightarrow> \<exists>v. bit_sum h is = Inr v \<and> 0 \<le> v"
proof -
  assume a: "\<forall>i\<in>set is. i div 8 < length h"
  let ?b = "\<lambda>i. uint (h ! (i div 8)) div 2 ^ (i mod 8) mod 2"
  have "mapE (\<lambda>i. bindE (ed_bit h i) (\<lambda>b. Inr (2 ^ i * b))) is = Inr (map (\<lambda>i. 2 ^ i * ?b i) is)"
    by (rule mapE_all_Inr) (use a in \<open>simp add: ed_bit_def\<close>)
  moreover have "0 \<le> (\<Sum>i\<leftarrow>is. 2 ^ i * ?b i)" by (rule sum_list_nonneg) auto
  ultimately show ?thesis by (simp add: bit_sum_def)
qed

lemma Hint_returns: "(\<And>m. length (H m) = 64) \<Longrightarrow> \<exists>v. Hint H m = Inr v \<and> 0 \<le> v"
  unfolding Hint_def by (rule bit_sum_returns) (auto simp: ed_b_def)

lemma secret_scalar_returns: "(\<And>m. length (H m) = 64) \<Longrightarrow> \<exists>a. secret_scalar H sk = Inr a \<and> 2 ^ 254 \<le> a"
  using bit_sum_returns [of "[3..<ed_b - 2]" "H sk"] by (auto simp: secret_scalar_def ed_b_def)

lemma publickey_returns: "(\<And>m. length (H m) = 64) \<Longrightarrow> \<exists>pk. publickey H sk = Inr pk \<and> length pk = 32"
  using secret_scalar_returns [of H sk] by (auto simp: publickey_def length_encodepoint)

lemma signature_returns:
  assumes "\<And>m. length (H m) = 64"
  shows "\<exists>sg. signature H m sk pk = Inr sg \<and> length sg = 64 \<and> decodeint (drop 32 sg) < ed_L"
proof -
  obtain a where a: "secret_scalar H sk = Inr a" using secret_scalar_returns assms by blast
  obtain r where r: "Hint H (take (ed_b div 8) (drop (ed_b div 8) (H sk)) @ m) = Inr r" using Hint_returns assms by blast
  let ?R = "encodepoint (scalarmult ed_B (nat r))"
  obtain h where h: "Hint H (?R @ pk @ m) = Inr h" using Hint_returns assms by blast
  let ?S = "(r + h * a) mod ed_L"
  have L: "0 < ed_L" "ed_L < 2 ^ 256" by (simp_all add: ed_L_def)
  then have S: "0 \<le> ?S" "?S < ed_L" by simp_all
  have "?S < 2 ^ 256" using S(2) L(2) by (rule order.strict_trans)
  then have e: "encodeint ?S = Inr (le_bytes 32 (nat ?S))" and "nat ?S < 256 ^ 32"
    using S(1) by (simp_all add: encodeint_def nat_less_iff)
  then have "decodeint (le_bytes 32 (nat ?S)) = ?S" using S by (simp add: decodeint_def le_val_le_bytes)
  then show ?thesis using a r h e S(2) by (simp add: signature_def length_encodepoint length_le_bytes)
qed

lemma decodepoint_on_curve: "decodepoint s = Inr p \<Longrightarrow> isoncurve p"
  by (auto simp: decodepoint_def Let_def res_simps split: if_splits)

lemma decodepoint_raises: "length s = 32 \<Longrightarrow> decodepoint s = Inl e \<Longrightarrow> e = ValueError"
proof -
  assume l: "length s = 32" and d: "decodepoint s = Inl e"
  have "\<forall>i\<in>set [0..<ed_b - 1]. i div 8 < length s" using l by (auto simp: ed_b_def)
  from bit_sum_returns [OF this] obtain v where "bit_sum s [0..<ed_b - 1] = Inr v" by blast
  then show ?thesis using l d by (auto simp: decodepoint_def Let_def ed_bit_def ed_b_def split: if_splits)
qed

lemma checkvalid_returns:
  assumes "\<And>m. length (H m) = 64"
  shows "\<exists>b. checkvalid H sg m pk = Inr b \<and> (b \<longrightarrow> length sg = 64 \<and> length pk = 32)"
proof (cases "length sg = 64 \<and> length pk = 32")
  case True
  have R: "length (take (ed_b div 8) sg) = 32" using True by (simp add: ed_b_def)
  obtain v where v: "\<And>x. Hint H x = Inr (v x)" using Hint_returns assms by metis
  show ?thesis using True decodepoint_raises [OF R] decodepoint_raises [of pk] v
    by (cases "decodepoint (take (ed_b div 8) sg)"; cases "decodepoint pk") (auto simp: checkvalid_def ed_b_def Let_def)
next
  case False
  then show ?thesis by (auto simp: checkvalid_def ed_b_def)
qed

end
