(* ===== verification/Wallet.thy ===== *)
theory Wallet
  imports Storage Commitments
begin

section \<open>The wallet (client/wallet.py)\<close>

text \<open>
  The key file, the display form of addresses, the confirmation loop and the transactions of the command line. The libraries are
  arguments: \<open>bech\<close> is \<^verbatim>\<open>bech32\<close> (\<open>None\<close> when it is not installed), \<open>nacl\<close> the key derivation and the secret box, \<open>mnem\<close>
  the BIP39 words. So are the operator and the network: random bytes, passphrases, the replies of the node. The directory is a dictionary from paths to
  wallet files with their mode; \<^verbatim>\<open>json.dump\<close> and \<^verbatim>\<open>json.load\<close> of the record, whose values are
  strings and one number, give it back. Results: addresses and wallets round-trip, an existing file is never touched, the signed transactions are accepted by the ledger,
  and the loop can report as confirmed a transaction that a rival with the same nonce displaced.
\<close>

subsection \<open>Addresses for display\<close>

record bech =
  bech32_encode :: "string \<Rightarrow> nat list \<Rightarrow> string"
  bech32_decode :: "string \<Rightarrow> string option \<times> nat list option"
  convertbits :: "nat list \<Rightarrow> nat \<Rightarrow> nat \<Rightarrow> bool \<Rightarrow> nat list option"

definition HRP :: string where "HRP = ''pal''"

definition to_display :: "bech option \<Rightarrow> string \<Rightarrow> string res" where
  "to_display lib addr_hex =
     (case lib of
        None \<Rightarrow> Inr addr_hex
      | Some b \<Rightarrow>
          bindE (unhex addr_hex) (\<lambda>raw.
          case convertbits b (map unat raw) 8 5 True of
            None \<Rightarrow> Inl TypeError
          | Some d \<Rightarrow> Inr (bech32_encode b HRP d)))"

text \<open>\<^verbatim>\<open>str.lower\<close> on the characters below 256, and \<^verbatim>\<open>bytes(xs)\<close> on a list of numbers.\<close>

definition lower :: "char \<Rightarrow> char" where
  "lower c = (let n = of_char c :: nat in
     if 65 \<le> n \<and> n \<le> 90 \<or> 192 \<le> n \<and> n \<le> 222 \<and> n \<noteq> 215 then char_of (n + 32) else c)"

definition bytes_of :: "nat list \<Rightarrow> bytes res" where
  "bytes_of xs = (if \<exists>x\<in>set xs. 256 \<le> x then Inl ValueError else Inr (map of_nat xs))"

definition parse_addr :: "bech option \<Rightarrow> string \<Rightarrow> string res" where
  "parse_addr lib s =
     (if take 4 s = HRP @ ''1'' then
        (case lib of
           None \<Rightarrow> Inl ImportError
         | Some b \<Rightarrow>
             let (hrp, data) = bech32_decode b s
             in case data of
                  None \<Rightarrow> Inl SystemExit
                | Some d \<Rightarrow>
                    if hrp \<noteq> Some HRP then Inl SystemExit
                    else case convertbits b d 5 8 False of
                           None \<Rightarrow> Inl TypeError
                         | Some xs \<Rightarrow> bindE (bytes_of xs) (\<lambda>raw. Inr (hex raw)))
      else if length s = 40 \<and> (\<forall>c\<in>set s. lower c \<in> set hex_digits) then Inr (map lower s)
      else Inl SystemExit)"

subsection \<open>The wallet file\<close>

record nacl =
  argon2id :: "bytes \<Rightarrow> bytes \<Rightarrow> bytes"
  box_encrypt :: "bytes \<Rightarrow> bytes \<Rightarrow> bytes \<Rightarrow> bytes"
  box_decrypt :: "bytes \<Rightarrow> bytes \<Rightarrow> bytes option"

record enc_key =
  enc_kdf :: string
  enc_salt :: string
  enc_blob :: string

record wallet_rec =
  w_version :: int
  w_pub :: string
  w_address :: string
  w_enc :: "enc_key option"
  w_sk :: "string option"

record wallet_file =
  wf_rec :: wallet_rec
  wf_mode :: nat

type_synonym wallet_dir = "(string, wallet_file) dict"

definition encrypt_sk :: "nacl \<Rightarrow> bytes \<Rightarrow> bytes \<Rightarrow> bytes \<Rightarrow> string \<Rightarrow> enc_key" where
  "encrypt_sk N salt nonce sk passphrase =
     (let ky = argon2id N (encode passphrase) salt
      in \<lparr>enc_kdf = ''argon2id'', enc_salt = hex salt, enc_blob = hex (box_encrypt N ky nonce sk)\<rparr>)"

definition decrypt_sk :: "nacl \<Rightarrow> enc_key \<Rightarrow> string \<Rightarrow> bytes res" where
  "decrypt_sk N enc passphrase =
     bindE (unhex (enc_salt enc)) (\<lambda>salt.
     let ky = argon2id N (encode passphrase) salt
     in bindE (unhex (enc_blob enc)) (\<lambda>blob.
        case box_decrypt N ky blob of None \<Rightarrow> Inl CryptoError | Some sk \<Rightarrow> Inr sk))"

text \<open>\<^verbatim>\<open>os.makedirs(os.path.dirname(path))\<close> raises when the path names no directory; \<^verbatim>\<open>O_EXCL\<close> refuses an existing
  file; the mode is 0600 (384).\<close>

definition write_wallet ::
  "prims \<Rightarrow> nacl \<Rightarrow> bytes \<Rightarrow> bytes \<Rightarrow> string \<Rightarrow> key \<Rightarrow> string \<Rightarrow> wallet_dir \<Rightarrow> (wallet_rec \<times> wallet_dir) res" where
  "write_wallet P N salt nonce path1 k passphrase fs =
     bindE (raise_if (CHR ''/'' \<notin> set path1) FileNotFoundError) (\<lambda>_.
     bindE (address P (pub k)) (\<lambda>addr.
     let r = \<lparr>w_version = 2, w_pub = pub k, w_address = addr,
              w_enc = (if passphrase \<noteq> [] then Some (encrypt_sk N salt nonce (key_sk k) passphrase) else None),
              w_sk = (if passphrase \<noteq> [] then None else Some (hex (key_sk k)))\<rparr>
     in bindE (raise_if (path1 \<in> fst ` set fs) FileExistsError) (\<lambda>_.
        Inr (r, AList.update path1 \<lparr>wf_rec = r, wf_mode = 384\<rparr> fs))))"

record mnem =
  to_mnemonic :: "bytes \<Rightarrow> string"
  mn_check :: "string \<Rightarrow> bool"
  to_entropy :: "string \<Rightarrow> bytes"

definition mnemonic_for :: "mnem option \<Rightarrow> bytes \<Rightarrow> string option" where
  "mnemonic_for lib sk = map_option (\<lambda>m. to_mnemonic m sk) lib"

text \<open>Where the passphrase comes from: an environment variable (with its value), no terminal, or two prompts.\<close>

datatype passphrase_source = PwEnv "string option" | PwNoTty | PwPrompt string string

definition read_passphrase :: "passphrase_source \<Rightarrow> string res" where
  "read_passphrase src =
     (case src of
        PwEnv v \<Rightarrow> Inr (case v of None \<Rightarrow> [] | Some s \<Rightarrow> s)
      | PwNoTty \<Rightarrow> Inl SystemExit
      | PwPrompt pw again \<Rightarrow> if pw \<noteq> [] \<and> pw \<noteq> again then Inl SystemExit else Inr pw)"

definition wallet_create ::
  "prims \<Rightarrow> nacl \<Rightarrow> mnem option \<Rightarrow> bytes \<Rightarrow> bytes \<Rightarrow> bytes \<Rightarrow> passphrase_source \<Rightarrow> string \<Rightarrow> wallet_dir \<Rightarrow>
   ((wallet_rec \<times> string option) \<times> wallet_dir) res" where
  "wallet_create P N lib urandom salt nonce src path1 fs =
     bindE (raise_if (path1 \<in> fst ` set fs) SystemExit) (\<lambda>_.
     let k = generate P urandom
     in bindE (read_passphrase src) (\<lambda>pw.
        bindE (write_wallet P N salt nonce path1 k pw fs) (\<lambda>(r, fs).
        Inr ((r, mnemonic_for lib (key_sk k)), fs))))"

definition wallet_restore ::
  "prims \<Rightarrow> nacl \<Rightarrow> mnem option \<Rightarrow> bytes \<Rightarrow> bytes \<Rightarrow> string \<Rightarrow> string \<Rightarrow> string \<Rightarrow> wallet_dir \<Rightarrow>
   (wallet_rec \<times> wallet_dir) res" where
  "wallet_restore P N lib salt nonce typed pw path1 fs =
     bindE (raise_if (path1 \<in> fst ` set fs) SystemExit) (\<lambda>_.
     case lib of
       None \<Rightarrow> Inl SystemExit
     | Some m \<Rightarrow>
         let words = strip typed
         in bindE (raise_if (\<not> mn_check m words) SystemExit) (\<lambda>_.
            write_wallet P N salt nonce path1 (generate P (to_entropy m words)) pw fs))"

definition wallet_load :: "prims \<Rightarrow> nacl \<Rightarrow> string \<Rightarrow> string \<Rightarrow> wallet_dir \<Rightarrow> (key \<times> wallet_rec) res" where
  "wallet_load P N path1 pw fs =
     (case map_of fs path1 of
        None \<Rightarrow> Inl FileNotFoundError
      | Some f \<Rightarrow>
          let r = wf_rec f
          in bindE (case w_enc r of
                 Some enc \<Rightarrow> decrypt_sk N enc pw
               | None \<Rightarrow> (case w_sk r of None \<Rightarrow> Inl KeyError | Some h \<Rightarrow> unhex h)) (\<lambda>sk.
             let k = generate P sk
             in bindE (raise_if (pub k \<noteq> w_pub r) AssertionError) (\<lambda>_. Inr (k, r))))"

subsection \<open>Transactions\<close>

text \<open>The amounts arrive in grains, already rounded from the float of the command line.\<close>

definition send_tx :: "prims \<Rightarrow> bech option \<Rightarrow> key \<Rightarrow> wallet_rec \<Rightarrow> string \<Rightarrow> int \<Rightarrow> int \<Rightarrow> transfer_tx res" where
  "send_tx P lib k r dest amount nonce =
     bindE (parse_addr lib dest) (\<lambda>addr.
     tr_signed P \<lparr>tr_from_pub = w_pub r, tr_to_addr = addr, tr_amount = amount, tr_nonce = nonce, tr_sig = []\<rparr> k)"

definition submit_data_tx ::
  "prims \<Rightarrow> key \<Rightarrow> wallet_rec \<Rightarrow> string \<Rightarrow> string \<Rightarrow> int \<Rightarrow> string \<Rightarrow> int \<Rightarrow> int \<Rightarrow> data_submit_tx res" where
  "submit_data_tx P k r data_hash da_root size_bytes media_type stake nonce =
     ds_signed P \<lparr>ds_owner_pub = w_pub r, ds_data_hash = data_hash, ds_size_bytes = size_bytes, ds_media_type = media_type,
       ds_stake = stake, ds_nonce = nonce, ds_da_root = da_root, ds_sig = []\<rparr> k"

definition custody_commit :: "string \<Rightarrow> int list \<Rightarrow> string" where
  "custody_commit pubkey pages = ''custody|'' @ pubkey @ ''|'' @ join '','' (map int_str pages)"

definition stake_custody_tx :: "prims \<Rightarrow> key \<Rightarrow> wallet_rec \<Rightarrow> int list \<Rightarrow> int \<Rightarrow> int \<Rightarrow> data_submit_tx res" where
  "stake_custody_tx P k r given stake nonce =
     (let pages = sort given;
          commit = custody_commit (w_pub r) pages
      in submit_data_tx P k r (sha_hex P (encode commit)) (sha_hex P (encode (''da|'' @ commit)))
           (max 1 (int (length pages))) ''custody'' stake nonce)"

definition challenge_tx :: "prims \<Rightarrow> key \<Rightarrow> wallet_rec \<Rightarrow> string \<Rightarrow> int \<Rightarrow> string \<Rightarrow> int \<Rightarrow> data_challenge_tx res" where
  "challenge_tx P k r data_id stake reason nonce =
     dc_signed P \<lparr>dc_challenger_pub = w_pub r, dc_data_id = data_id, dc_stake = stake, dc_reason = reason, dc_nonce = nonce,
       dc_sig = []\<rparr> k"

definition vote_tx :: "prims \<Rightarrow> key \<Rightarrow> wallet_rec \<Rightarrow> string \<Rightarrow> bool \<Rightarrow> int \<Rightarrow> data_vote_tx res" where
  "vote_tx P k r challenge_id support nonce =
     dv_signed P \<lparr>dv_voter_pub = w_pub r, dv_challenge_id = challenge_id, dv_support = support, dv_nonce = nonce, dv_sig = []\<rparr> k"

subsection \<open>The confirmation loop\<close>

text \<open>What the node answers during one attempt: the nonce, the reply to the post, and the nonces polled before the deadline.\<close>

record 'o attempt =
  at_nonce :: int
  at_out :: 'o
  at_polls :: "int list"

fun wallet_submit :: "(int \<Rightarrow> 't res) \<Rightarrow> 'o attempt list \<Rightarrow> 't list \<Rightarrow> 't list \<times> 'o res" where
  "wallet_submit mk [] sent = (sent, Inl SystemExit)"
| "wallet_submit mk (a # rest) sent =
     (case mk (at_nonce a) of
        Inl e \<Rightarrow> (sent, Inl e)
      | Inr tx \<Rightarrow>
          if list_ex (\<lambda>n. at_nonce a < n) (at_polls a) then (sent @ [tx], Inr (at_out a))
          else wallet_submit mk rest (sent @ [tx]))"

subsection \<open>Addresses round-trip\<close>

definition bech_laws :: "bech \<Rightarrow> bool" where
  "bech_laws b \<longleftrightarrow> (\<forall>xs. length xs = 20 \<and> (\<forall>x\<in>set xs. x < 256) \<longrightarrow>
     (\<exists>d. convertbits b xs 8 5 True = Some d \<and> convertbits b d 5 8 False = Some xs \<and>
        bech32_decode b (bech32_encode b HRP d) = (Some HRP, Some d) \<and> take 4 (bech32_encode b HRP d) = HRP @ ''1''))"

lemma unhex_hex [simp]: "unhex (hex b) = Inr b"
  by (simp add: unhex_def fromhex_hex)

lemma take_hex: "take (2 * k) (hex bs) = hex (take k bs)"
proof (induction bs arbitrary: k)
  case (Cons b bs)
  then show ?case by (cases k) (simp_all add: hex_def hex_byte_def)
qed (simp add: hex_def)

lemma hex_chars: "c \<in> set (hex b) \<Longrightarrow> c \<in> set hex_digits"
proof -
  have "c \<in> set hex_digits" if "c \<in> set (hex_byte x)" for c x
  proof -
    have "unat x div 16 < length hex_digits" "unat x mod 16 < length hex_digits" using byte_lt [of x] by (simp_all add: hex_digits_def)
    then show ?thesis using that nth_mem unfolding hex_byte_def by fastforce
  qed
  then show "c \<in> set (hex b) \<Longrightarrow> c \<in> set hex_digits" by (auto simp: hex_def)
qed

lemma lower_hex: "c \<in> set hex_digits \<Longrightarrow> lower c = c"
  by (auto simp: hex_digits_def lower_def Let_def)

lemma parse_hex:
  assumes "length raw = 20"
  shows "parse_addr lib (hex raw) = Inr (hex raw)"
proof -
  have l: "map lower (hex raw) = hex raw" using lower_hex hex_chars by (metis map_idI)
  have "CHR ''p'' \<notin> set (hex raw)" using hex_chars by (auto simp: hex_digits_def)
  then have "take 4 (hex raw) \<noteq> HRP @ ''1''" by (metis HRP_def append_Cons in_set_takeD list.set_intros(1))
  moreover have "length (hex raw) = 40" using assms by (simp add: length_hex)
  moreover have "\<forall>c\<in>set (hex raw). lower c \<in> set hex_digits" using hex_chars lower_hex by metis
  ultimately show ?thesis using l by (simp add: parse_addr_def)
qed

lemma display_roundtrip:
  assumes "length raw = 20" and "\<And>b. lib = Some b \<Longrightarrow> bech_laws b"
  shows "\<exists>s. to_display lib (hex raw) = Inr s \<and> parse_addr lib s = Inr (hex raw)"
proof (cases lib)
  case None
  then show ?thesis using parse_hex [OF assms(1)] by (simp add: to_display_def)
next
  case (Some b)
  have "length (map unat raw) = 20 \<and> (\<forall>x\<in>set (map unat raw). x < 256)" using assms(1) byte_lt by auto
  then obtain d where "convertbits b (map unat raw) 8 5 True = Some d" "convertbits b d 5 8 False = Some (map unat raw)"
    "bech32_decode b (bech32_encode b HRP d) = (Some HRP, Some d)" "take 4 (bech32_encode b HRP d) = HRP @ ''1''"
    using assms(2) [OF Some] unfolding bech_laws_def by blast
  moreover have "bytes_of (map unat raw) = Inr raw" using byte_lt by (auto simp: bytes_of_def not_le intro!: map_idI)
  ultimately show ?thesis using Some by (simp add: to_display_def parse_addr_def)
qed

subsection \<open>Wallets round-trip\<close>

definition nacl_laws :: "nacl \<Rightarrow> bool" where
  "nacl_laws N \<longleftrightarrow> (\<forall>k n m. box_decrypt N k (box_encrypt N k n m) = Some m)"

definition mnem_laws :: "mnem \<Rightarrow> bool" where
  "mnem_laws m \<longleftrightarrow> (\<forall>sk. length sk = 32 \<longrightarrow>
     mn_check m (to_mnemonic m sk) \<and> to_entropy m (to_mnemonic m sk) = sk \<and> strip (to_mnemonic m sk) = to_mnemonic m sk)"

lemma generate_idem: "length (key_sk (generate P s)) = 32 \<Longrightarrow> generate P (key_sk (generate P s)) = generate P s"
  by (auto simp: generate_def Let_def)

lemma decrypt_encrypt: "nacl_laws N \<Longrightarrow> decrypt_sk N (encrypt_sk N salt nonce sk pw) pw = Inr sk"
  by (simp add: decrypt_sk_def encrypt_sk_def Let_def nacl_laws_def)

lemma write_wallet_cases:
  assumes "write_wallet P N salt nonce path1 k pw fs = Inr (r, fs')"
  obtains addr where "address P (pub k) = Inr addr" "path1 \<notin> fst ` set fs" "w_pub r = pub k" "w_address r = addr"
    "w_enc r = (if pw \<noteq> [] then Some (encrypt_sk N salt nonce (key_sk k) pw) else None)"
    "w_sk r = (if pw \<noteq> [] then None else Some (hex (key_sk k)))"
    "fs' = AList.update path1 \<lparr>wf_rec = r, wf_mode = 384\<rparr> fs"
  using assms by (auto simp: write_wallet_def Let_def res_simps)

text \<open>A new file is private, the others are as before, and loading gives the key and the record back.\<close>

lemma write_wallet_load:
  assumes w: "write_wallet P N salt nonce path1 (generate P sd) pw fs = Inr (r, fs')" and N: "nacl_laws N"
    and l: "length (key_sk (generate P sd)) = 32"
  shows "wallet_load P N path1 pw fs' = Inr (generate P sd, r) \<and> map_of fs path1 = None \<and>
    map_option wf_mode (map_of fs' path1) = Some 384 \<and> (\<forall>q. q \<noteq> path1 \<longrightarrow> map_of fs' q = map_of fs q)"
proof (rule write_wallet_cases [OF w])
  fix addr assume r: "path1 \<notin> fst ` set fs" "w_pub r = pub (generate P sd)"
    "w_enc r = (if pw \<noteq> [] then Some (encrypt_sk N salt nonce (key_sk (generate P sd)) pw) else None)"
    "w_sk r = (if pw \<noteq> [] then None else Some (hex (key_sk (generate P sd))))"
    "fs' = AList.update path1 \<lparr>wf_rec = r, wf_mode = 384\<rparr> fs"
  have none: "map_of fs path1 = None" using r(1) by (simp add: map_of_eq_None_iff)
  have "map_of fs' path1 = Some \<lparr>wf_rec = r, wf_mode = 384\<rparr>" by (simp add: r(5) update_conv')
  then have "wallet_load P N path1 pw fs' = Inr (generate P sd, r)"
    by (simp add: wallet_load_def r(2-4) decrypt_encrypt [OF N] generate_idem [OF l])
  then show ?thesis using none by (simp add: r(5) update_conv')
qed

lemma create_load:
  assumes "wallet_create P N lib urandom salt nonce src path1 fs = Inr ((r, words), fs')" and "nacl_laws N"
    and "length (key_sk (generate P urandom)) = 32"
  shows "\<exists>pw. read_passphrase src = Inr pw \<and> wallet_load P N path1 pw fs' = Inr (generate P urandom, r) \<and>
    map_of fs path1 = None \<and> map_option wf_mode (map_of fs' path1) = Some 384 \<and> (\<forall>q. q \<noteq> path1 \<longrightarrow> map_of fs' q = map_of fs q)"
  using assms(1) write_wallet_load [OF _ assms(2,3)] by (fastforce simp: wallet_create_def Let_def res_simps)

text \<open>The recovery words alone restore the wallet, on another machine and under another passphrase.\<close>

lemma restore_words:
  assumes c: "wallet_create P N (Some m) urandom salt nonce src path1 fs = Inr ((r, words), fs')" and m: "mnem_laws m"
    and N: "nacl_laws N" and l: "length (key_sk (generate P urandom)) = 32"
    and q: "q \<notin> fst ` set gs" "CHR ''/'' \<in> set q"
  shows "\<exists>ws r' gs'. words = Some ws \<and> wallet_restore P N (Some m) salt' nonce' ws pw' q gs = Inr (r', gs') \<and>
    wallet_load P N q pw' gs' = Inr (generate P urandom, r') \<and> w_address r' = w_address r"
proof -
  let ?k = "generate P urandom"
  have words: "words = Some (to_mnemonic m (key_sk ?k))"
    using c by (auto simp: wallet_create_def mnemonic_for_def Let_def res_simps)
  from c obtain pw where w: "write_wallet P N salt nonce path1 ?k pw fs = Inr (r, fs')"
    by (auto simp: wallet_create_def Let_def res_simps)
  then obtain addr where a: "address P (pub ?k) = Inr addr" "w_address r = addr" by (rule write_wallet_cases) auto
  have "\<exists>r' gs'. write_wallet P N salt' nonce' q ?k pw' gs = Inr (r', gs') \<and> w_address r' = addr"
    using q a(1) by (auto simp: write_wallet_def Let_def)
  then obtain r' gs' where w': "write_wallet P N salt' nonce' q ?k pw' gs = Inr (r', gs')" and a': "w_address r' = addr" by blast
  have "wallet_restore P N (Some m) salt' nonce' (to_mnemonic m (key_sk ?k)) pw' q gs = Inr (r', gs')"
    using m l q(1) w' by (simp add: wallet_restore_def mnem_laws_def generate_idem)
  then show ?thesis using words write_wallet_load [OF w' N l] a a' by auto
qed

subsection \<open>The ledger accepts what the wallet signs\<close>

lemma send_tx_applies:
  assumes "sig_correct P" and "key_pk k = ed_pub P (key_sk k)" and "w_pub r = pub k" and "address P (pub k) = Inr src"
    and "parse_addr lib dest = Inr addr" and "0 < amount" and "amount \<le> balance led src"
  shows "\<exists>tx led'. send_tx P lib k r dest amount (dict_get (nonces led) src 0) = Inr tx \<and>
    apply_transfer P tx led = Inr (True, led') \<and> tr_to_addr tx = addr \<and> tr_amount tx = amount"
proof -
  let ?t = "\<lparr>tr_from_pub = pub k, tr_to_addr = addr, tr_amount = amount, tr_nonce = dict_get (nonces led) src 0, tr_sig = []\<rparr> :: transfer_tx"
  let ?tx = "?t\<lparr>tr_sig := sign P k (tr_signing_bytes ?t)\<rparr>"
  have "send_tx P lib k r dest amount (dict_get (nonces led) src 0) = Inr ?tx"
    using assms(3,5) by (simp add: send_tx_def tr_signed_def)
  moreover have "tr_verify P ?tx" using verify_sign [OF assms(1,2)] by (simp add: tr_verify_def tr_signing_bytes_def tr_fields_def)
  then have "\<exists>led'. apply_transfer P ?tx led = Inr (True, led')"
    using assms(4,6,7) by (auto simp: apply_transfer_def balance_def debit_def dict_get_def Let_def split: option.splits)
  ultimately show ?thesis by fastforce
qed

subsection \<open>A custody bond names its holder and pages\<close>

lemma custody_commit_inject:
  assumes "CHR ''|'' \<notin> set p" and "CHR ''|'' \<notin> set q" and eq: "custody_commit p xs = custody_commit q ys"
  shows "p = q \<and> xs = ys"
proof -
  have c: "p @ CHR ''|'' # join '','' (map int_str xs) = q @ CHR ''|'' # join '','' (map int_str ys)"
    using eq by (simp add: custody_commit_def)
  have "p = takeWhile (\<lambda>c. c \<noteq> CHR ''|'') (p @ CHR ''|'' # r)" if "CHR ''|'' \<notin> set p" for p r
    using that by (subst takeWhile_append2) auto
  from this [OF assms(1)] this [OF assms(2)] c have pq: "p = q" by metis
  then have j: "join '','' (map int_str xs) @ CHR '']'' # [] = join '','' (map int_str ys) @ CHR '']'' # []" using c by simp
  have hd: "int_str x @ r \<noteq> CHR '']'' # s" for x r s
    using nat_str_Cons_digit [of "nat x"] by (auto simp: int_str_def is_digit_def)
  have "xs = ys \<and> [] = ([] :: string)"
    by (rule join_inject [OF refl _ _ _ hd j]) (use int_str_prefix_free in \<open>auto simp: is_digit_def\<close>)
  then show ?thesis using pq by simp
qed

subsection \<open>What a confirmation means\<close>

lemma submit_confirmed:
  "wallet_submit mk as sent = (sent', Inr out) \<Longrightarrow>
    \<exists>a\<in>set as. \<exists>tx. at_out a = out \<and> mk (at_nonce a) = Inr tx \<and> last sent' = tx \<and> (\<exists>n\<in>set (at_polls a). at_nonce a < n)"
  by (induction mk as sent rule: wallet_submit.induct) (auto simp: list_ex_iff split: sum.splits if_splits)

lemma submit_bounded: "length (fst (wallet_submit mk as sent)) \<le> length sent + length as"
proof (induction mk as sent rule: wallet_submit.induct)
  case (2 mk a rest sent)
  then show ?case by (fastforce split: sum.splits)
qed simp

text \<open>A rival transaction with the same nonce: the loop confirms, the ledger refuses.\<close>

lemma confirmed_but_refused:
  assumes rival: "apply_transfer P rv led = Inr (True, led')" and src: "address P (tr_from_pub rv) = Inr src"
    and ours: "send_tx P lib k r dest amount (dict_get (nonces led) src 0) = Inr tx" and same: "address P (w_pub r) = Inr src"
  shows "wallet_submit (send_tx P lib k r dest amount)
      [\<lparr>at_nonce = dict_get (nonces led) src 0, at_out = out, at_polls = [dict_get (nonces led') src 0]\<rparr>] [] = ([tx], Inr out) \<and>
    apply_transfer P tx led' = Inr (False, led')"
proof -
  have n: "dict_get (nonces led') src 0 = dict_get (nonces led) src 0 + 1"
    using apply_transfer_effect [OF rival] src by auto
  have tx: "tr_from_pub tx = w_pub r" "tr_nonce tx = dict_get (nonces led) src 0"
    using ours by (auto simp: send_tx_def tr_signed_def res_simps split: if_splits)
  then have "apply_transfer P tx led' = Inr (False, led')" using same n by (simp add: apply_transfer_def)
  then show ?thesis using ours n by simp
qed

end
