(* ===== verification/Integrated.thy ===== *)
theory Integrated
  imports Beacon Erasure Chain
begin

section \<open>Beacon, availability and chain in one loop (rig/integrated.py)\<close>

text \<open>
  \<^verbatim>\<open>IntegratedChain.round\<close> wires the threshold beacon, the erasure-coded availability layer and the aggregation together. The record \<open>int_env\<close> holds
  what comes from numpy and from training, each a function of the seed the code derives: the leader draw, the miner's body, the
  improvement of the loss, the sampled shard indices. Results: the outcome of a round does not depend on which quorum signed; a miner that disperses nothing is never
  included, and every included body can be rebuilt from any three of its nine shards; the blocks stay hash-linked.
\<close>

subsection \<open>Definitions\<close>

definition int_include_k :: nat where "int_include_k = 4"
definition DA_K :: nat where "DA_K = 3"
definition DA_N :: nat where "DA_N = 9"

record 's int_env =
  env_leader :: "nat \<Rightarrow> nat \<Rightarrow> int"
  env_work :: "nat \<Rightarrow> nat \<Rightarrow> weights \<Rightarrow> weights"
  env_score :: "nat \<Rightarrow> weights \<Rightarrow> weights \<Rightarrow> 's res"
  env_picks :: "nat \<Rightarrow> nat list"

text \<open>The seed of \<^verbatim>\<open>beacon_rng(group_sig, tag)\<close>.\<close>

definition beacon_seed :: "prims \<Rightarrow> ('a, 'b, 'c) bls \<Rightarrow> 'b \<Rightarrow> string \<Rightarrow> nat" where
  "beacon_seed P C gsig tag = be_val (take 8 (sha256 P (randomness P C gsig @ encode tag)))"

record int_block =
  ib_height :: nat
  ib_prev_hash :: string
  ib_beacon_hex :: string
  ib_leader :: int
  ib_state_root :: string
  ib_da_roots :: "string list"
  ib_miner_ids :: "nat list"

definition ib_hash :: "prims \<Rightarrow> int_block \<Rightarrow> string" where
  "ib_hash P b = sha_hex P (encode (nat_str (ib_height b) @ ''|'' @ ib_prev_hash b @ ''|'' @ ib_beacon_hex b @ ''|'' @
     int_str (ib_leader b) @ ''|'' @ ib_state_root b @ ''|'' @ join ''.'' (ib_da_roots b)))"

record 'a integrated =
  ic_keys :: "'a beacon_keys"
  ic_n :: nat
  ic_w_int :: weights
  ic_blocks :: "int_block list"
  ic_genesis :: weights
  ic_withholders :: "nat set"

definition ic_head_hash :: "prims \<Rightarrow> 'a integrated \<Rightarrow> string" where
  "ic_head_hash P c = (if ic_blocks c = [] then replicate 64 CHR ''0'' else ib_hash P (last (ic_blocks c)))"

definition quorum_partial ::
  "('a, 'b, 'c) bls \<Rightarrow> 'a beacon_keys \<Rightarrow> int \<Rightarrow> int \<Rightarrow> (int, 'b) dict \<Rightarrow> (int, 'b) dict res" where
  "quorum_partial C keys r i partials =
     (case map_of (shares keys) i of
        None \<Rightarrow> Inl KeyError
      | Some s \<Rightarrow> Inr (AList.update i (partial_sign C s r) partials))"

text \<open>One miner of the loop: train, disperse, sample, score.\<close>

definition int_candidate ::
  "prims \<Rightarrow> 's::linordered_ab_group_add int_env \<Rightarrow> nat \<Rightarrow> nat \<Rightarrow> nat \<Rightarrow> nat set \<Rightarrow> weights \<Rightarrow> nat \<Rightarrow>
   ('s \<times> nat \<times> weights \<times> string) list \<Rightarrow> ('s \<times> nat \<times> weights \<times> string) list res" where
  "int_candidate P env shard_seed eval_seed r withholders w m cands =
     (let body = env_work env shard_seed m w
      in bindE (disperse P (tobytes body) DA_K DA_N) (\<lambda>blob.
         let available = (if m \<in> withholders then [] else map (\<lambda>i. (i, db_shards blob ! i)) [0..<DA_N])
         in bindE (sample_available P available blob (env_picks env (r * 100 + m))) (\<lambda>ok.
            if \<not> ok then Inr cands
            else bindE (env_score env eval_seed w body) (\<lambda>s.
                 Inr (if 0 < s then cands @ [(s, m, body, da_pointer (blob_root blob))] else cands)))))"

definition int_round ::
  "prims \<Rightarrow> ('a, 'b, 'c) bls \<Rightarrow> 's::linordered_ab_group_add int_env \<Rightarrow> int list \<Rightarrow> 'a integrated \<Rightarrow>
   (int_block \<times> 'a integrated) res" where
  "int_round P C env given c =
     (let r = length (ic_blocks c) + 1;
          quorum = (if given = [] then [1..int (key_t (ic_keys c))] else given)
      in bindE (foldE (quorum_partial C (ic_keys c) (int r)) quorum []) (\<lambda>partials.
         bindE (combine C partials) (\<lambda>og.
         case og of
           None \<Rightarrow> Inl TypeError
         | Some gsig \<Rightarrow>
             bindE (raise_if (ic_n c = 0) ValueError) (\<lambda>_.
             bindE (foldE (int_candidate P env (beacon_seed P C gsig ''shards'') (beacon_seed P C gsig ''eval'') r
                      (ic_withholders c) (ic_w_int c)) [0..<ic_n c] []) (\<lambda>cands.
             let chosen = take int_include_k (sort_key (\<lambda>(s, m, body, ptr). (- s, m)) cands)
             in bindE (outer_step (ic_w_int c) (map (\<lambda>(s, m, body, ptr). body) chosen)) (\<lambda>w.
                let b = \<lparr>ib_height = r, ib_prev_hash = ic_head_hash P c, ib_beacon_hex = hex (randomness P C gsig),
                         ib_leader = env_leader env (beacon_seed P C gsig ''leader'') (ic_n c), ib_state_root = state_root P w,
                         ib_da_roots = map (\<lambda>(s, m, body, ptr). ptr) chosen,
                         ib_miner_ids = map (\<lambda>(s, m, body, ptr). m) chosen\<rparr>
                in Inr (b, c\<lparr>ic_w_int := w, ic_blocks := ic_blocks c @ [b]\<rparr>)))))))"

fun int_linked :: "prims \<Rightarrow> string \<Rightarrow> int_block list \<Rightarrow> bool" where
  "int_linked P prev [] = True"
| "int_linked P prev (b # bs) = (if ib_prev_hash b \<noteq> prev then False else int_linked P (ib_hash P b) bs)"

definition int_replay :: "prims \<Rightarrow> 'a integrated \<Rightarrow> bool" where
  "int_replay P c = int_linked P (replicate 64 CHR ''0'') (ic_blocks c)"

definition int_new_chain :: "prims \<Rightarrow> ('a, 'b, 'c) bls \<Rightarrow> nat \<Rightarrow> nat \<Rightarrow> bytes \<Rightarrow> weights \<Rightarrow> 'a integrated res" where
  "int_new_chain P C n t sd w0 =
     bindE (run_dkg P C n t sd) (\<lambda>keys.
     Inr \<lparr>ic_keys = keys, ic_n = n, ic_w_int = w0, ic_blocks = [], ic_genesis = w0, ic_withholders = {}\<rparr>)"

subsection \<open>Any quorum, the same round\<close>

lemma quorum_combines:
  assumes L: "bls_laws C dl1 dl2" and K: "keys_ok C dl1 f keys" and n: "int (key_n keys) < curve_order C"
    and t: "0 < key_t keys" "key_t keys \<le> card (set Q)" and Q: "set Q \<subseteq> {1..int (key_n keys)}"
  shows "\<exists>ps g. foldE (quorum_partial C keys r) Q [] = Inr ps \<and> combine C ps = Inr (Some g) \<and>
    dl2 g mod curve_order C = dl2 (round_point C r) * f 0 mod curve_order C"
proof -
  let ?g = "\<lambda>i. partial_sign C (the (map_of (shares keys) i)) r"
  obtain ks where ks: "foldE (signed_by C keys r) Q [] = Inr (map (\<lambda>i. (i, ?g i)) ks)" "distinct ks" "set ks = set Q"
    using signers_ok [OF L K Q, of "[]" r] by auto
  have "quorum_partial C keys r i ps = signed_by C keys r i ps" if "i \<in> set Q" for i ps
  proof -
    have i: "i \<in> {1..int (key_n keys)}" using that Q by blast
    then obtain s where "map_of (shares keys) i = Some s" using K unfolding keys_ok_def by blast
    then show ?thesis using signed_by_ok(1) [OF L K i, of r ps] by (simp add: quorum_partial_def)
  qed
  then have "foldE (quorum_partial C keys r) Q [] = foldE (signed_by C keys r) Q []" by (intro foldE_cong) simp_all
  moreover have "\<exists>b. combine C (map (\<lambda>i. (i, ?g i)) ks) = Inr (Some b) \<and>
      dl2 b mod curve_order C = dl2 (round_point C r) * f 0 mod curve_order C"
  proof (rule combine_ok [OF L ks(2)])
    have len: "length ks = card (set Q)" using ks(2,3) distinct_card by metis
    then show "ks \<noteq> []" using t by auto
    show "\<forall>x\<in>set ks. \<forall>y\<in>set ks. x \<noteq> y \<longrightarrow> \<not> curve_order C dvd x - y"
      using ks(3) Q small_incongruent n by blast
    show "polyfun (length ks) f" using K t(2) len polyfun_mono [of "key_t keys" f "length ks"] by (simp add: keys_ok_def)
    show "dl2 (?g i) mod curve_order C = dl2 (round_point C r) * f i mod curve_order C" if "i \<in> set ks" for i
      by (rule signed_by_ok(2) [OF L K]) (use ks(3) Q that in blast)
  qed
  ultimately show ?thesis using ks(1) by auto
qed

lemma round_quorum_free:
  assumes L: "bls_laws C dl1 dl2" and K: "keys_ok C dl1 f (ic_keys c)" and n: "int (key_n (ic_keys c)) < curve_order C"
    and t: "0 < key_t (ic_keys c)"
    and Q: "key_t (ic_keys c) \<le> card (set Q)" "set Q \<subseteq> {1..int (key_n (ic_keys c))}"
    and R: "key_t (ic_keys c) \<le> card (set R)" "set R \<subseteq> {1..int (key_n (ic_keys c))}"
  shows "int_round P C env Q c = int_round P C env R c"
proof -
  let ?r = "int (length (ic_blocks c) + 1)"
  obtain qs g where q: "foldE (quorum_partial C (ic_keys c) ?r) Q [] = Inr qs" "combine C qs = Inr (Some g)"
    "dl2 g mod curve_order C = dl2 (round_point C ?r) * f 0 mod curve_order C"
    using quorum_combines [OF L K n t Q] by blast
  obtain rs h where h: "foldE (quorum_partial C (ic_keys c) ?r) R [] = Inr rs" "combine C rs = Inr (Some h)"
    "dl2 h mod curve_order C = dl2 (round_point C ?r) * f 0 mod curve_order C"
    using quorum_combines [OF L K n t R] by blast
  have "randomness P C g = randomness P C h" using bls_lawsD(9) [OF L, of g h] q(3) h(3) by (simp add: randomness_def)
  then have "beacon_seed P C g = beacon_seed P C h" by (simp add: beacon_seed_def fun_eq_iff)
  moreover have "Q \<noteq> []" "R \<noteq> []" using t Q(1) R(1) by auto
  ultimately show ?thesis
    using q h \<open>randomness P C g = randomness P C h\<close> unfolding int_round_def Let_def by (simp only: if_False bindE_Inr option.case)
qed

subsection \<open>Availability decides inclusion\<close>

definition int_fit :: "prims \<Rightarrow> 's int_env \<Rightarrow> nat \<Rightarrow> weights \<Rightarrow> nat set \<Rightarrow> 's \<times> nat \<times> weights \<times> string \<Rightarrow> bool" where
  "int_fit P env ss w ms e \<longleftrightarrow> (case e of (s, m, body, ptr) \<Rightarrow> m \<in> ms \<and> body = env_work env ss m w \<and>
      (\<exists>blob. disperse P (tobytes body) DA_K DA_N = Inr blob \<and> ptr = da_pointer (blob_root blob)))"

lemma candidates_ok:
  assumes picks: "\<And>x. env_picks env x \<noteq> []"
  shows "foldE (int_candidate P env ss es r W w) ms cands = Inr cands' \<Longrightarrow>
    set cands' \<subseteq> set cands \<union> Collect (int_fit P env ss w (set ms - W))"
proof (induction ms arbitrary: cands)
  case (Cons m ms)
  from Cons.prems obtain c1 where s: "int_candidate P env ss es r W w m cands = Inr c1"
    and f: "foldE (int_candidate P env ss es r W w) ms c1 = Inr cands'" by (auto simp: res_simps)
  obtain blob where blob: "disperse P (tobytes (env_work env ss m w)) DA_K DA_N = Inr blob"
    using s by (auto simp: int_candidate_def Let_def res_simps)
  obtain x xs where px: "env_picks env (r * 100 + m) = x # xs" using picks by (metis list.exhaust)
  have "c1 = cands \<or> m \<notin> W \<and> (\<exists>sc. c1 = cands @ [(sc, m, env_work env ss m w, da_pointer (blob_root blob))])"
    using s blob px by (auto simp: int_candidate_def Let_def res_simps split: if_splits)
  then have "set c1 \<subseteq> set cands \<union> Collect (int_fit P env ss w (set (m # ms) - W))"
    using blob by (auto simp: int_fit_def)
  moreover have "Collect (int_fit P env ss w (set ms - W)) \<subseteq> Collect (int_fit P env ss w (set (m # ms) - W))"
    by (auto simp: int_fit_def)
  ultimately show ?case using Cons.IH [OF f] by blast
qed simp

lemma round_available:
  assumes picks: "\<And>x. env_picks env x \<noteq> []" and r: "int_round P C env Q c = Inr (b, c')"
  shows "set (ib_miner_ids b) \<subseteq> {0..<ic_n c} - ic_withholders c \<and> length (ib_miner_ids b) \<le> 4 \<and>
    length (ib_da_roots b) = length (ib_miner_ids b) \<and>
    (\<forall>ptr\<in>set (ib_da_roots b). \<exists>body blob. disperse P body DA_K DA_N = Inr blob \<and> ptr = da_pointer (blob_root blob))"
proof -
  from r obtain ss es cands where f: "foldE (int_candidate P env ss es (length (ic_blocks c) + 1) (ic_withholders c) (ic_w_int c)) [0..<ic_n c] [] = Inr cands"
    and b: "ib_miner_ids b = map (\<lambda>(s, m, body, ptr). m) (take int_include_k (sort_key (\<lambda>(s, m, body, ptr). (- s, m)) cands))"
      "ib_da_roots b = map (\<lambda>(s, m, body, ptr). ptr) (take int_include_k (sort_key (\<lambda>(s, m, body, ptr). (- s, m)) cands))"
    by (auto simp: int_round_def Let_def res_simps split: option.splits)
  have sub: "set (take int_include_k (sort_key (\<lambda>(s, m, body, ptr). (- s, m)) cands)) \<subseteq> set cands"
    by (metis set_sort set_take_subset)
  let ?ch = "take int_include_k (sort_key (\<lambda>(s, m, body, ptr). (- s, m)) cands)"
  have fit: "int_fit P env ss (ic_w_int c) ({0..<ic_n c} - ic_withholders c) e" if "e \<in> set ?ch" for e
    using candidates_ok [OF picks f] sub that by auto
  have "m \<in> {0..<ic_n c} - ic_withholders c" if "m \<in> set (ib_miner_ids b)" for m
    using that fit unfolding b by (fastforce simp: int_fit_def)
  moreover have "\<exists>body blob. disperse P body DA_K DA_N = Inr blob \<and> ptr = da_pointer (blob_root blob)" if "ptr \<in> set (ib_da_roots b)" for ptr
    using that fit unfolding b by (fastforce simp: int_fit_def)
  moreover have "length (ib_miner_ids b) \<le> 4 \<and> length (ib_da_roots b) = length (ib_miner_ids b)"
    by (simp add: b int_include_k_def)
  ultimately show ?thesis by blast
qed

text \<open>What the float side has to provide: shard indices in range, bodies of the size of the model, scores.\<close>

definition int_env_ok :: "'s int_env \<Rightarrow> bool" where
  "int_env_ok env \<longleftrightarrow> (\<forall>x. env_picks env x \<noteq> [] \<and> set (env_picks env x) \<subseteq> {0..<DA_N})
     \<and> (\<forall>ss m w. length (env_work env ss m w) = length w) \<and> (\<forall>es w d. \<exists>s. env_score env es w d = Inr s)"

lemma int_candidate_returns:
  assumes "int_env_ok env"
  shows "\<exists>cands'. int_candidate P env ss es r W w m cands = Inr cands'"
proof -
  let ?body = "env_work env ss m w" and ?picks = "env_picks env (r * 100 + m)"
  obtain blob where blob: "disperse P (tobytes ?body) DA_K DA_N = Inr blob"
    using disperse_returns [of DA_K DA_N] by (auto simp: DA_K_def DA_N_def)
  have "\<exists>ok. sample_available P (if m \<in> W then [] else map (\<lambda>i. (i, db_shards blob ! i)) [0..<DA_N]) blob ?picks = Inr ok"
  proof (cases "m \<in> W")
    case True
    then show ?thesis by (cases ?picks) auto
  next
    case False
    have "map_of (map (\<lambda>i. (i, g i)) xs) i = (if i \<in> set xs then Some (g i) else None)" for g :: "nat \<Rightarrow> bytes" and xs i
      by (induction xs) auto
    then have "\<forall>i\<in>set ?picks. i < DA_N \<and> map_of (map (\<lambda>i. (i, db_shards blob ! i)) [0..<DA_N]) i = Some (db_shards blob ! i)"
      using assms by (auto simp: int_env_ok_def subset_iff)
    from sample_healthy [OF blob this] False show ?thesis by auto
  qed
  moreover obtain sc where "env_score env es w ?body = Inr sc" using assms unfolding int_env_ok_def by blast
  ultimately show ?thesis using blob by (auto simp: int_candidate_def Let_def)
qed

lemma outer_step_returns: "\<forall>d\<in>set ds. length d = length w \<Longrightarrow> \<exists>w'. outer_step w ds = Inr w' \<and> length w' = length w"
  by (cases ds) (auto simp: outer_step_def trimmed_mean_int_def vec_add_def)

lemma round_returns:
  assumes L: "bls_laws C dl1 dl2" and K: "keys_ok C dl1 f (ic_keys c)" and n: "int (key_n (ic_keys c)) < curve_order C"
    and t: "0 < key_t (ic_keys c)" and Q: "key_t (ic_keys c) \<le> card (set Q)" "set Q \<subseteq> {1..int (key_n (ic_keys c))}"
    and env: "int_env_ok env" and m: "0 < ic_n c"
  shows "\<exists>b c'. int_round P C env Q c = Inr (b, c') \<and> length (ic_w_int c') = length (ic_w_int c)"
proof -
  obtain qs g where q: "foldE (quorum_partial C (ic_keys c) (int (length (ic_blocks c) + 1))) Q [] = Inr qs" "combine C qs = Inr (Some g)"
    using quorum_combines [OF L K n t Q] by blast
  have "Q \<noteq> []" using t Q(1) by auto
  let ?f = "int_candidate P env (beacon_seed P C g ''shards'') (beacon_seed P C g ''eval'') (length (ic_blocks c) + 1) (ic_withholders c) (ic_w_int c)"
  have "\<exists>cands'. foldE ?f ms cands = Inr cands'" for ms cands
    by (induction ms arbitrary: cands) (use int_candidate_returns [OF env] in \<open>auto simp: bindE_eq_Inr, metis\<close>)
  then obtain cands where f: "foldE ?f [0..<ic_n c] [] = Inr cands" by blast
  let ?ch = "take int_include_k (sort_key (\<lambda>(s, m, body, ptr). (- s, m)) cands)"
  have "\<forall>x. env_picks env x \<noteq> []" using env by (simp add: int_env_ok_def)
  with candidates_ok [OF _ f] have "set cands \<subseteq> Collect (int_fit P env (beacon_seed P C g ''shards'') (ic_w_int c) (set [0..<ic_n c] - ic_withholders c))"
    by auto
  moreover have "set ?ch \<subseteq> set cands" by (metis set_sort set_take_subset)
  ultimately have "\<forall>d\<in>set (map (\<lambda>(s, m, body, ptr). body) ?ch). length d = length (ic_w_int c)"
    using env by (fastforce simp: int_fit_def int_env_ok_def)
  from outer_step_returns [OF this] obtain w where "outer_step (ic_w_int c) (map (\<lambda>(s, m, body, ptr). body) ?ch) = Inr w" "length w = length (ic_w_int c)"
    by blast
  then show ?thesis using q f m \<open>Q \<noteq> []\<close> by (simp add: int_round_def Let_def)
qed

subsection \<open>The blocks stay linked\<close>

inductive int_reach :: "prims \<Rightarrow> ('a, 'b, 'c) bls \<Rightarrow> 's::linordered_ab_group_add int_env \<Rightarrow> nat \<Rightarrow> nat \<Rightarrow> 'a integrated \<Rightarrow> bool"
  for P C env n t where
  int_start: "int_new_chain P C n t sd w0 = Inr c \<Longrightarrow> int_reach P C env n t c"
| int_step: "int_reach P C env n t c \<Longrightarrow> int_round P C env Q c = Inr (b, c') \<Longrightarrow> int_reach P C env n t c'"
| int_withhold: "int_reach P C env n t c \<Longrightarrow> int_reach P C env n t (c\<lparr>ic_withholders := W\<rparr>)"

lemma int_linked_snoc:
  "int_linked P prev (bs @ [b]) \<longleftrightarrow> int_linked P prev bs \<and> ib_prev_hash b = (if bs = [] then prev else ib_hash P (last bs))"
  by (induction bs arbitrary: prev) auto

lemma int_round_effect:
  assumes "int_round P C env Q c = Inr (b, c')"
  shows "ic_blocks c' = ic_blocks c @ [b] \<and> ib_prev_hash b = ic_head_hash P c \<and> ib_height b = Suc (length (ic_blocks c)) \<and>
    ib_state_root b = state_root P (ic_w_int c') \<and> ic_keys c' = ic_keys c \<and> ic_n c' = ic_n c"
  using assms by (auto simp: int_round_def Let_def res_simps split: option.splits)

lemma int_reach_ok:
  assumes "int_reach P C env n t c" and L: "bls_laws C dl1 dl2" and t: "0 < t" "t \<le> 256" and n: "0 < n" "n < 256"
  shows "int_replay P c \<and> map ib_height (ic_blocks c) = [1..<Suc (length (ic_blocks c))] \<and>
    (ic_blocks c \<noteq> [] \<longrightarrow> ib_state_root (last (ic_blocks c)) = state_root P (ic_w_int c)) \<and>
    ic_n c = n \<and> (\<exists>f. keys_ok C dl1 f (ic_keys c) \<and> key_t (ic_keys c) = t \<and> key_n (ic_keys c) = n)"
  using assms(1)
proof induction
  case (int_start sd w0 c)
  obtain keys f where "run_dkg P C n t sd = Inr keys" "keys_ok C dl1 f keys" "key_t keys = t" "key_n keys = n"
    using run_dkg_ok [OF L t n] by blast
  then show ?case using int_start by (auto simp: int_new_chain_def int_replay_def)
next
  case (int_step c Q b c')
  from int_round_effect [OF int_step(2)] int_step(3) show ?case
    by (auto simp: int_replay_def int_linked_snoc ic_head_hash_def)
next
  case (int_withhold c W)
  then show ?case by (simp add: int_replay_def)
qed

end
