(* ===== verification/Spec2Isabelle.thy ===== *)
theory Spec2Isabelle
  imports Example Lanes Commitments Model_Props Corpus Storage Sketch Content_Store Fraud Chain_Layout Beacon Client_Props Coordinator Ed25519 Wallet Integrated
begin

text \<open>
  \<^bold>\<open>Sestrian: a chain whose state is a model's weights.\<close>

  Miners train a shared model on their own data and submit signed integer updates (deltas). Proposers, chosen by a
  stake-weighted lottery, aggregate the deltas of a block by a trimmed mean, page by page, and extend a hash-linked block tree.
  A token ledger beside the weights pays miners, proposers and data owners, holds stakes and bonds, and settles challenges. Bodies are
  erasure-coded, weights are committed in Merkle trees, wrong pages are disputed by fraud proofs, randomness comes from a threshold beacon, and nodes
  gossip. This development models the Python of \<^verbatim>\<open>rig/\<close> and \<^verbatim>\<open>client/\<close> that decides about that state.

  \<^bold>\<open>Conventions.\<close> A class with state is a record, an operation a function from the state to a result and the new
  state; a Python exception is the left summand of \<open>'a res\<close> (\<open>Prelude\<close>), so an early return and a raise are branches of the definition. Dictionaries that
  are iterated are association lists in insertion order; numpy \<^verbatim>\<open>int64\<close> vectors are lists of \<open>int\<close> with \<open>wrap64\<close> written at every operation that can overflow;
  bytes are \<open>8 word list\<close>. SHA-256 and the Ed25519 primitives are the record \<open>prims\<close>, an argument of everything that hashes or signs; the pairing library
  is the record \<open>bls\<close> with the laws \<open>bls_laws\<close>. Nothing assumes that a hash is injective: where the code relies on collision resistance the conclusion is
  ``or these inputs collide'' (\<open>collides_on\<close>, \<open>hash_broken\<close>), with the finite set of inputs named. Floating-point code enters as a function argument.

  \<^bold>\<open>Theories, in the order of dependency.\<close>

  \<^item> \<open>Prelude\<close>: the error type and its monad, dictionaries, generic list and integer lemmas, and the locales \<open>inv_step\<close>, \<open>valued_step\<close>
    and \<open>conserving_step\<close>: what a loop keeps when each step keeps it. They are interpreted on bond and challenge settlement, payouts, bond locking,
    the account lane, the window fold, the retarget simulation and the page loop. \<open>Encoding\<close>, \<open>Json\<close>, \<open>Json_Parse\<close>: byte order, hexadecimal, UTF-8,
    canonical JSON, its parser and their round trip.
  \<^item> \<open>Crypto\<close> (\<^verbatim>\<open>rig/crypto.py\<close>): framing, keys, the signed delta. \<open>Ed25519\<close> (\<^verbatim>\<open>rig/ed25519.py\<close>): the reference signature code; lengths,
    reduced coordinates, totality of signing and verification.
  \<^item> \<open>Token\<close>, \<open>Token_Props\<close>, \<open>Ledger_Props\<close> (\<^verbatim>\<open>rig/token.py\<close>): five kinds of transactions, the ledger with every operation, emission;
    well-formedness, conservation, nonces, quorums.
  \<^item> \<open>Capacity\<close> (\<^verbatim>\<open>rig/capacity.py\<close>): the retarget rule as a \<open>quota_controller\<close>, its simulation. \<open>Model_State\<close>, \<open>Model_Props\<close> (\<^verbatim>\<open>rig/model_state.py\<close>): pages, the consensus
    fold, growth, its invariant and the growth gate.
  \<^item> \<open>Chain\<close> (\<^verbatim>\<open>rig/chain.py\<close>): the trimmed mean, the paged transition, the single-writer chain. \<open>Merkle\<close> (\<^verbatim>\<open>rig/merkle.py\<close>): trees and openings, an instance
    of \<open>authenticated_vector\<close>. \<open>Lottery\<close>, \<open>Lanes\<close> (\<^verbatim>\<open>rig/lottery.py\<close>, \<^verbatim>\<open>rig/lanes.py\<close>).
  \<^item> \<open>Blockchain\<close>, \<open>Block_Tree\<close> (\<^verbatim>\<open>rig/blockchain.py\<close>): headers, blocks, the token transition, validation with every check in source order, the tree,
    fork choice, pruning, replay, the producer. \<open>Tree_Props\<close>, \<open>Tree_Replay\<close>, \<open>Producer\<close>, \<open>Commitments\<close>: the invariant of all reachable trees,
    replay, producer/validator symmetry, what hashes bind. \<open>Example\<close>: a small concrete chain used by the witnesses.
  \<^item> \<open>Field256\<close>, \<open>Matrix_Inverse\<close>, \<open>Poly_Roots\<close>, \<open>Erasure\<close> (\<^verbatim>\<open>rig/da.py\<close>): the field, Gauss-Jordan, Vandermonde coding. \<open>Corpus\<close> (\<^verbatim>\<open>rig/corpus.py\<close>): chunked manifests.
  \<^item> \<open>Storage\<close> (\<^verbatim>\<open>rig/storage.py\<close>): the chain directory as text lines and array files. \<open>Coordinator\<close> (\<^verbatim>\<open>rig/node.py\<close>, \<^verbatim>\<open>rig/async_node.py\<close>): the synchronous round
    over that directory and the simulator of late deltas.
  \<^item> \<open>Wire\<close> (\<^verbatim>\<open>rig/protocol.py\<close>, \<^verbatim>\<open>client/compress.py\<close>, framing of \<^verbatim>\<open>client/miner_bridge.py\<close>), \<open>Content_Store\<close> (\<^verbatim>\<open>client/cas.py\<close>, an instance of \<open>content_addressed\<close>), \<open>Sketch\<close> (\<^verbatim>\<open>rig/sketch.py\<close>),
    \<open>Fraud\<close> (\<^verbatim>\<open>rig/fraud.py\<close>), \<open>Chain_Layout\<close> (\<^verbatim>\<open>client/moe.py\<close>), \<open>Beacon\<close> (\<^verbatim>\<open>rig/beacon.py\<close>, \<^verbatim>\<open>rig/dkg.py\<close>).
  \<^item> \<open>Gossip_Sim\<close>, \<open>Gossip_Props\<close> (\<^verbatim>\<open>rig/p2p.py\<close>): nodes, network, partitions; the invariant of reachable networks. \<open>Gossip_Client\<close>, \<open>Client_Props\<close>
    (\<^verbatim>\<open>client/gossip.py\<close>): the client core over compressed payloads.
  \<^item> \<open>Integrated\<close> (\<^verbatim>\<open>rig/integrated.py\<close>): beacon, availability and aggregation in one round. \<open>Wallet\<close> (\<^verbatim>\<open>client/wallet.py\<close>): the key file, addresses,
    transactions and the confirmation loop.

  \<^bold>\<open>This theory\<close> holds the properties that span components, each with a witness at a concrete input. Reachability is inductive: \<open>tree_reach\<close> (all trees from \<open>new_tree\<close> by
  \<open>add_block\<close>), \<open>chain_reach\<close>, \<open>net_reach\<close>, \<open>core_reach\<close>, \<open>bs_reach\<close>, \<open>int_reach\<close>. The groups: the block tree (supply, nonces, agreement, fork choice, append-only history, replay, types), two
  ways around the lottery, gossip, the ledger, aggregation, commitments, model state and lottery, availability, storage and exchange, fraud proofs, the
  beacon, the layout, the integrated loop, the wallet.

  \<^bold>\<open>Loops and bounds.\<close> Loops over data are structural. Erasure coding, tree levels, orphan handling and the elimination are \<open>function\<close>s with
  termination proofs; orphan handling terminates because each landed block leaves the finite set of unseen hashes. Only the walk back to genesis can diverge in the code (a
  cycle of parent hashes): \<open>chain_back\<close> is a \<open>partial_function (option)\<close>, and the properties prove that it returns on every reachable tree. There is no fuel.
  Texts are strings of 8-bit characters, so UTF-8 is modelled for code points below 256.

  \<^bold>\<open>Not modelled.\<close> Float numerics (quantization, training, losses, accuracy, the torch modules, the economic simulations and the red-team experiments, the float write price and stake
  ledger of \<^verbatim>\<open>rig/economics.py\<close>): a model over the reals would prove what IEEE arithmetic does not do. Numpy's random generators, sockets, threads and asyncio loops,
  HTTP front ends, argument parsing, dashboards and report printers: they call the modelled operations and keep no consensus
  state. Scripts: one-off generation of vectors, assets and snapshots. SHA-256, the native Ed25519, the pairing library, NaCl, bech32, BIP39 and pickle are
  not in the repository and are parameters.
\<close>

section \<open>The block tree\<close>

text \<open>C1. Supply cap. In every tree a node can build, the ledger of every known block is well
  formed (no negative balance, stake or bond) and the value it holds, escrowed stakes and bonds
  included, is at most the sum of the emissions up to the block's height.\<close>

theorem supply_cap:
  assumes "tree_reach P w pd dc params t" and "map_of (bt_blocks t) k = Some b"
    and "map_of (bt_ledger t) k = Some led"
  shows "ledger_wf led \<and> ledger_total led \<le> minted (h_height (b_header b))"
  using tree_inv_supply [of P t k "core b" led] tree_reach_inv [OF assms(1)] assms(2,3)
  by (simp add: core_of_def)

theorem supply_cap_witness:
  "\<exists>led. map_of (bt_ledger toy_tree1) (hash_of toy_prims toy_block) = Some led \<and> ledger_total led \<le> minted 1"
proof -
  obtain led where led: "map_of (bt_ledger toy_tree1) (hash_of toy_prims toy_block) = Some led"
    using toy_core tree_inv_fields(2) [of toy_prims toy_tree1] tree_reach_inv [OF toy_reach1] by blast
  obtain b where "map_of (bt_blocks toy_tree1) (hash_of toy_prims toy_block) = Some b" "core toy_block = core b"
    using core_of_blocks [OF toy_core] by blast
  with supply_cap [OF toy_reach1 this(1) led] led show ?thesis
    using toy_block_fields(1) core_simps(1) [of toy_block] core_simps(1) [of b] by auto
qed





text \<open>C4. Fork choice. The head of every tree a node can build carries the largest cumulative work
  of all known blocks, and the smallest hash among those.\<close>

theorem head_is_heaviest:
  assumes "tree_reach P w pd dc params t"
  shows "\<exists>ch. map_of (bt_cum_work t) (bt_head t) = Some ch \<and>
     (\<forall>k c. map_of (bt_cum_work t) k = Some c \<longrightarrow> c < ch \<or> c = ch \<and> bt_head t \<le> k)"
  using tree_reach_inv [OF assms] tree_inv_fields(4) unfolding heaviest_def by blast

theorem head_is_heaviest_witness: "\<exists>ch. map_of (bt_cum_work toy_tree1) (bt_head toy_tree1) = Some ch"
  using head_is_heaviest [OF toy_reach1] by blast

text \<open>C5. Append-only history. Attaching a block to a tree never changes or drops a header, a
  transaction set, a ledger, a model state or a cumulative work that the tree already had.\<close>

theorem add_block_extends:
  assumes "tree_reach P w pd dc params t" and "add_block P b t = Inr (r, t')"
  shows "tree_le t t'"
  using add_block_inv [of P t b r t'] tree_reach_inv [OF assms(1)] assms(2) by blast

theorem add_block_extends_witness: "tree_le toy_tree0 toy_tree1"
  by (rule add_block_extends [OF toy_reach0 toy_added])

text \<open>C6. Walking back to genesis ends. On every tree a node can build, \<^verbatim>\<open>chain_from_genesis\<close>
  returns, without an exception, as many blocks as the head is high.\<close>

theorem chain_from_genesis_returns:
  assumes "tree_reach P w pd dc params t"
  shows "\<exists>bs b. chain_from_genesis P t None = Some (Inr bs) \<and> map_of (bt_blocks t) (bt_head t) = Some b
     \<and> int (length bs) = h_height (b_header b)"
proof -
  note inv = conjunct1 [OF tree_reach_inv [OF assms]]
  have "bt_head t \<in> dom (core_of t)"
    using tree_inv_fields(1,4) [OF inv] by (auto simp: heaviest_def)
  then obtain c where c: "core_of t (bt_head t) = Some c" by blast
  with core_of_blocks obtain b where "map_of (bt_blocks t) (bt_head t) = Some b" "c = core b" by blast
  with tree_inv_chain [OF inv c] show ?thesis by (auto simp: chain_from_genesis_def)
qed

theorem chain_from_genesis_returns_witness: "\<exists>bs. chain_from_genesis toy_prims toy_tree1 None = Some (Inr bs)"
  using chain_from_genesis_returns [OF toy_reach1] by blast

text \<open>C7. Producer and validator agree. A block that \<^verbatim>\<open>build_block\<close> returns, from deltas that are
  individually valid, with scores and sketches in range, by a proposer whose key is sound and who
  is eligible, passes \<^verbatim>\<open>validate_block\<close> against the same parent.\<close>

theorem built_block_validates:
  assumes "build_block P t parent pr = Inr b" and "proposal_ok P t parent pr b"
    and "proposer_eligible P t parent pr b"
  shows "\<exists>pw pb pl w led m. map_of (bt_state t) parent = Some pw \<and> map_of (bt_blocks t) parent = Some pb \<and>
     map_of (bt_ledger t) parent = Some pl \<and>
     validate_block P b pw (h_height (b_header pb)) (Some pl) (bt_data_contributor t) (recent_proposers P t parent)
       (parent_model t parent) (bt_params t) = Inr (w, Some led, m)"
  by (rule build_block_valid [OF assms])

theorem built_block_validates_witness:
  "\<exists>pl w led m. validate_block toy_prims toy_block [5] 0 (Some pl) None
     (recent_proposers toy_prims toy_tree0 (bt_head toy_tree0)) None None = Inr (w, Some led, m)"
  using built_block_validates [OF toy_block_built toy_proposal_ok toy_eligible]
  by (auto simp: toy_tree0_fields parent_model_def)

text \<open>C8. Replay. On a node that keeps its bodies, recomputing the weights from genesis over the
  chain of the head returns exactly the weights stored for the head.\<close>

theorem replay_head_is_head_state:
  assumes "tree_reach P w None dc params t"
  shows "\<exists>v. replay_head P t = Some (Inr v) \<and> head_state t = Inr v"
  by (rule replay_head_ok [OF assms])

theorem replay_head_is_head_state_witness: "\<exists>v. replay_head toy_prims toy_tree1 = Some (Inr v) \<and> head_state toy_tree1 = Inr v"
  by (rule replay_head_is_head_state [OF toy_reach1])

text \<open>C9. Weights and page table agree. Under protocol v1 every stored model state is well formed
  and the weight vector stored beside it has exactly the dimension of its page table, growth
  included.\<close>

theorem weights_match_pages:
  assumes "tree_reach P w pd dc (Some gp) t" and "params_ok gp" and "map_of (bt_model t) k = Some mo"
  shows "\<exists>m. mo = Some m \<and> model_ok gp m \<and> (\<forall>v. map_of (bt_state t) k = Some v \<longrightarrow> dim m = Inr (int (length v)))"
  using tree_reach_sized [OF assms(1,2)] assms(3) unfolding sized_def by blast

theorem weights_match_pages_witness:
  "\<exists>t k m. new_tree toy_prims [7, 8] None None (Some (default_params \<lparr>n_layers = 1, d_model = 0, d_ff = 0,
       n_experts_initial = 1, e_max = 1, backbone_params = 2\<rparr>)) = Inr t \<and>
     map_of (bt_model t) k = Some (Some m) \<and> dim m = Inr 2"
proof -
  let ?sp = "\<lparr>n_layers = 1, d_model = 0, d_ff = 0, n_experts_initial = 1, e_max = 1, backbone_params = 2\<rparr> :: model_spec"
  let ?gp = "default_params ?sp"
  have P: "params_ok ?gp"
    by (simp add: params_ok_def default_params_def spec_ok_def params_cfg_def cfg_ok_def QUOTA_ONE_4DP_def
        QUOTA_MIN_4DP_def QUOTA_MAX_4DP_def TARGET_DELTAS_def DAMP_DIV_def K_SUSTAIN_def)
  have pages: "ms_pages (genesis_model ?sp) =
      [\<lparr>pg_start = 0, pg_end = 2, pg_kind = ''backbone'', pg_layer = -1, pg_expert = -1, pg_status = ACTIVE\<rparr>,
       expert_page ?sp 2 0 0]"
    by (simp add: genesis_model_def new_model_state_def genesis_slots_def)
  have d: "dim (genesis_model ?sp) = Inr 2"
    by (simp add: dim_eq pages expert_page_def expert_page_len_def)
  have "\<exists>r. page_state_root toy_prims [7, 8] (genesis_model ?sp) = Inr r"
    by (simp add: page_state_root_def root_def build_def pages)
  with d obtain t where t: "new_tree toy_prims [7, 8] None None (Some ?gp) = Inr t"
    by (auto simp: new_tree_def default_params_def Let_def)
  then obtain k where k: "map_of (bt_model t) k = Some (Some (genesis_model ?sp))"
    by (auto simp: new_tree_def default_params_def Let_def res_simps tree_of_def)
  from weights_match_pages [OF reach_new [OF t] P k] t k d show ?thesis by auto
qed

section \<open>Two ways around the proposer lottery\<close>

text \<open>C10. The proposer name ``genesis''. Validation skips the lottery and the work check for every
  block whose header names the proposer ``genesis'', not only for the constructed block 0. If
  such a block is accepted, the same block with any larger work is accepted too and
  takes the head from the heaviest honest chain.\<close>

theorem forged_work_takes_head:
  assumes "tree_reach P w pd dc params t" and "h_proposer (b_header b) = ''genesis''"
    and "add_block P b t = Inr (r, t1)"
    and "hash_of P b \<notin> dom (map_of (bt_blocks t))" and "hash_of P (with_work x b) \<notin> dom (map_of (bt_blocks t))"
    and "map_of (bt_cum_work t) (bt_head t) = Some ch" and "ch < x"
  shows "\<exists>t'. add_block P (with_work x b) t = Inr (True, t') \<and> bt_head t' = hash_of P (with_work x b)"
  using genesis_proposer_takes_head [OF _ assms(2-7)] tree_reach_inv [OF assms(1)] by blast

theorem forged_work_takes_head_witness:
  "\<exists>t'. add_block toy_prims (with_work 1000000 toy_forged) toy_tree0 = Inr (True, t')"
proof -
  obtain r t1 where "add_block toy_prims toy_forged toy_tree0 = Inr (r, t1)" using toy_forged_added by blast
  from forged_work_takes_head [OF toy_reach0 toy_forged_fields(1) this toy_forged_new toy_forged_new_work, of 0 1000000]
  show ?thesis by (auto simp: toy_tree0_fields)
qed

text \<open>C11. An empty ledger root. A block whose header commits no ledger root is validated without the
  parent ledger, so the stake-weighted threshold is never applied: a proposer with any balance,
  none included, has its block attached.\<close>

theorem unstaked_proposer_accepted:
  assumes "tree_reach P w pd dc params t" and "build_block P t parent pr = Inr b"
    and "proposal_ok P t parent pr (without_root b)"
    and "0 \<le> pr_attempt pr" and "pr_attempt pr \<le> ATTEMPT_MAX"
    and "hash_of P (without_root b) \<notin> dom (map_of (bt_blocks t))"
  shows "\<exists>r t'. add_block P (without_root b) t = Inr (r, t')"
  using unstaked_block_accepted [OF _ assms(2-6)] tree_reach_inv [OF assms(1)] by blast

theorem unstaked_proposer_accepted_witness: "\<exists>r t'. add_block toy_prims (without_root toy_block) toy_tree0 = Inr (r, t')"
proof (rule unstaked_proposer_accepted [OF toy_reach0 toy_block_built toy_proposal_ok])
  show "hash_of toy_prims (without_root toy_block) \<notin> dom (map_of (bt_blocks toy_tree0))"
    using hash_new_height [of "without_root toy_block" "bt_genesis toy_tree0"]
    by (simp add: toy_tree0_fields toy_block_fields without_root_def)
qed (simp_all add: toy_proposal_def ATTEMPT_MAX_def)

section \<open>Gossip\<close>

text \<open>C12. Agreement by gossip. In every network that can arise by steps, injections and partitions, from any number of nodes
  in either topology, each node's tree holds exactly the genesis block and the blocks the node has seen, and two nodes that have seen the same
  blocks have the same head, or two of their headers are a SHA-256 collision.\<close>

theorem gossip_nodes_agree:
  assumes "net_reach P train score w0 n topology net" and "sig_correct P" and "i < n" and "j < n"
    and "gn_seen_block (net_nodes net ! i) = gn_seen_block (net_nodes net ! j)"
  shows "dom (map_of (bt_blocks (gn_tree (net_nodes net ! i)))) =
      insert (genesis_hash P (gn_tree (net_nodes net ! i))) (gn_seen_block (net_nodes net ! i)) \<and>
    (heads net ! i = heads net ! j \<or>
      collides_on P (header_inputs (gn_tree (net_nodes net ! i)) \<union> header_inputs (gn_tree (net_nodes net ! j))))"
proof -
  obtain f where "net_ok P w0 f net" and "net_shape n topology net" using net_reach_ok [OF assms(1,2)] by blast
  then have ok: "node_ok P w0 f (net_nodes net ! i)" "node_ok P w0 f (net_nodes net ! j)" "length (net_nodes net) = n"
    using assms(3,4) by (simp_all add: net_ok_def net_shape_def)
  then have g: "bt_genesis (gn_tree (net_nodes net ! i)) = bt_genesis (gn_tree (net_nodes net ! j))"
    using genesis_same [of P w0 None "Some f" None] by (simp add: node_ok_def)
  have "bt_head (gn_tree (net_nodes net ! i)) = bt_head (gn_tree (net_nodes net ! j))"
    if "\<not> collides_on P (header_inputs (gn_tree (net_nodes net ! i)) \<union> header_inputs (gn_tree (net_nodes net ! j)))"
    by (rule same_seen_same_head [OF ok(1,2) _ that]) (simp add: assms(5) g)
  then show ?thesis using ok assms(3,4) by (auto simp: heads_def node_ok_def)
qed

definition toy_gnode :: "tree \<Rightarrow> nat \<Rightarrow> nat list \<Rightarrow> gnode" where
  "toy_gnode t i ps = \<lparr>gn_id = i, gn_key = generate toy_prims (ljust32 (encode (''node'' @ nat_str i))), gn_tree = t, gn_peers = ps,
     gn_mempool = [], gn_seen_tx = {}, gn_seen_block = {}, gn_orphans = []\<rparr>"

lemma toy_network:
  "\<exists>t. new_network toy_prims [5] 2 ''full'' = Inr \<lparr>net_nodes = [toy_gnode t 0 [1], toy_gnode t 1 [0]],
     net_inflight = [[], []], net_partition = None, net_round = 0\<rparr>"
proof -
  obtain f where f: "P2P_FOUNDER toy_prims = Inr f"
    by (simp add: P2P_FOUNDER_def address_def pub_def fromhex_hex)
  have "\<exists>t. new_tree toy_prims [5] None (Some f) None = Inr t" by (simp add: new_tree_def)
  then show ?thesis
    by (auto simp: new_network_def f new_node_def wire_def peers_of_def toy_gnode_def numeral_2_eq_2)
qed

theorem gossip_nodes_agree_witness:
  "\<exists>net. new_network toy_prims [5] 2 ''full'' = Inr net \<and> heads net ! 0 = heads net ! 1"
proof -
  obtain t where n: "new_network toy_prims [5] 2 ''full'' = Inr \<lparr>net_nodes = [toy_gnode t 0 [1], toy_gnode t 1 [0]],
     net_inflight = [[], []], net_partition = None, net_round = 0\<rparr>" using toy_network by blast
  let ?net = "\<lparr>net_nodes = [toy_gnode t 0 [1], toy_gnode t 1 [0]], net_inflight = [[], []], net_partition = None, net_round = 0\<rparr>"
  have "heads ?net ! 0 = heads ?net ! 1"
    using gossip_nodes_agree [OF net_new [OF n, where train = "\<lambda>i h w. w" and score = "\<lambda>w h b. Inr (0 :: int)"] toy_sig, of 0 1]
      toy_no_collision by (simp add: toy_gnode_def)
  then show ?thesis using n by blast
qed

text \<open>C13. Flooding. In a fully connected network without a partition, a valid delta that is in flight to a node that has not seen it is known
  to every node after two completed rounds, whatever else is in flight, whoever proposes, and whether or not the rounds sync or produce.\<close>

theorem delta_floods_in_two_rounds:
  assumes "net_reach P train score w0 n ''full'' net" and "sig_correct P" and "net_partition net = None"
    and "i < n" and "bp_txid P tx \<notin> gn_seen_tx (net_nodes net ! i)"
    and "TxMsg tx body \<in> set (net_inflight net ! i)" and "bp_verify P tx" and "delta_hash P (tobytes body) = bp_delta_hash tx"
    and "net_step P train score ps1 y1 p1 net = Some (Inr net1)"
    and "net_step P train score ps2 y2 p2 net1 = Some (Inr net2)" and "j < n"
  shows "bp_txid P tx \<in> gn_seen_tx (net_nodes net2 ! j)"
  using tx_floods [OF assms(1-5), of "(tx, body)"] assms(6-11) by (simp add: valid_tx_def)

definition toy_delta :: backprop_tx where
  "toy_delta = \<lparr>bp_miner = hex [1], bp_base_height = 0, bp_delta_hash = delta_hash toy_prims (tobytes [1]), bp_da_pointer = ''p'',
     bp_bond = 0, bp_pages = [], bp_data_refs = [], bp_sig = []\<rparr>"

lemma toy_delta_ok: "bp_verify toy_prims toy_delta" "delta_hash toy_prims (tobytes [1]) = bp_delta_hash toy_delta"
  by (simp_all add: bp_verify_def verify_def toy_delta_def fromhex_hex toy_prims_def)

theorem delta_floods_in_two_rounds_witness:
  "\<exists>net net1 net2. new_network toy_prims [5] 2 ''full'' = Inr net \<and>
     (\<exists>net'. inject_tx 0 toy_delta [1] net = Inr net' \<and>
       net_step toy_prims (\<lambda>i h w. w) (\<lambda>w h b. Inr (0 :: int)) (Some []) False False net' = Some (Inr net1) \<and>
       net_step toy_prims (\<lambda>i h w. w) (\<lambda>w h b. Inr (0 :: int)) (Some []) False False net1 = Some (Inr net2) \<and>
       bp_txid toy_prims toy_delta \<in> gn_seen_tx (net_nodes net2 ! 1))"
proof -
  let ?step = "net_step toy_prims (\<lambda>i h w. w) (\<lambda>w h b. Inr (0 :: int)) (Some []) False False"
  obtain t where n: "new_network toy_prims [5] 2 ''full'' = Inr \<lparr>net_nodes = [toy_gnode t 0 [1], toy_gnode t 1 [0]],
     net_inflight = [[], []], net_partition = None, net_round = 0\<rparr>" using toy_network by blast
  define net where "net = \<lparr>net_nodes = [toy_gnode t 0 [1], toy_gnode t 1 [0]], net_inflight = [[], []], net_partition = None, net_round = 0\<rparr>"
  define net' where "net' = \<lparr>net_nodes = [toy_gnode t 0 [1], toy_gnode t 1 [0]], net_inflight = [[TxMsg toy_delta [1]], []], net_partition = None, net_round = 0\<rparr>"
  have inj: "inject_tx 0 toy_delta [1] net = Inr net'" by (simp add: inject_tx_def net_def net'_def)
  note steps = net_step_def deliver_def deliver_msg_def recv_tx_def admit_tx_def toy_delta_ok toy_delta_ok [simplified] send_all_def route_def post_msg_def can_talk_def Let_def
  obtain net1 where s1: "?step net' = Some (Inr net1)"
    and i1: "net_inflight net1 = [[], [TxMsg toy_delta [1]]]" "length (net_nodes net1) = 2"
    by (simp add: steps net'_def toy_gnode_def)
  obtain net2 where s2: "?step net1 = Some (Inr net2)"
    using i1 by (auto simp: steps length_Suc_conv numeral_2_eq_2)
  have reach: "net_reach toy_prims (\<lambda>i h w. w) (\<lambda>w h b. Inr (0 :: int)) [5] 2 ''full'' net'"
    using net_inject [OF net_new inj] n by (simp add: net_def)
  have "bp_txid toy_prims toy_delta \<in> gn_seen_tx (net_nodes net2 ! 1)"
    by (rule delta_floods_in_two_rounds [OF reach toy_sig _ _ _ _ toy_delta_ok s1 s2, of 0]) (simp_all add: net'_def toy_gnode_def)
  then show ?thesis using n inj s1 s2 by (auto simp: net_def)
qed

text \<open>C14. Blocks do not travel between clients. In every state a gossip client can reach, each block with deltas in its tree was proposed with the client's own key;
  a block with deltas that arrives from a peer, announced or in full with its payloads, leaves the tree as it was. The wire format drops
  the scores and validation demands one for each delta.\<close>

theorem client_never_imports_deltas:
  assumes "core_reach P i w dc s" and "sig_correct P"
  shows "(\<forall>k b. map_of (bt_blocks (co_tree s)) k = Some b \<and> b_txs b \<noteq> [] \<longrightarrow>
        h_proposer (b_header b) = pub (generate P (ljust32 (encode (''node'' @ nat_str i))))) \<and>
     (\<forall>wb pls m s' out. wb_txs wb \<noteq> [] \<and> block_hash P (wb_header wb) \<notin> dom (map_of (bt_blocks (co_tree s))) \<and>
        (m = CBlock wb \<or> m = CFull wb pls) \<and> core_handle P m (s, []) = Inr (s', out) \<longrightarrow> co_tree s' = co_tree s)"
proof -
  have "h_proposer (b_header b) = pub (generate P (ljust32 (encode (''node'' @ nat_str i))))"
    if "map_of (bt_blocks (co_tree s)) k = Some b" "b_txs b \<noteq> []" for k b
  proof -
    have "\<forall>k c. core_of (co_tree s) k = Some c \<longrightarrow> b_txs c \<noteq> [] \<longrightarrow> h_proposer (b_header c) = pub (generate P (ljust32 (encode (''node'' @ nat_str i))))"
      using core_reach_ok [OF assms] unfolding core_ok_def by blast
    from this [rule_format, of k "core b"] that show ?thesis by (simp add: core_of_def)
  qed
  moreover have "co_tree s' = co_tree s" if "wb_txs wb \<noteq> []" "block_hash P (wb_header wb) \<notin> dom (map_of (bt_blocks (co_tree s)))"
    "m = CBlock wb \<or> m = CFull wb pls" "core_handle P m (s, []) = Inr (s', out)" for wb pls m s' out
    using wire_block_refused [OF that] by simp
  ultimately show ?thesis by blast
qed

theorem client_never_imports_deltas_witness:
  "\<exists>s s' out. new_core toy_prims 0 [5] None = Inr s \<and>
     core_handle toy_prims (CBlock \<lparr>wb_header = b_header toy_block, wb_txs = [toy_delta], wb_transfers = [], wb_data_txs = []\<rparr>) (s, []) =
       Inr (s', out) \<and> out \<noteq> [] \<and> co_tree s' = co_tree s"
proof -
  let ?wb = "\<lparr>wb_header = b_header toy_block, wb_txs = [toy_delta], wb_transfers = [], wb_data_txs = []\<rparr> :: wire_block"
  obtain s where s: "new_core toy_prims 0 [5] None = Inr s" and f: "co_seen_block s = {}" "co_payloads s = []"
    and t: "bt_blocks (co_tree s) = bt_blocks toy_tree0"
    by (simp add: new_core_def new_tree_def tree_of_def toy_tree0_def Let_def)
  obtain s' out where h: "core_handle toy_prims (CBlock ?wb) (s, []) = Inr (s', out)" and o: "out \<noteq> []"
    by (simp add: core_handle_def recv_wire_block_def recv_one_def densify_def f Let_def)
  have "block_hash toy_prims (wb_header ?wb) \<notin> dom (map_of (bt_blocks (co_tree s)))"
    using toy_block_new by (simp add: hash_of_def t)
  then have "co_tree s' = co_tree s"
    using client_never_imports_deltas [OF core_new [OF s] toy_sig] h by (metis list.distinct(1) wire_block.select_convs(2))
  then show ?thesis using s h o by blast
qed

section \<open>The token ledger\<close>


definition toy_transfer :: transfer_tx where
  "toy_transfer = \<lparr>tr_from_pub = hex [1], tr_to_addr = ''bob'', tr_amount = 30, tr_nonce = 0, tr_sig = []\<rparr>"




definition toy_entry :: entry where
  "toy_entry = \<lparr>ent_owner = ''o'', ent_data_hash = ''d'', ent_size = 1, ent_media_type = ''text'', ent_stake = 9,
     ent_da_root = None, ent_weight = 9, ent_status = ''active'', ent_sketch = None\<rparr>"

definition toy_market :: ledger where
  "toy_market = empty_ledger\<lparr>registry := [(''e'', toy_entry)],
     challenges := [(''c'', \<lparr>ch_data_id = ''e'', ch_challenger = ''x'', ch_stake = 5, ch_reason = [], ch_expiry = 20,
       ch_votes_for = [''p'', ''q'', ''r''], ch_votes_against = []\<rparr>)]\<rparr>"

lemma toy_market_wf: "ledger_wf toy_market"
  by (simp add: toy_market_def toy_entry_def ledger_wf_def empty_ledger_def nonneg_dict_def wf_market_def wf_bonds_def
      wf_challenge_def votes_def active_def dict_wf_def)








section \<open>Aggregation\<close>

text \<open>C20. Robust aggregation. When at most \<open>trim_count k\<close> of the \<open>k \<ge> 3\<close> deltas are adversarial and
  no sum overflows an int64, every coordinate of the trimmed mean lies between the smallest
  and the largest honest value, whatever the adversaries submit and wherever they stand.\<close>

theorem trimmed_mean_robust:
  assumes "3 \<le> length col" and "mset col = mset hon + mset adv"
    and "length adv \<le> trim_count (length col)"
    and "\<And>x. x \<in> set col \<Longrightarrow> \<bar>x\<bar> \<le> B" and "int (length col) * B < 2 ^ 63"
    and "\<And>h. h \<in> set hon \<Longrightarrow> a \<le> h \<and> h \<le> b"
  shows "a \<le> trimmed_mean_col col \<and> trimmed_mean_col col \<le> b"
  by (rule trimmed_mean_col_robust [OF assms])

theorem trimmed_mean_robust_witness: "10 \<le> trimmed_mean_col [11, 5000, 10, 12] \<and> trimmed_mean_col [11, 5000, 10, 12] \<le> 12"
  by (rule trimmed_mean_robust [of _ "[11, 10, 12]" "[5000]" 5000]) (auto simp: trim_count_def)

text \<open>C21. The paged transition. Each coordinate moves by the wrapped trimmed mean of exactly the bodies
  that claimed its page; a coordinate outside every page, or in a page nobody claimed, does not
  move.\<close>

theorem paged_transition_per_page:
  assumes "length w = n" and "\<forall>b\<in>set bodies. length b = n" and "\<forall>sp\<in>set pages. span_ok n sp"
    and "disjoint_spans pages"
  shows "\<exists>w'. paged_transition w bodies claims pages = Inr w' \<and> length w' = n \<and>
     (\<forall>i<length pages. \<forall>j<n. in_span j (pages ! i) \<longrightarrow>
        w' ! j = coord_update bodies claims (int i) j (w ! j)) \<and>
     (\<forall>j<n. (\<forall>sp\<in>set pages. \<not> in_span j sp) \<longrightarrow> w' ! j = w ! j)"
  by (rule paged_transition_spec [OF assms])

theorem paged_transition_per_page_witness:
  "\<exists>w'. paged_transition [5, 7] [[1, 1]] [[0]] [(0, 1)] = Inr w' \<and> length w' = 2 \<and> w' ! 1 = 7"
  using paged_transition_per_page [of "[5, 7]" 2 "[[1, 1]]" "[(0, 1)]" "[[0]]"]
  by (auto simp: span_ok_def disjoint_spans_def in_span_def)

section \<open>Commitments\<close>

text \<open>C22. Merkle openings. Every page of a tree has a path with which it verifies under the root; and a page that verifies
  under the root of a tree, with any path whatever, is a page of that tree, or the inputs hashed for the tree and the path
  contain a SHA-256 collision (or a digest that is not 32 bytes). The second half speaks of membership only: the
  index argument of \<^verbatim>\<open>verify\<close> is not used. The root fixes the pages but not their number: repeating the last leaf of
  a tree with an odd number of leaves, more than one, leaves the root unchanged.\<close>

theorem merkle_openings:
  "(i < length leaves \<longrightarrow>
      (\<exists>p r. open_leaf P leaves i = Inr p \<and> root P leaves = Inr r \<and> merkle_verify P (leaves ! i) 0 p r)) \<and>
   (merkle_verify P page k path rt \<and> root P leaves = Inr rt \<longrightarrow>
      page \<in> set leaves \<or> hash_broken P (tree_inputs P leaves \<union> path_inputs P page path)) \<and>
   (odd (length leaves) \<and> 1 < length leaves \<longrightarrow> root P (leaves @ [last leaves]) = root P leaves)"
  using merkle_vec.open_complete [of i leaves P] merkle_sound [of P page k path rt leaves] root_duplicate_last [of leaves P] by blast

definition pad32 :: prims where
  "pad32 = toy_prims\<lparr>sha256 := (\<lambda>b. take 32 (b @ replicate 32 0))\<rparr>"

theorem merkle_openings_witness:
  "(\<exists>p r. open_leaf toy_prims [[1], [2], [3]] 2 = Inr p \<and> root toy_prims [[1], [2], [3]] = Inr r
     \<and> merkle_verify toy_prims [3] 0 p r) \<and>
   (\<exists>r. root pad32 [[9]] = Inr r \<and> merkle_verify pad32 [9] 0 [] r \<and> ([9] :: bytes) \<in> set [[9]]) \<and>
   root toy_prims [[1], [2], [3], [3]] = root toy_prims [[1], [2], [3]]"
proof -
  obtain r where r: "root pad32 [[9]] = Inr r" "merkle_verify pad32 [9] 0 [] r"
    by (simp add: root_def build_def levels_from.simps merkle_verify_def)
  have "\<not> hash_broken pad32 (tree_inputs pad32 [[9]] \<union> path_inputs pad32 [9] [])"
    by (simp add: hash_broken_def collides_on_def tree_inputs_def path_inputs_def levels_from.simps pad32_def) arith
  with merkle_openings [of 0 "[[9]]" pad32 "[9]" 0 "[]" r] merkle_openings [of 2 "[[1], [2], [3]]" toy_prims] r
  show ?thesis by auto
qed

text \<open>C23. Commitments bind. Two account transactions with one id, each field shorter than 4 GiB, differ at most in their
  signatures; two well-formed ledgers with one root agree on every balance, nonce, registry entry, challenge, bond and pool;
  two headers with one hash are equal in every field. In each case the alternative is that the canonical encodings
  are a SHA-256 collision.\<close>

theorem commitments_bind:
  "(txid P t = txid P u \<and> small_fields t \<and> small_fields u \<longrightarrow>
      unsig t = unsig u \<or> collides_on P {frame (tx_fields t), frame (tx_fields u)}) \<and>
   (ledger_root P a = ledger_root P b \<and> ledger_wf a \<and> ledger_wf b \<longrightarrow>
      ledger_view a = ledger_view b \<or>
      collides_on P {encode (dumps_compact (ledger_json a)), encode (dumps_compact (ledger_json b))}) \<and>
   (block_hash P x = block_hash P y \<longrightarrow>
      x = y \<or> collides_on P {encode (dumps_default (header_json x)), encode (dumps_default (header_json y))})"
  using txid_inject [of P t u] ledger_root_inject [of P a b] block_hash_inject [of P x y] by blast

lemma toy_transfer_small: "small_fields (Transfer (toy_transfer\<lparr>tr_sig := sg\<rparr>))"
proof -
  have "hex [1] = ''01''" by (simp add: hex_def hex_byte_def hex_digits_def)
  then show ?thesis
    by (simp add: small_fields_def toy_transfer_def tr_fields_def encode_def utf8_char_def int_str_def nat_str.simps digit_char_def)
qed

theorem commitments_bind_witness:
  "unsig (Transfer (toy_transfer\<lparr>tr_sig := []\<rparr>)) = unsig (Transfer (toy_transfer\<lparr>tr_sig := [1]\<rparr>)) \<and>
   ledger_root toy_prims empty_ledger \<noteq> ledger_root toy_prims toy_market \<and>
   block_hash toy_prims (b_header toy_block) \<noteq> block_hash toy_prims (b_header (bt_genesis toy_tree0))"
proof -
  let ?t = "Transfer (toy_transfer\<lparr>tr_sig := []\<rparr>)" and ?u = "Transfer (toy_transfer\<lparr>tr_sig := [1]\<rparr>)"
  have tx: "txid toy_prims ?t = txid toy_prims ?u" by (simp add: tr_txid_def tr_signing_bytes_def tr_fields_def)
  have wf: "ledger_wf empty_ledger"
    using genesis_ledger_ok [of None] by (simp add: genesis_ledger_def truthy_def)
  have l: "ledger_view empty_ledger \<noteq> ledger_view toy_market"
    by (simp add: ledger_view_def empty_ledger_def toy_market_def fun_eq_iff split: if_splits)
  have h: "b_header toy_block \<noteq> b_header (bt_genesis toy_tree0)"
    using toy_block_fields(1) toy_tree0_fields(10) by fastforce
  from commitments_bind [of toy_prims ?t ?u empty_ledger toy_market "b_header toy_block" "b_header (bt_genesis toy_tree0)"]
  show ?thesis using tx toy_transfer_small wf toy_market_wf l h toy_no_collision by blast
qed

section \<open>The model state and the proposer lottery\<close>

text \<open>C24. The consensus fold. Folding any block into a well-formed model state succeeds, keeps it well formed (the
  pages tile the weights, genesis pages stay active, the quota stays in its bounds), never moves an existing page, and
  appends at most one page of the expert size.\<close>

theorem model_fold_keeps_layout:
  assumes "params_ok params" and "model_ok params s"
  shows "\<exists>s' acts. model_fold params b s = Inr (s', acts) \<and> model_ok params s' \<and> layout_extends params s s' acts"
  by (rule model_fold_ok [OF assms])

definition toy_spec :: model_spec where
  "toy_spec = \<lparr>n_layers = 1, d_model = 0, d_ff = 0, n_experts_initial = 1, e_max = 1, backbone_params = 2\<rparr>"

lemma toy_params_ok: "params_ok (default_params toy_spec)"
  by (simp add: params_ok_def default_params_def toy_spec_def spec_ok_def params_cfg_def cfg_ok_def QUOTA_ONE_4DP_def
      QUOTA_MIN_4DP_def QUOTA_MAX_4DP_def TARGET_DELTAS_def DAMP_DIV_def K_SUSTAIN_def)

lemma toy_genesis_ok: "model_ok (default_params toy_spec) (genesis_model toy_spec)"
  using genesis_model_ok(1) [OF toy_params_ok] by (simp add: default_params_def)

theorem model_fold_keeps_layout_witness:
  "\<exists>s' acts. model_fold (default_params toy_spec) \<lparr>fi_height = 16, fi_n_txs = 9, fi_zero_scored = 0,
     fi_prev_hash = [], fi_score_sum = 5, fi_proposer = ''p''\<rparr>
     (genesis_model toy_spec) = Inr (s', acts) \<and> model_ok (default_params toy_spec) s'"
  using model_fold_keeps_layout [OF toy_params_ok toy_genesis_ok] by blast

text \<open>C25. Growth quorum. From the v4 height on, a window that schedules growth saw blocks with a positive score
  from at least \<open>growth_quorum\<close> different proposers.\<close>

theorem growth_needs_quorum:
  assumes "params_ok params" and "stale_ceiling_4dp params < 10000"
    and "model_ok params s" and "ms_win_scorers s = []"
    and "\<forall>b\<in>set bs. off_boundary params b" and "\<not> off_boundary params l" and "v4_height params \<le> fi_height l"
    and "foldE (fold_step params) (bs @ [l]) s = Inr t" and "ms_events_total t \<noteq> ms_events_total s"
  shows "growth_quorum params \<le> int (card (positive_proposers (bs @ [l])))"
  by (rule window_growth_quorum [OF assms])

definition quick_params :: genesis_params where
  "quick_params = (default_params toy_spec)\<lparr>retarget_window := 1, target_deltas := 1, quota_min_4dp := 10000,
     quota_max_4dp := 10000, k_sustain := 1, v4_height := 0, growth_quorum := 1, stale_ceiling_4dp := 9999\<rparr>"

definition quick_block :: fold_input where
  "quick_block = \<lparr>fi_height = 1, fi_n_txs = 1, fi_zero_scored = 0, fi_prev_hash = [], fi_score_sum = 1,
     fi_proposer = ''p''\<rparr>"

theorem growth_needs_quorum_witness:
  "growth_quorum quick_params \<le> int (card (positive_proposers [quick_block])) \<and> growth_quorum quick_params = 1"
proof -
  have p: "params_ok quick_params"
    by (simp add: params_ok_def quick_params_def default_params_def toy_spec_def spec_ok_def params_cfg_def cfg_ok_def
        QUOTA_ONE_4DP_def DAMP_DIV_def)
  let ?s = "genesis_model toy_spec"
  have ok: "model_ok quick_params ?s" using genesis_model_ok(1) [OF p] by (simp add: quick_params_def default_params_def)
  obtain t where t: "fold_step quick_params quick_block ?s = Inr t" "ms_events_total t \<noteq> ms_events_total ?s"
    by (simp add: fold_step_def model_fold_def py_mod_def quick_params_def quick_block_def accumulate_def Let_def
        fold_boundary_def activate_due_events_def genesis_model_def new_model_state_def decide_window_def
        retarget_decide_def py_div_def params_cfg_def window_staleness_def default_params_def apply_decision_def
        thaw_or_grow_def grown_pages_def genesis_page_count_def freeze_page_def reset_window_def toy_spec_def
        genesis_slots_def DAMP_DIV_def QUOTA_ONE_4DP_def expert_page_def)
  have "foldE (fold_step quick_params) ([] @ [quick_block]) ?s = Inr t" using t(1) by simp
  from growth_needs_quorum [OF p _ ok _ _ _ _ this t(2)] show ?thesis
    by (simp add: quick_params_def quick_block_def off_boundary_def genesis_model_def new_model_state_def)
qed

text \<open>C26. The lottery always ends. At the last attempt the holder of any sound key, whatever its stake, is eligible with the proof
  it computes, and the work that proof carries is at least 1.\<close>

theorem lottery_always_has_a_winner:
  assumes "sig_correct P" and "key_pk k = ed_pub P (key_sk k)" and "\<forall>b. length (sha256 P b) = 32"
  shows "eligible P (pub k) (vrf_prove P k parent h ATTEMPT_MAX) parent h ATTEMPT_MAX stake tot
     \<and> (\<exists>w. attempt_work P (vrf_prove P k parent h ATTEMPT_MAX) ATTEMPT_MAX = Inr w \<and> 1 \<le> w)"
proof -
  have "0 \<le> ATTEMPT_MAX" by (simp add: ATTEMPT_MAX_def)
  from attempt_work_bounds [OF spec [OF assms(3)] this, of "vrf_prove P k parent h ATTEMPT_MAX"] show ?thesis
    using verify_vrf_prove [OF assms(1,2)] by (auto simp: eligible_at_max)
qed

theorem lottery_always_has_a_winner_witness:
  "eligible pad32 (pub (pr_key toy_proposal)) (vrf_prove pad32 (pr_key toy_proposal) [] 7 ATTEMPT_MAX) [] 7 ATTEMPT_MAX 0 100"
proof -
  have "sig_correct pad32" "ed_pub pad32 s = s" "length (sha256 pad32 b) = 32" for s b
    by (simp_all add: sig_correct_def pad32_def toy_prims_def)
  then show ?thesis
    using lottery_always_has_a_winner [of pad32 "pr_key toy_proposal" "[]" 7 0 100] by (simp add: toy_proposal_def)
qed

section \<open>Availability\<close>

text \<open>C27. Erasure coding. Encoding with \<open>0 < k \<le> n \<le> 255\<close> always returns, and from any \<open>k\<close> or more of the \<open>n\<close> shards,
  in any order, \<^verbatim>\<open>reconstruct\<close> returns exactly the encoded body: the Vandermonde rows are independent over GF(256), and
  the Gauss-Jordan elimination inverts them. With fewer than \<open>k\<close> shards it raises.\<close>

theorem any_k_shards_rebuild:
  assumes "0 < k" and "k \<le> n" and "n \<le> 255"
  shows "\<exists>shards. rs_encode body k n = Inr shards \<and> length shards = n \<and>
     (\<forall>got. distinct got \<and> set got \<subseteq> {0..<n} \<longrightarrow>
        reconstruct (map (\<lambda>i. (i, shards ! i)) got) k (length body) =
          (if k \<le> length got then Inr body else Inl ValueError))"
proof -
  obtain shards where s: "rs_encode body k n = Inr shards" "length shards = n"
    using rs_encode_shards [OF assms, of body] by auto
  have "reconstruct (map (\<lambda>i. (i, shards ! i)) got) k (length body) = (if k \<le> length got then Inr body else Inl ValueError)"
    if "distinct got \<and> set got \<subseteq> {0..<n}" for got
    using that rs_roundtrip [OF s(1), of got] reconstruct_few [of "map (\<lambda>i. (i, shards ! i)) got" k] by (auto simp: subset_iff)
  with s show ?thesis by blast
qed

theorem any_k_shards_rebuild_witness:
  "\<exists>shards. rs_encode [1, 2, 3] 2 3 = Inr shards \<and> reconstruct [(2, shards ! 2), (0, shards ! 0)] 2 3 = Inr [1, 2, 3]"
proof -
  from any_k_shards_rebuild [of 2 3 "[1, 2, 3]"] obtain shards where s: "rs_encode [1, 2, 3] 2 3 = Inr shards"
    and r: "\<forall>got. distinct got \<and> set got \<subseteq> {0..<3} \<longrightarrow> reconstruct (map (\<lambda>i. (i, shards ! i)) got) 2 (length [1, 2, 3 :: byte]) =
        (if 2 \<le> length got then Inr [1, 2, 3] else Inl ValueError)"
    by auto
  from s r [rule_format, of "[2, 0]"] show ?thesis by (simp add: numeral_3_eq_3)
qed



section \<open>Storage and exchange\<close>

text \<open>C29. The coordinator's directory. A synchronous run of any number of rounds with a chain directory that had no
  checkpoints ends with a directory that is the chain: one block per round, both sync tiers return the live weights,
  \<^verbatim>\<open>verify\<close> accepts, and \<^verbatim>\<open>load_chain\<close> returns the chain of the run. The directory refines
  the chain in memory, whatever the miners submit and whatever the checkpoint interval.\<close>

theorem coordinator_directory_is_the_chain:
  assumes "cs_k s0 \<noteq> 0" and "cs_ckpts s0 = []" and "run_in_memory P work score blocks w0 (Some s0) = Inr (c, st)"
  shows "\<exists>s. st = Some s \<and> chain_height c = blocks \<and> full_replay s = Inr (w_int c) \<and> fast_sync s = Inr (w_int c) \<and>
    store_verify P s = Inr True \<and> load_chain P s = Inr c"
  by (rule run_in_memory_durable [OF assms])

theorem coordinator_directory_is_the_chain_witness:
  "\<exists>c s. run_in_memory toy_prims (\<lambda>h mid w. [int mid]) (\<lambda>h w d. Inr (hd d)) 1 [5] (Some (new_store 10)) = Inr (c, Some s) \<and>
     length (chain_blocks c) = 1 \<and> w_int c = [8] \<and> load_chain toy_prims s = Inr c"
proof -
  let ?run = "run_in_memory toy_prims (\<lambda>h mid w. [int mid]) (\<lambda>h w d. Inr (hd d)) 1 [5] (Some (new_store 10))"
  have col: "trimmed_mean_col (column [[5], [4], [3], [2]] 0) = 3" and w: "wrap64 8 = 8" by code_simp+
  obtain c st where r: "?run = Inr (c, st)" and c: "length (chain_blocks c) = 1" "w_int c = [8]"
    by (simp add: run_in_memory_def sync_round_def score_and_apply_def score_cand_def N_MINERS_def node_include_k_def
        new_chain_def new_store_def init_genesis_def chain_height_def chain_apply_block_def outer_step_def trimmed_mean_int_def
        append_block_def Let_def vec_add_def upt_rec col w)
  from coordinator_directory_is_the_chain [OF _ _ r] c r show ?thesis by (auto simp: new_store_def)
qed

text \<open>C30. Persisting a chain. \<^verbatim>\<open>persist_chain\<close> into a directory without checkpoints is lossless: replay, fast sync,
  verification and loading all give the chain back. Into a directory that still holds a checkpoint above the height
  of the chain it is not: nothing removes the old file, full replay returns the live weights and fast sync the stale ones.\<close>

theorem persist_chain_needs_a_clean_directory:
  assumes "chain_reach P w0 c" and "cs_k s \<noteq> 0"
  shows "\<exists>s'. persist_chain P c s = Inr s' \<and> full_replay s' = Inr (w_int c) \<and>
     (cs_ckpts s = [] \<longrightarrow> fast_sync s' = Inr (w_int c) \<and> store_verify P s' = Inr True \<and> load_chain P s' = Inr c) \<and>
     (\<forall>h v. h = Max (fst ` set (cs_ckpts s)) \<and> chain_height c < h \<and> map_of (cs_ckpts s) h = Some v \<longrightarrow> fast_sync s' = Inr v)"
proof -
  obtain s' where s': "foldE (persist_step P) (chain_blocks c) (w0, init_genesis w0 s) = Inr (w_int c, s')"
    and rep: "represents P (cs_ckpts s) s' c" using persist_represents [OF assms(2,1)] by blast
  have p: "persist_chain P c s = Inr s'" using s' chain_reach_after [OF assms(1)] by (simp add: persist_chain_def)
  have "fast_sync s' = Inr v" if "h = Max (fst ` set (cs_ckpts s))" "chain_height c < h" "map_of (cs_ckpts s) h = Some v" for h v
    using persist_chain_stale [OF assms that] p by simp
  then show ?thesis using p full_replay_live [OF rep assms(1)] persist_chain_fresh [OF assms] by auto
qed

theorem persist_chain_needs_a_clean_directory_witness:
  "\<exists>s'. persist_chain toy_prims (new_chain [5]) ((new_store 10)\<lparr>cs_ckpts := [(10, [9])]\<rparr>) = Inr s' \<and>
     full_replay s' = Inr [5] \<and> fast_sync s' = Inr [9]"
  using persist_chain_needs_a_clean_directory [OF chain_start, of "(new_store 10)\<lparr>cs_ckpts := [(10, [9])]\<rparr>" toy_prims "[5]"]
  by (auto simp: new_store_def new_chain_def chain_height_def)

text \<open>C31. Late deltas. Along every run of the asynchronous simulator each submitted delta is accounted for exactly
  once: the rounds the miners finished are the deltas included, dropped as stale or still pending. No included delta is
  staler than the grace period, no block holds more than four, and the weights are those of a chain.\<close>

theorem every_delta_accounted:
  assumes "run_async_sim P dur work score ticks w0 = Inr s"
  shows "(\<Sum>m\<leftarrow>as_miners s. sm_rnd m) = length (as_lags s) + as_stale_dropped s + length (as_mempool s) \<and>
     (\<forall>l\<in>set (as_lags s). 0 \<le> l \<and> l \<le> GRACE_G) \<and> (\<forall>n\<in>set (as_included s). n \<le> 4) \<and> chain_reach P w0 (as_chain s)"
  using run_async_sim_ok [OF assms] by (simp add: async_ok_def node_include_k_def)

theorem every_delta_accounted_witness:
  "\<exists>s. run_async_sim toy_prims (\<lambda>mid rnd. 1) (\<lambda>mid rnd w. [int mid]) (\<lambda>h w d. Inr (hd d)) 2 [5] = Inr s \<and>
     (\<Sum>m\<leftarrow>as_miners s. sm_rnd m) = 12 \<and> length (as_mempool s) = 8"
proof -
  obtain s where s: "run_async_sim toy_prims (\<lambda>mid rnd. 1) (\<lambda>mid rnd w. [int mid]) (\<lambda>h w d. Inr (hd d)) 2 [5] = Inr s"
    and r: "length (as_lags s) = 4" "as_stale_dropped s = 0" "length (as_mempool s) = 8"
    by (simp add: run_async_sim_def async_tick_def complete_def produce_block_def score_mempool_def sort_item_def N_MINERS_def
        BLOCK_TICKS_def GRACE_G_def node_include_k_def new_chain_def chain_height_def chain_apply_block_def outer_step_def
        trimmed_mean_int_def Let_def vec_add_def upt_rec trimmed_mean_col_def trim_count_def)
  from every_delta_accounted [OF s] s r show ?thesis by auto
qed



text \<open>C33. Fetching a model. From any store whose blocks were checked on arrival, \<^verbatim>\<open>get_model\<close> of the root that \<^verbatim>\<open>put_model\<close>
  returned gives exactly the stored weights, or a non-empty list of names the store lacks, or two of the byte strings
  involved collide; it never returns other weights and never raises. Right after \<^verbatim>\<open>put_model\<close> nothing is missing. And
  every store that a peer can bring about by messages is such a store.\<close>

theorem fetched_model_is_the_stored_one:
  assumes "\<forall>x\<in>set w. is_i64 x" and "spans_cover (length w) sps" and "store_ok P st0"
    and "put_model P w sps st0 = ((root_cid, cids), st1)" and "bs_reach P s"
  shows "(get_model st1 root_cid = Inr (Some w, []) \<or>
        collides_on P (insert (manifest_bytes P w sps) (set (pages_from_state w sps)) \<union> held st1)) \<and>
     (get_model (bs_store s) root_cid = Inr (Some w, []) \<or>
        (\<exists>missing. get_model (bs_store s) root_cid = Inr (None, missing) \<and> missing \<noteq> [] \<and> (\<forall>c\<in>set missing. \<not> has (bs_store s) c)) \<or>
        collides_on P (insert (manifest_bytes P w sps) (set (pages_from_state w sps)) \<union> held (bs_store s)))"
  using put_model_get [OF assms(1-3)] fetch_model [OF bs_reach_ok [OF assms(5)] assms(1,2), of st0 root_cid] assms(4) by simp

theorem fetched_model_is_the_stored_one_witness:
  "\<exists>root_cid cids st1. put_model toy_prims [1] [(0, 1)] empty_store = ((root_cid, cids), st1) \<and>
     get_model st1 root_cid = Inr (Some [1], [])"
proof -
  obtain root_cid cids st1 where p: "put_model toy_prims [1] [(0, 1)] empty_store = ((root_cid, cids), st1)"
    by (cases "put_model toy_prims [1] [(0, 1)] empty_store") auto
  have "\<forall>x\<in>set [1]. is_i64 x" "spans_cover (length [1 :: int]) [(0, 1)]"
    by (simp_all add: is_i64_def spans_cover_def span_ok_def in_span_def)
  from fetched_model_is_the_stored_one [OF this store_ok_empty p bs_start] p show ?thesis
    using toy_no_collision by blast
qed

section \<open>Fraud proofs\<close>

text \<open>C34. The verdict on true data. When a validator that rejects a block assembles a proof for page \<open>i\<close> from what it
  holds (the parent's header, model and weights, the block's transactions and bodies, leaves that fold to the
  committed state root), \<^verbatim>\<open>build\<close> returns, and \<^verbatim>\<open>verify\<close> convicts exactly when the committed leaf differs from the
  leaf of the consensus aggregation; otherwise it answers ``no fraud''. The verifier recomputes one page from
  slices and sparse bodies, and still agrees with \<^verbatim>\<open>paged_transition\<close> on whole vectors.\<close>

theorem fraud_verdict_is_consensus:
  assumes "dispute P h ph m w txs bodies" and "i < length (ms_pages m)"
    and "length leaves = length (ms_pages m)" and "hex (hd (fold_level P leaves)) = h_state_root h"
    and "paged_transition w (claimed_bodies P bodies txs) (map canonical_pages txs) (page_spans m) = Inr w'"
  shows "\<exists>pf. fraud_build P h ph (canonical_json m) (map hex leaves) (int i) txs bodies w = Inr pf \<and>
     fraud_verify P pf = Inr (let honest = leaf_hash P (page_leaf w' (ms_pages m ! i))
       in if honest = leaves ! i then NoFraud else FRAUD (int i) (leaves ! i) honest)"
  using fraud_verdict [OF assms] by blast

definition toy_parent :: header where
  "toy_parent = (genesis_header pad32 [] [])\<lparr>h_model_root := model_root pad32 (genesis_model toy_spec),
     h_state_root := projr (page_state_root pad32 [7, 8] (genesis_model toy_spec))\<rparr>"

definition toy_accused :: "string \<Rightarrow> header" where
  "toy_accused r = toy_parent\<lparr>h_prev_hash := block_hash pad32 toy_parent, h_txset_root := txset_root pad32 [],
     h_n_txs := 0, h_state_root := r\<rparr>"

lemma toy_spec_pages: "page_spans (genesis_model toy_spec) = [(0, 2), (2, 2)]" "length (ms_pages (genesis_model toy_spec)) = 2"
  by (simp_all add: page_spans_def genesis_model_def new_model_state_def genesis_slots_def toy_spec_def expert_page_def expert_page_len_def)

lemma toy_page_root: "page_state_root pad32 [7, 8] (genesis_model toy_spec) = Inr (h_state_root toy_parent)"
proof -
  have "\<exists>r. page_state_root pad32 [7, 8] (genesis_model toy_spec) = Inr r"
    using toy_spec_pages(2) by (auto simp: page_state_root_def root_def build_def)
  then show ?thesis by (auto simp: toy_parent_def)
qed

lemma toy_dispute: "dispute pad32 (toy_accused r) toy_parent (genesis_model toy_spec) [7, 8] [] []"
proof -
  have "ms_pages (genesis_model toy_spec) \<noteq> []" "pg_end (last (ms_pages (genesis_model toy_spec))) = 2"
    by (simp_all add: genesis_model_def new_model_state_def genesis_slots_def toy_spec_def expert_page_def expert_page_len_def)
  moreover have "h_model_root toy_parent = model_root pad32 (genesis_model toy_spec)" by (simp add: toy_parent_def)
  ultimately show ?thesis using toy_page_root toy_spec_pages
    by (auto simp: dispute_def toy_accused_def is_i64_def span_ok_def disjoint_spans_def less_Suc_eq in_span_def)
qed

lemma toy_step: "paged_transition [7, 8] (claimed_bodies pad32 [] []) (map canonical_pages []) (page_spans (genesis_model toy_spec)) = Inr [7, 8]"
  by (simp add: toy_spec_pages paged_transition_def claimed_bodies_def page_step_def contributors_def Let_def)

theorem fraud_verdict_is_consensus_witness:
  "\<exists>pf c. fraud_build pad32 (toy_accused (hex (hd (fold_level pad32 [[1], [2]])))) toy_parent
        (canonical_json (genesis_model toy_spec)) (map hex [[1], [2]]) 0 [] [] [7, 8] = Inr pf \<and>
      fraud_verify pad32 pf = Inr (FRAUD 0 [1] c)"
proof -
  let ?m = "genesis_model toy_spec" and ?r = "hex (hd (fold_level pad32 [[1], [2]]))"
  have l: "0 < length (ms_pages ?m)" "length [[1], [2 :: byte]] = length (ms_pages ?m)" by (simp_all add: toy_spec_pages(2))
  have r: "?r = h_state_root (toy_accused ?r)" by (simp add: toy_accused_def)
  have "length (leaf_hash pad32 x) = 32" for x by (simp add: leaf_hash_def pad32_def toy_prims_def)
  then have "leaf_hash pad32 x \<noteq> [1]" for x by (metis One_nat_def length_Cons list.size(3) numeral_eq_one_iff semiring_norm(83))
  with fraud_verdict_is_consensus [OF toy_dispute l r toy_step] show ?thesis by (fastforce simp: Let_def)
qed

text \<open>C35. An honest block can be convicted. If a block with true roots descends from a parent with at least two
  pages, there is a proof that names exactly its header and its parent's, and that the verifier accepts as fraud in page
  0: the committed leaves are concatenated before hashing and nothing checks that each has 32 bytes.\<close>

theorem honest_block_convicted:
  assumes "dispute P h ph m w txs bodies" and "2 \<le> length (ms_pages m)" and "\<forall>b. length (sha256 P b) = 32"
    and "paged_transition w (claimed_bodies P bodies txs) (map canonical_pages txs) (page_spans m) = Inr w'"
    and "page_state_root P w' m = Inr (h_state_root h)"
  shows "\<exists>pf c r. fp_header pf = Some h \<and> fp_parent_header pf = Some ph \<and> fraud_verify P pf = Inr (FRAUD 0 c r)"
  by (rule honest_convicted [OF assms])

theorem honest_block_convicted_witness:
  "page_state_root pad32 [7, 8] (genesis_model toy_spec) = Inr (h_state_root (toy_accused (h_state_root toy_parent))) \<and>
   (\<exists>pf c r. fp_header pf = Some (toy_accused (h_state_root toy_parent)) \<and> fraud_verify pad32 pf = Inr (FRAUD 0 c r))"
proof -
  have l: "2 \<le> length (ms_pages (genesis_model toy_spec))" by (simp add: toy_spec_pages(2))
  have h: "\<forall>b. length (sha256 pad32 b) = 32" by (simp add: pad32_def toy_prims_def) arith
  have s: "page_state_root pad32 [7, 8] (genesis_model toy_spec) = Inr (h_state_root (toy_accused (h_state_root toy_parent)))"
    using toy_page_root by (simp add: toy_accused_def)
  from honest_block_convicted [OF toy_dispute l h toy_step s] s show ?thesis by blast
qed

section \<open>The randomness beacon\<close>

text \<open>C36. Any quorum, one output. For a pairing with the documented laws, trusted dealing and distributed key generation
  among \<open>n < 256\<close> members with threshold \<open>t \<le> 256\<close> both return keys, the latter with every share verified. In every round
  any set of at least \<open>t\<close> signers, in any order and with repetitions, produces a signature that verifies under the group key, and all
  of them give the same randomness; fewer signers get no signature.\<close>

theorem beacon_quorum_gives_one_output:
  assumes "bls_laws C dl1 dl2" and "0 < t" and "t \<le> 256" and "0 < n" and "n < 256" and "int n < curve_order C"
    and "setup = deal \<or> setup = run_dkg"
  shows "\<exists>keys rnd. setup P C n t sd = Inr keys \<and>
     (\<forall>S. set S \<subseteq> {1..int n} \<longrightarrow>
        (if t \<le> card (set S) then \<exists>g. produce C keys r S = Inr (Some g, True) \<and> randomness P C g = rnd
         else produce C keys r S = Inr (None, False)))"
proof -
  obtain keys f where s: "setup P C n t sd = Inr keys" and k: "keys_ok C dl1 f keys" "key_t keys = t" "key_n keys = n"
    using deal_ok [OF assms(1-3), of P n sd] run_dkg_ok [OF assms(1-5), of P sd] assms(7) by blast
  have p: "if t \<le> card (set S)
      then \<exists>g. produce C keys r S = Inr (Some g, True) \<and> dl2 g mod curve_order C = dl2 (round_point C r) * f 0 mod curve_order C
      else produce C keys r S = Inr (None, False)" if "set S \<subseteq> {1..int n}" for S
    using produce_ok [OF assms(1) k(1), of S r] that assms k by simp
  have same: "randomness P C g = randomness P C g'" if "dl2 g mod curve_order C = dl2 g' mod curve_order C" for g g'
    using bls_lawsD(9) [OF assms(1) that] by (simp add: randomness_def)
  define rnd where "rnd = randomness P C (SOME g. dl2 g mod curve_order C = dl2 (round_point C r) * f 0 mod curve_order C)"
  have "randomness P C g = rnd" if "dl2 g mod curve_order C = dl2 (round_point C r) * f 0 mod curve_order C" for g
    unfolding rnd_def using that by (intro same) (metis (mono_tags, lifting) someI)
  with p s show ?thesis by (intro exI [of _ keys] exI [of _ rnd]) fastforce
qed

definition toy_curve :: "(int, int, int) bls" where
  "toy_curve = \<lparr>curve_order = 7, G1 = 1, add1 = (+), multiply1 = (*), normalize_eq = (\<lambda>p q. p mod 7 = q mod 7),
     add2 = (+), multiply2 = (*), pairing = (\<lambda>p q. p * q mod 7), hash_to_G2 = (\<lambda>b dst. int (length b)),
     G2_to_signature = (\<lambda>p. [word_of_int (p mod 7)])\<rparr>"

lemma toy_curve_laws: "bls_laws toy_curve id id"
proof -
  have "7 dvd a \<or> 7 dvd b" if "7 dvd a * b" for a b :: int
  proof -
    have r: "x mod 7 \<in> {0, 1, 2, 3, 4, 5, 6}" for x :: int by (simp; presburger)
    have "(a mod 7) * (b mod 7) mod 7 = 0" using that by (simp add: mod_mult_eq flip: mod_eq_0_iff_dvd)
    then have "a mod 7 = 0 \<or> b mod 7 = 0" using r [of a] r [of b] by auto
    then show ?thesis by (simp add: dvd_eq_mod_eq_0)
  qed
  then have "prime_order 7" by (simp add: prime_order_def)
  then show ?thesis by (simp add: bls_laws_def toy_curve_def)
qed

theorem beacon_quorum_gives_one_output_witness:
  "\<exists>keys g g'. run_dkg toy_prims toy_curve 3 2 [9] = Inr keys \<and>
     produce toy_curve keys 1 [1, 3] = Inr (Some g, True) \<and> produce toy_curve keys 1 [3, 2] = Inr (Some g', True) \<and>
     randomness toy_prims toy_curve g = randomness toy_prims toy_curve g' \<and> produce toy_curve keys 1 [2] = Inr (None, False)"
proof -
  have c: "int 3 < curve_order toy_curve" by (simp add: toy_curve_def)
  from beacon_quorum_gives_one_output [OF toy_curve_laws _ _ _ _ c, of 2 run_dkg toy_prims "[9]" 1]
  obtain keys rnd where k: "run_dkg toy_prims toy_curve 3 2 [9] = Inr keys" and
    S: "\<And>S. set S \<subseteq> {1..3} \<Longrightarrow> (if 2 \<le> card (set S) then \<exists>g. produce toy_curve keys 1 S = Inr (Some g, True) \<and> randomness toy_prims toy_curve g = rnd
         else produce toy_curve keys 1 S = Inr (None, False))" by auto
  from k S [of "[1, 3]"] S [of "[3, 2]"] S [of "[2]"] show ?thesis by auto
qed

section \<open>The network model's layout\<close>

text \<open>C37. Layout round trip. When the constructor of \<^verbatim>\<open>ChainLayout\<close> returns, the chain order and the torch order are
  inverse to each other on all weight vectors of the model's size, the page spans follow one another without gap or overlap from 0 to
  the size, one for the backbone and one per expert, and a delta restricted to claimed pages touches no other page.\<close>

theorem layout_conversions_inverse:
  assumes "layout_of d_embd d_hidden named = Inr L"
  shows "(\<forall>v. length v = cl_n L \<longrightarrow>
        (\<exists>c. chain_of L v = Inr c \<and> length c = cl_n L \<and> torch_of L c = Inr v) \<and>
        (\<exists>u. torch_of L v = Inr u \<and> length u = cl_n L \<and> chain_of L u = Inr v)) \<and>
     contiguous 0 (cl_page_spans L) (cl_n L) \<and> length (cl_page_spans L) = Suc (length (cl_experts L)) \<and>
     (\<forall>delta pages out. zero_outside L delta pages = Inr out \<and> (\<forall>p\<in>set pages. 0 \<le> p) \<longrightarrow>
        (\<forall>pid\<in>set (pages_touched L out). int pid \<in> set pages))"
  using layout_roundtrip [OF assms] layout_pages [OF assms] zero_outside_touches [OF assms] by metis

definition toy_params :: "(string \<times> nat) list" where
  "toy_params = [(''wte'', 2), (''blocks.0.experts.0.w1'', 1), (''blocks.0.experts.0.b1'', 3), (''ln'', 1)]"

theorem layout_conversions_inverse_witness:
  "\<exists>L c. layout_of 1 1 toy_params = Inr L \<and> cl_to_chain L = [0, 1, 6, 2, 3, 4, 5] \<and> cl_page_spans L = [(0, 3), (3, 7)] \<and>
     chain_of L [10, 11, 12, 13, 14, 15, 16 :: int] = Inr c \<and> torch_of L c = Inr [10, 11, 12, 13, 14, 15, 16]"
proof -
  have "case layout_of 1 1 toy_params of Inr L \<Rightarrow> cl_to_chain L = [0, 1, 6, 2, 3, 4, 5] \<and> cl_page_spans L = [(0, 3), (3, 7)] \<and> cl_n L = 7 | _ \<Rightarrow> False"
    by code_simp
  then obtain L where L: "layout_of 1 1 toy_params = Inr L" "cl_to_chain L = [0, 1, 6, 2, 3, 4, 5]" "cl_page_spans L = [(0, 3), (3, 7)]" "cl_n L = 7"
    by (auto split: sum.splits)
  have "length [10, 11, 12, 13, 14, 15, 16 :: int] = cl_n L" using L(4) by simp
  with layout_conversions_inverse [OF L(1)] L show ?thesis by blast
qed

section \<open>One loop over beacon, availability and chain\<close>

text \<open>C38. Integrated rounds. Start from distributed keys for \<open>n\<close> members with threshold \<open>t\<close> and run any number of rounds with any quorums, while miners start and
  stop withholding. Then the next round returns for every quorum of at least \<open>t\<close> members, and it is the same round, the same block and
  the same weights, whichever quorum signs. No withholding miner is in the block, at most four miners are, and every committed pointer belongs to a
  body that any three of its nine shards rebuild. The blocks are hash-linked, numbered from 1, and the last one commits the current weights.\<close>

theorem integrated_round_is_quorum_free:
  assumes "bls_laws C dl1 dl2" and "0 < t" and "t \<le> 256" and "0 < n" and "n < 256" and "int n < curve_order C"
    and "int_env_ok env" and "int_reach P C env n t c"
    and "set Q \<subseteq> {1..int n}" and "t \<le> card (set Q)" and "set R \<subseteq> {1..int n}" and "t \<le> card (set R)"
  shows "\<exists>b c'. int_round P C env Q c = Inr (b, c') \<and> int_round P C env R c = Inr (b, c') \<and>
     set (ib_miner_ids b) \<inter> ic_withholders c = {} \<and> length (ib_miner_ids b) \<le> 4 \<and>
     (\<forall>ptr\<in>set (ib_da_roots b). \<exists>body blob. disperse P body 3 9 = Inr blob \<and> ptr = da_pointer (blob_root blob) \<and>
        (\<forall>got. distinct got \<and> set got \<subseteq> {0..<9} \<and> 3 \<le> length got \<longrightarrow>
           reconstruct (map (\<lambda>i. (i, db_shards blob ! i)) got) 3 (length body) = Inr body)) \<and>
     int_replay P c' \<and> map ib_height (ic_blocks c') = [1..<Suc (length (ic_blocks c'))] \<and>
     ib_state_root b = state_root P (ic_w_int c')"
proof -
  obtain f where k: "keys_ok C dl1 f (ic_keys c)" "key_t (ic_keys c) = t" "key_n (ic_keys c) = n" "ic_n c = n"
    using int_reach_ok [OF assms(8,1-5)] by blast
  have "\<exists>b c'. int_round P C env Q c = Inr (b, c') \<and> length (ic_w_int c') = length (ic_w_int c)"
    by (rule round_returns [OF assms(1) k(1)]) (use assms k in simp_all)
  then obtain b c' where r: "int_round P C env Q c = Inr (b, c')" by blast
  have same: "int_round P C env R c = int_round P C env Q c"
    by (rule round_quorum_free [OF assms(1) k(1)]) (use assms k in simp_all)
  have picks: "env_picks env x \<noteq> []" for x using assms(7) by (simp add: int_env_ok_def)
  note av = round_available [OF picks r] and eff = int_round_effect [OF r]
    and ok = int_reach_ok [OF int_step [OF assms(8) r] assms(1-5)]
  have rec: "reconstruct (map (\<lambda>i. (i, db_shards blob ! i)) got) 3 (length body) = Inr body"
    if "disperse P body 3 9 = Inr blob" "distinct got \<and> set got \<subseteq> {0..<9} \<and> 3 \<le> length got" for body blob got
    using rs_roundtrip [OF disperse_facts(1) [OF that(1)], of got] that(2) by (auto simp: subset_iff)
  have "\<forall>ptr\<in>set (ib_da_roots b). \<exists>body blob. disperse P body 3 9 = Inr blob \<and> ptr = da_pointer (blob_root blob)"
    using av by (simp add: DA_K_def DA_N_def)
  then have "\<forall>ptr\<in>set (ib_da_roots b). \<exists>body blob. disperse P body 3 9 = Inr blob \<and> ptr = da_pointer (blob_root blob) \<and>
        (\<forall>got. distinct got \<and> set got \<subseteq> {0..<9} \<and> 3 \<le> length got \<longrightarrow>
           reconstruct (map (\<lambda>i. (i, db_shards blob ! i)) got) 3 (length body) = Inr body)" using rec by meson
  moreover have "set (ib_miner_ids b) \<inter> ic_withholders c = {}" using av by blast
  moreover have "length (ib_miner_ids b) \<le> 4" using av by blast
  moreover have "int_replay P c' \<and> map ib_height (ic_blocks c') = [1..<Suc (length (ic_blocks c'))]" using ok by blast
  ultimately show ?thesis using r same eff by (intro exI [of _ b] exI [of _ c']) simp
qed

definition toy_env :: "int int_env" where
  "toy_env = \<lparr>env_leader = (\<lambda>sd n. int (sd mod n)), env_work = (\<lambda>sd m w. map (\<lambda>_. int m) w), env_score = (\<lambda>sd w d. Inr (hd d)),
     env_picks = (\<lambda>x. [0, 3])\<rparr>"

theorem integrated_round_is_quorum_free_witness:
  "\<exists>c b c'. int_new_chain toy_prims toy_curve 3 2 [9] [5] = Inr c \<and> int_round toy_prims toy_curve toy_env [1, 2] c = Inr (b, c') \<and>
     int_round toy_prims toy_curve toy_env [3, 2] c = Inr (b, c') \<and> int_replay toy_prims c'"
proof -
  have "\<exists>keys f. run_dkg toy_prims toy_curve 3 2 [9] = Inr keys \<and> keys_ok toy_curve id f keys \<and> key_t keys = 2 \<and> key_n keys = 3"
    by (rule run_dkg_ok [OF toy_curve_laws]) simp_all
  then obtain c where c: "int_new_chain toy_prims toy_curve 3 2 [9] [5] = Inr c" by (auto simp: int_new_chain_def)
  have e: "int_env_ok toy_env" by (simp add: int_env_ok_def toy_env_def DA_N_def)
  have o: "int 3 < curve_order toy_curve" by (simp add: toy_curve_def)
  have q: "set [1, 2] \<subseteq> {1..int 3}" "2 \<le> card (set [1, 2 :: int])" "set [3, 2] \<subseteq> {1..int 3}" "2 \<le> card (set [3, 2 :: int])" by auto
  from integrated_round_is_quorum_free [OF toy_curve_laws _ _ _ _ o e int_start [OF c] q] c show ?thesis by auto
qed

section \<open>The wallet\<close>

text \<open>C39. The key file. Given a secret box that decrypts what it encrypts and recovery words that encode their entropy, a wallet that \<^verbatim>\<open>create\<close> wrote loads under the
  passphrase it was given, with the same key and record; the file is new, readable by its owner only, and no other file changed. The printed words alone restore
  the same key and address at any other free path, under any passphrase. Every address the chain derives survives display and parsing, with bech32 installed or
  not.\<close>

theorem wallet_file_roundtrip:
  assumes "nacl_laws N" and "mnem_laws m" and "\<forall>b. lib = Some b \<longrightarrow> bech_laws b" and "\<forall>x. length (sha256 P x) = 32"
    and "wallet_create P N (Some m) urandom salt nonce src path1 fs = Inr ((r, words), fs')"
  shows "(\<exists>pw. read_passphrase src = Inr pw \<and> wallet_load P N path1 pw fs' = Inr (generate P urandom, r)) \<and>
     map_of fs path1 = None \<and> map_option wf_mode (map_of fs' path1) = Some 384 \<and> (\<forall>q. q \<noteq> path1 \<longrightarrow> map_of fs' q = map_of fs q) \<and>
     (\<forall>q gs salt' nonce' pw'. q \<notin> fst ` set gs \<and> CHR ''/'' \<in> set q \<longrightarrow>
        (\<exists>ws r' gs'. words = Some ws \<and> wallet_restore P N (Some m) salt' nonce' ws pw' q gs = Inr (r', gs') \<and>
          wallet_load P N q pw' gs' = Inr (generate P urandom, r') \<and> w_address r' = w_address r)) \<and>
     (\<exists>s. to_display lib (w_address r) = Inr s \<and> parse_addr lib s = Inr (w_address r))"
proof -
  have l: "length (key_sk (generate P urandom)) = 32" using assms(4) by (simp add: generate_def Let_def)
  from assms(5) obtain pw where "write_wallet P N salt nonce path1 (generate P urandom) pw fs = Inr (r, fs')"
    by (auto simp: wallet_create_def Let_def res_simps)
  then obtain addr where "address P (pub (generate P urandom)) = Inr addr" "w_address r = addr" by (rule write_wallet_cases) auto
  then have "\<exists>x. w_address r = take 40 (hex (sha256 P x))" by (auto simp: address_def sha_hex_def split: option.splits intro: sym)
  then obtain x where "w_address r = take 40 (hex (sha256 P x))" by blast
  moreover from take_hex [of 20 "sha256 P x"] have "take 40 (hex (sha256 P x)) = hex (take 20 (sha256 P x))" by simp
  ultimately have "\<exists>s. to_display lib (w_address r) = Inr s \<and> parse_addr lib s = Inr (w_address r)"
    using display_roundtrip [of "take 20 (sha256 P x)" lib] assms(3,4) by auto
  with create_load [OF assms(5,1) l] restore_words [OF assms(5,2,1) l] show ?thesis by blast
qed

definition toy_nacl :: nacl where
  "toy_nacl = \<lparr>argon2id = (\<lambda>p s. p), box_encrypt = (\<lambda>k n m. m), box_decrypt = (\<lambda>k c. Some c)\<rparr>"

definition toy_mnem :: mnem where
  "toy_mnem = \<lparr>to_mnemonic = hex, mn_check = (\<lambda>w. True), to_entropy = (\<lambda>w. the (fromhex w))\<rparr>"

definition toy_bech :: bech where
  "toy_bech = \<lparr>bech32_encode = (\<lambda>h d. h @ ''1'' @ map char_of d),
     bech32_decode = (\<lambda>s. (Some (take 3 s), Some (map of_char (drop 4 s)))), convertbits = (\<lambda>d a b p. Some d)\<rparr>"

lemma toy_wallet_laws: "nacl_laws toy_nacl" "mnem_laws toy_mnem" "bech_laws toy_bech"
proof -
  have "map (\<lambda>x. of_char (char_of x)) d = d" if "\<forall>x\<in>set d. x < 256" for d :: "nat list" using that by (intro map_idI) simp
  then show "bech_laws toy_bech" by (auto simp: bech_laws_def toy_bech_def HRP_def comp_def)
  have "\<not> py_space c" if "c \<in> set hex_digits" for c using that by (auto simp: hex_digits_def py_space_def)
  then have "dropWhile py_space s = s" if "set s \<subseteq> set hex_digits" for s using that by (cases s) auto
  then have "strip (hex b) = hex b" for b using hex_chars by (simp add: strip_def subset_iff)
  then show "mnem_laws toy_mnem" by (simp add: mnem_laws_def toy_mnem_def fromhex_hex)
qed (simp add: nacl_laws_def toy_nacl_def)

theorem wallet_file_roundtrip_witness:
  "\<exists>r words fs'. wallet_create pad32 toy_nacl (Some toy_mnem) [7] [] [] (PwPrompt ''pw'' ''pw'') ''/w'' [] = Inr ((r, words), fs') \<and>
     wallet_load pad32 toy_nacl ''/w'' ''pw'' fs' = Inr (generate pad32 [7], r)"
proof -
  obtain r words fs' where c: "wallet_create pad32 toy_nacl (Some toy_mnem) [7] [] [] (PwPrompt ''pw'' ''pw'') ''/w'' [] = Inr ((r, words), fs')"
    by (auto simp: wallet_create_def read_passphrase_def write_wallet_def address_def pub_def fromhex_hex Let_def)
  have "\<forall>x. length (sha256 pad32 x) = 32" by (simp add: pad32_def toy_prims_def) arith
  from wallet_file_roundtrip [OF toy_wallet_laws(1,2) _ this c, of "Some toy_bech"] toy_wallet_laws(3) c show ?thesis
    by (auto simp: read_passphrase_def)
qed

text \<open>C40. A confirmation can be false. When a rival transfer with the same nonce, from the same address, is applied first, the confirmation loop of the wallet
  sees the nonce advance and reports the wallet's own transfer as confirmed; the ledger refuses that transfer, at that point and in every
  later state in which the nonce has not fallen back.\<close>

theorem confirmed_transfer_may_be_refused:
  assumes "apply_transfer P rv led = Inr (True, led')" and "address P (tr_from_pub rv) = Inr src"
    and "send_tx P lib k r dest amount (dict_get (nonces led) src 0) = Inr tx" and "address P (w_pub r) = Inr src"
    and "dict_get (nonces led') src 0 \<le> dict_get (nonces later) src 0"
  shows "wallet_submit (send_tx P lib k r dest amount)
      [\<lparr>at_nonce = dict_get (nonces led) src 0, at_out = out, at_polls = [dict_get (nonces led') src 0]\<rparr>] [] = ([tx], Inr out) \<and>
    apply_transfer P tx led' = Inr (False, led') \<and> apply_transfer P tx later = Inr (False, later)"
proof -
  have n: "dict_get (nonces led') src 0 = dict_get (nonces led) src 0 + 1"
    using apply_transfer_effect [OF assms(1)] assms(2) by auto
  have "tr_from_pub tx = w_pub r" "tr_nonce tx = dict_get (nonces led) src 0"
    using assms(3) by (auto simp: send_tx_def tr_signed_def res_simps split: if_splits)
  then have "apply_transfer P tx later = Inr (False, later)" using assms(4,5) n by (simp add: apply_transfer_def)
  then show ?thesis using confirmed_but_refused [OF assms(1-4), of out] by blast
qed

theorem confirmed_transfer_may_be_refused_witness:
  "\<exists>led' tx. apply_transfer toy_prims toy_transfer (credit (hex [1]) 100 empty_ledger) = Inr (True, led') \<and>
     wallet_submit (send_tx toy_prims None \<lparr>key_sk = [1], key_pk = [1]\<rparr>
         \<lparr>w_version = 2, w_pub = hex [1], w_address = hex [1], w_enc = None, w_sk = None\<rparr> (hex (replicate 20 0)) 5)
       [\<lparr>at_nonce = 0, at_out = ''ok'', at_polls = [1]\<rparr>] [] = ([tx], Inr ''ok'') \<and>
     apply_transfer toy_prims tx led' = Inr (False, led')"
proof -
  let ?l = "credit (hex [1]) 100 empty_ledger" and ?k = "\<lparr>key_sk = [1], key_pk = [1]\<rparr> :: key"
  let ?r = "\<lparr>w_version = 2, w_pub = hex [1], w_address = hex [1], w_enc = None, w_sk = None\<rparr> :: wallet_rec"
  have h: "hex [1] = ''01''" by (simp add: hex_def hex_byte_def hex_digits_def)
  have "address toy_prims (hex [1]) = Inr (take 40 (hex [1]))" by (simp add: address_def fromhex_hex sha_hex_def toy_prims_def)
  then have a: "address toy_prims (hex [1]) = Inr (hex [1])" by (simp add: h)
  have "tr_verify toy_prims toy_transfer" by (simp add: tr_verify_def verify_def toy_transfer_def fromhex_hex toy_prims_def)
  then obtain led' where led': "apply_transfer toy_prims toy_transfer ?l = Inr (True, led')" and n: "dict_get (nonces led') (hex [1]) 0 = 1"
    using a by (simp add: apply_transfer_def h toy_transfer_def credit_def empty_ledger_def dict_get_def debit_def Let_def)
  have n0: "dict_get (nonces ?l) (hex [1]) 0 = 0" by (simp add: credit_def empty_ledger_def dict_get_def)
  obtain tx where tx: "send_tx toy_prims None ?k ?r (hex (replicate 20 0)) 5 (dict_get (nonces ?l) (hex [1]) 0) = Inr tx"
    by (simp add: send_tx_def parse_hex tr_signed_def pub_def)
  have src: "address toy_prims (tr_from_pub toy_transfer) = Inr (hex [1])" "address toy_prims (w_pub ?r) = Inr (hex [1])"
    using a by (simp_all add: toy_transfer_def)
  from confirmed_transfer_may_be_refused [OF led' src(1) tx src(2) order_refl, of "''ok''"] led' show ?thesis
    unfolding n0 n by blast
qed

end
